(* ===== verification/Prelude.thy ===== *)
theory Prelude
  imports Main "HOL-Library.Word"
begin

unbundle bit_operations_syntax

text \<open>
  Shared vocabulary of the development: names for the C types the sources use, the ASCII
  helpers every text component needs, the decimal notation that serves as the reference
  for all number/text conversions, and generic lemmas on lists and words.

  A C string or byte buffer is a \<^typ>\<open>string\<close> (a list of 8-bit characters). A
  pointer \<^verbatim>\<open>const char *\<close> into a NUL terminated buffer is the list of the bytes from
  that address to the end of the buffer, so that advancing the pointer is dropping bytes
  and a pointer difference is a difference of lengths.
\<close>

type_synonym u8 = "8 word"
type_synonym u32 = "32 word"
type_synonym u64 = "64 word"

abbreviation NUL :: char where "NUL \<equiv> CHR 0x00"
abbreviation CR :: char where "CR \<equiv> CHR 0x0D"
abbreviation LF :: char where "LF \<equiv> CHR 0x0A"
abbreviation CRLF :: string where "CRLF \<equiv> [CR, LF]"

text \<open>The bounds of \<^verbatim>\<open>long long\<close> and \<^verbatim>\<open>unsigned long long\<close>.\<close>

abbreviation LLONG_MAX :: int where "LLONG_MAX \<equiv> 9223372036854775807"
abbreviation LLONG_MIN :: int where "LLONG_MIN \<equiv> - 9223372036854775808"
abbreviation ULLONG_MAX :: u64 where "ULLONG_MAX \<equiv> 18446744073709551615"

named_theorems word_nat \<open>transfer of word operations to natural numbers\<close>
named_theorems c_defs \<open>definitions unfolded when a model function is evaluated\<close>

section \<open>ASCII\<close>

definition dig :: "nat \<Rightarrow> char" where
  "dig d = char_of (48 + d)"

definition is_digit :: "char \<Rightarrow> bool" where
  "is_digit c \<longleftrightarrow> 48 \<le> (of_char c :: nat) \<and> (of_char c :: nat) \<le> 57"

definition digit_val :: "char \<Rightarrow> nat" where
  "digit_val c = of_char c - 48"

lemma of_char_dig [simp]: "d < 10 \<Longrightarrow> (of_char (dig d) :: nat) = 48 + d"
  by (simp add: dig_def)

lemma is_digit_dig [simp]: "d < 10 \<Longrightarrow> is_digit (dig d)"
  by (simp add: is_digit_def)

lemma digit_val_dig [simp]: "d < 10 \<Longrightarrow> digit_val (dig d) = d"
  by (simp add: digit_val_def)

lemma digit_val_lt [simp]: "is_digit c \<Longrightarrow> digit_val c < 10"
  by (auto simp: is_digit_def digit_val_def)

lemma dig_digit_val [simp]: "is_digit c \<Longrightarrow> dig (digit_val c) = c"
  by (auto simp: is_digit_def digit_val_def dig_def)

lemma is_digitE:
  assumes "is_digit c"
  obtains d where "d < 10" "c = dig d"
proof
  show "digit_val c < 10" using assms by simp
  show "c = dig (digit_val c)" using assms by simp
qed

lemma dig_inject [simp]: "a < 10 \<Longrightarrow> b < 10 \<Longrightarrow> dig a = dig b \<longleftrightarrow> a = b"
  by (metis digit_val_dig)

lemma dig_neq_ctrl [simp]:
  assumes "d < 10"
  shows "dig d \<noteq> CR" "dig d \<noteq> NUL" "dig d \<noteq> CHR ''-''"
proof -
  have "(of_char (dig d) :: nat) = 48 + d" using assms by simp
  then show "dig d \<noteq> CR" "dig d \<noteq> NUL" "dig d \<noteq> CHR ''-''" by auto
qed

lemma not_digit_ctrl [simp]: "\<not> is_digit CR" "\<not> is_digit NUL" "\<not> is_digit (CHR ''-'')"
  by (simp_all add: is_digit_def)

text \<open>\<^verbatim>\<open>tolower\<close> of the C locale, and the case insensitive comparisons of \<^verbatim>\<open>strings.h\<close>
  on buffers of a known length.\<close>

definition tolower :: "char \<Rightarrow> char" where
  "tolower c = (let n = of_char c :: nat in if 65 \<le> n \<and> n \<le> 90 then char_of (n + 32) else c)"

definition toupper :: "char \<Rightarrow> char" where
  "toupper c = (let n = of_char c :: nat in if 97 \<le> n \<and> n \<le> 122 then char_of (n - 32) else c)"

text \<open>\<^verbatim>\<open>strncasecmp(a, b, n) == 0\<close>: the first \<^term>\<open>n\<close> bytes agree up to case, where a
  NUL in both strings (or the terminator of both) ends the comparison.\<close>

fun strncaseeq :: "string \<Rightarrow> string \<Rightarrow> nat \<Rightarrow> bool" where
  "strncaseeq a b 0 = True"
| "strncaseeq [] [] (Suc n) = True"
| "strncaseeq [] (y # ys) (Suc n) = (y = NUL)"
| "strncaseeq (x # xs) [] (Suc n) = (x = NUL)"
| "strncaseeq (x # xs) (y # ys) (Suc n) =
     (tolower x = tolower y \<and> (x = NUL \<or> strncaseeq xs ys n))"

text \<open>The C string at the start of a buffer, and what \<^verbatim>\<open>snprintf(buf, n, "%s", s)\<close> leaves in
  \<^verbatim>\<open>buf\<close>.\<close>

definition c_str :: "string \<Rightarrow> string" where
  "c_str s = takeWhile (\<lambda>ch. ch \<noteq> NUL) s"

definition snprintf_s :: "nat \<Rightarrow> string \<Rightarrow> string" where
  "snprintf_s n s = take (n - 1) (c_str s)"

lemma c_str_no_NUL [simp]: "NUL \<notin> set (c_str s)"
  by (auto simp: c_str_def dest: set_takeWhileD)

lemma c_str_id [simp]: "NUL \<notin> set s \<Longrightarrow> c_str s = s"
  by (auto simp: c_str_def takeWhile_eq_all_conv)

lemma snprintf_s_length [simp]: "length (snprintf_s n s) \<le> n - 1"
  by (simp add: snprintf_s_def)

lemma snprintf_s_no_NUL [simp]: "NUL \<notin> set (snprintf_s n s)"
  unfolding snprintf_s_def using c_str_no_NUL in_set_takeD by fast

section \<open>Decimal notation\<close>

text \<open>The reference for every number/text conversion of the program.\<close>

fun dec :: "nat \<Rightarrow> string" where
  "dec n = (if n < 10 then [dig n] else dec (n div 10) @ [dig (n mod 10)])"

declare dec.simps [simp del]

definition dec_int :: "int \<Rightarrow> string" where
  "dec_int x = (if x < 0 then CHR ''-'' # dec (nat (- x)) else dec (nat x))"

lemma dec_small [simp]: "n < 10 \<Longrightarrow> dec n = [dig n]"
  by (subst dec.simps) simp

lemma dec_large: "10 \<le> n \<Longrightarrow> dec n = dec (n div 10) @ [dig (n mod 10)]"
  by (subst dec.simps) simp

lemma dec_not_Nil [simp]: "dec n \<noteq> []"
  by (subst dec.simps) simp

lemma length_dec_pos [simp]: "0 < length (dec n)"
  by simp

lemma dec_digits: "c \<in> set (dec n) \<Longrightarrow> is_digit c"
proof (induction n rule: dec.induct)
  case (1 n)
  show ?case
  proof (cases "n < 10")
    case True
    then show ?thesis using "1.prems" by simp
  next
    case False
    then have "c \<in> set (dec (n div 10)) \<or> c = dig (n mod 10)"
      using "1.prems" by (auto simp: dec_large)
    then show ?thesis using "1.IH" False by auto
  qed
qed

lemma dec_no_ctrl [simp]: "CR \<notin> set (dec n)" "NUL \<notin> set (dec n)" "CHR ''-'' \<notin> set (dec n)"
  using dec_digits not_digit_ctrl by blast+

lemma dec_int_no_ctrl [simp]: "CR \<notin> set (dec_int x)" "NUL \<notin> set (dec_int x)"
  by (auto simp: dec_int_def)

lemma dec_int_not_Nil [simp]: "dec_int x \<noteq> []"
  by (simp add: dec_int_def)

text \<open>The value of a digit string, most significant digit first.\<close>

definition dec_val :: "string \<Rightarrow> nat" where
  "dec_val s = foldl (\<lambda>v c. v * 10 + digit_val c) 0 s"

lemma dec_val_append_one [simp]: "dec_val (s @ [c]) = dec_val s * 10 + digit_val c"
  by (simp add: dec_val_def)

lemma dec_val_dec [simp]: "dec_val (dec n) = n"
proof (induction n rule: dec.induct)
  case (1 n)
  show ?case
  proof (cases "n < 10")
    case True
    then show ?thesis by (simp add: dec_val_def)
  next
    case False
    then show ?thesis using "1.IH" by (simp add: dec_large)
  qed
qed

lemma dec_inject [simp]: "dec a = dec b \<longleftrightarrow> a = b"
  by (metis dec_val_dec)

lemma hd_dec_pos: "0 < n \<Longrightarrow> hd (dec n) \<noteq> dig 0"
proof (induction n rule: dec.induct)
  case (1 n)
  show ?case
  proof (cases "n < 10")
    case True
    then show ?thesis using "1.prems" by simp
  next
    case False
    then have "0 < n div 10" by simp
    then have "hd (dec (n div 10)) \<noteq> dig 0" using "1.IH" False by simp
    then show ?thesis using False by (simp add: dec_large)
  qed
qed

text \<open>Conversely a digit string that does not start with a zero is the decimal notation of
  its value.\<close>

lemma dec_dec_val:
  assumes "s \<noteq> []" "\<forall>c \<in> set s. is_digit c" "hd s \<noteq> dig 0"
  shows "dec (dec_val s) = s \<and> 0 < dec_val s"
  using assms
proof (induction s rule: rev_induct)
  case Nil
  then show ?case by simp
next
  case (snoc c s)
  show ?case
  proof (cases "s = []")
    case True
    then have "is_digit c" "c \<noteq> dig 0" using snoc.prems by auto
    then have "digit_val c < 10" "digit_val c \<noteq> 0"
      by (simp, metis dig_digit_val)
    then show ?thesis using True \<open>is_digit c\<close> by (simp add: dec_val_def)
  next
    case False
    then have "dec (dec_val s) = s" "0 < dec_val s"
      using snoc.IH snoc.prems by (auto simp: hd_append)
    then show ?thesis using snoc.prems
      by (subst dec.simps) auto
  qed
qed

lemma length_dec_mono: "a \<le> b \<Longrightarrow> length (dec a) \<le> length (dec b)"
proof (induction b arbitrary: a rule: dec.induct)
  case (1 b)
  show ?case
  proof (cases "b < 10")
    case True
    then show ?thesis using "1.prems" by simp
  next
    case bF: False
    show ?thesis
    proof (cases "a < 10")
      case True
      then show ?thesis by (simp add: Suc_leI)
    next
      case False
      then show ?thesis using bF "1.IH"[of "a div 10"] "1.prems"
        by (simp add: dec_large div_le_mono)
    qed
  qed
qed

section \<open>Lists\<close>

lemma take_list_update_same:
  "n < length xs \<Longrightarrow> take (Suc n) (xs[n := v]) = take n xs @ [v]"
  by (simp add: take_Suc_conv_app_nth)

lemma nth_le_take_snoc: "i < length xs \<Longrightarrow> take i xs @ [xs ! i] = take (Suc i) xs"
  by (simp add: take_Suc_conv_app_nth)

section \<open>Words\<close>

lemmas unat_u64_simps = unat_div unat_mod unat_numeral

lemma unat_u64_lt [simp]: "unat (x :: u64) < 18446744073709551616"
  using unsigned_less[of x] by simp

end
