(* ===== verification/Util.thy ===== *)
theory Util
  imports Prelude
begin

text \<open>
  The number and text conversions of \<^verbatim>\<open>src/src/util.c\<close>: \<open>digits10\<close>, \<open>ull2string\<close>,
  \<open>ll2string\<close>, \<open>string2ll\<close> and their relatives. The protocol layer prints every
  length and integer with \<open>ll2string\<close> and reads it back with \<open>string2ll\<close>, so the
  main results are that each is exact against the decimal notation of the prelude and that
  \<open>string2ll\<close> accepts precisely the strings \<open>ll2string\<close> prints.

  Unsigned 64-bit values are \<^typ>\<open>u64\<close> words; a \<^verbatim>\<open>long long\<close> result is the integer
  it denotes. A destination buffer is a list updated in place by index.
\<close>

section \<open>digits10 and sdigits10\<close>

function digits10 :: "u64 \<Rightarrow> nat" where
  "digits10 v =
    (if v < 10 then 1
     else if v < 100 then 2
     else if v < 1000 then 3
     else if v < 1000000000000 then
       (if v < 100000000 then
          (if v < 1000000 then
             (if v < 10000 then 4 else 5 + of_bool (v \<ge> 100000))
           else 7 + of_bool (v \<ge> 10000000))
        else if v < 10000000000 then 9 + of_bool (v \<ge> 1000000000)
        else 11 + of_bool (v \<ge> 100000000000))
     else 12 + digits10 (v div 1000000000000))"
  by pat_completeness auto
termination
  by (relation "measure unat") (auto simp: unat_div word_less_nat_alt)

declare digits10.simps [simp del]

definition sdigits10 :: "int \<Rightarrow> nat" where
  "sdigits10 v =
    (if v < 0 then
       (let uv = (if v \<noteq> LLONG_MIN then (of_int (- v) :: u64) else of_int LLONG_MAX + 1)
        in digits10 uv + 1)
     else digits10 (of_int v))"

section \<open>ull2string and ll2string\<close>

definition digits_table :: string where
  "digits_table =
     ''0001020304050607080910111213141516171819'' @
     ''2021222324252627282930313233343536373839'' @
     ''4041424344454647484950515253545556575859'' @
     ''6061626364656667686970717273747576777879'' @
     ''8081828384858687888990919293949596979899''"

function ull2string_loop :: "string \<Rightarrow> nat \<Rightarrow> u64 \<Rightarrow> string" where
  "ull2string_loop dst nxt value =
    (if value \<ge> 100 then
       (let i = unat (value mod 100) * 2
        in ull2string_loop (dst[nxt := digits_table ! (i + 1), nxt - 1 := digits_table ! i])
             (nxt - 2) (value div 100))
     else if value < 10 then dst[nxt := char_of (48 + unat value)]
     else
       (let i = unat value * 2
        in dst[nxt := digits_table ! (i + 1), nxt - 1 := digits_table ! i]))"
  by pat_completeness auto
termination
  by (relation "measure (\<lambda>(dst, nxt, value). unat value)")
    (auto simp: unat_div word_le_nat_alt)

declare ull2string_loop.simps [simp del]

definition ull2string :: "string \<Rightarrow> nat \<Rightarrow> u64 \<Rightarrow> nat \<times> string" where
  "ull2string dst dstlen value =
    (let len = digits10 value
     in if len \<ge> dstlen then (0, if dstlen > 0 then dst[0 := NUL] else dst)
        else (let nxt = len - 1
              in (len, ull2string_loop (dst[nxt + 1 := NUL]) nxt value)))"

definition ll2string :: "string \<Rightarrow> nat \<Rightarrow> int \<Rightarrow> nat \<times> string" where
  "ll2string dst dstlen svalue =
    (if svalue < 0 then
       (let value = (if svalue \<noteq> LLONG_MIN then (of_int (- svalue) :: u64) else of_int LLONG_MAX + 1)
        in if dstlen < 2 then (0, if dstlen > 0 then dst[0 := NUL] else dst)
           else (case ull2string (tl dst) (dstlen - 1) value of
                   (len, rest) \<Rightarrow>
                     (if len = 0 then 0 else len + 1, CHR ''-'' # rest)))
     else ull2string dst dstlen (of_int svalue))"

section \<open>string2ll and string2l\<close>

definition LONG_STR_SIZE :: nat where
  "LONG_STR_SIZE = 21"

fun string2ll_loop :: "u64 \<Rightarrow> string \<Rightarrow> (u64 \<times> string) option" where
  "string2ll_loop v [] = Some (v, [])"
| "string2ll_loop v (c # p) =
    (if is_digit c then
       (if v > ULLONG_MAX div 10 then None
        else
          (let v = v * 10; d = of_nat (digit_val c)
           in if v > ULLONG_MAX - d then None
              else string2ll_loop (v + d) p))
     else Some (v, c # p))"

definition string2ll :: "string \<Rightarrow> int option" where
  "string2ll s =
    (let slen = length s
     in if slen = 0 \<or> slen \<ge> LONG_STR_SIZE then None
        else if slen = 1 \<and> s ! 0 = CHR ''0'' then Some 0
        else
          (let negative = (s ! 0 = CHR ''-''); p = (if negative then tl s else s)
           in if negative \<and> p = [] then None
              else if is_digit (hd p) \<and> hd p \<noteq> CHR ''0'' then
                (case string2ll_loop (of_nat (digit_val (hd p))) (tl p) of
                   None \<Rightarrow> None
                 | Some (v, rest) \<Rightarrow>
                     if rest \<noteq> [] then None
                     else if negative then
                       (if v > of_int (- (LLONG_MIN + 1)) + 1 then None else Some (sint (- v)))
                     else (if v > of_int LLONG_MAX then None else Some (sint v)))
              else None))"

definition string2l :: "string \<Rightarrow> int option" where
  "string2l s =
    (case string2ll s of
       None \<Rightarrow> None
     | Some llval \<Rightarrow> if llval < LLONG_MIN \<or> llval > LLONG_MAX then None else Some llval)"

section \<open>Replacing characters\<close>

fun mapchar :: "string \<Rightarrow> string \<Rightarrow> char \<Rightarrow> char" where
  "mapchar (f # from) (t # to) c = (if c = f then t else mapchar from to c)"
| "mapchar _ _ c = c"

section \<open>Correctness of digits10\<close>

lemma length_dec_div: "10 ^ k \<le> n \<Longrightarrow> length (dec n) = k + length (dec (n div 10 ^ k))"
proof (induction k arbitrary: n)
  case 0
  then show ?case by simp
next
  case (Suc k)
  have "(10::nat) \<le> 10 ^ Suc k" by simp
  then have ten: "10 \<le> n" using Suc.prems by (rule order_trans)
  have "10 ^ k \<le> n div 10" using Suc.prems by (simp add: less_eq_div_iff_mult_less_eq)
  then have "length (dec (n div 10)) = k + length (dec (n div 10 div 10 ^ k))" by (rule Suc.IH)
  then show ?case using ten by (simp add: dec_large div_mult2_eq)
qed

lemma length_dec_range:
  assumes "10 ^ k \<le> n" "n < 10 ^ Suc k"
  shows "length (dec n) = Suc k"
proof -
  have "n div 10 ^ k < 10" using assms by (simp add: less_mult_imp_div_less mult.commute)
  then show ?thesis using length_dec_div[OF assms(1)] by simp
qed

lemma digits10_correct: "digits10 v = length (dec (unat v))"
proof (induction v rule: digits10.induct)
  case (1 v)
  have r: "10 ^ k \<le> unat v \<Longrightarrow> unat v < 10 ^ Suc k \<Longrightarrow> length (dec (unat v)) = Suc k" for k
    by (rule length_dec_range)
  show ?case
  proof (cases "v < 1000000000000")
    case True
    then show ?thesis
      using r[of 0] r[of 1] r[of 2] r[of 3] r[of 4] r[of 5] r[of 6] r[of 7] r[of 8] r[of 9]
        r[of 10] r[of 11]
      by (subst digits10.simps) (auto simp: word_less_nat_alt word_le_nat_alt of_bool_def not_less)
  next
    case False
    then have "digits10 v = 12 + length (dec (unat v div 10 ^ 12))"
      using "1.IH" by (subst digits10.simps)
        (auto simp: word_less_nat_alt word_le_nat_alt unat_div)
    moreover have "10 ^ 12 \<le> unat v" using False by (simp add: word_less_nat_alt)
    ultimately show ?thesis using length_dec_div[of 12 "unat v"] by simp
  qed
qed

lemma digits10_le_20: "digits10 v \<le> 20"
proof -
  have "length (dec (unat v)) \<le> length (dec 18446744073709551615)"
    using unat_u64_lt[of v] by (intro length_dec_mono) linarith
  also have "\<dots> = 20" using length_dec_range[of 19 18446744073709551615] by simp
  finally show ?thesis by (simp add: digits10_correct)
qed

section \<open>Correctness of ull2string and ll2string\<close>

lemma digits_table_nth:
  assumes "k < 100"
  shows "digits_table ! (2 * k) = dig (k div 10)" "digits_table ! Suc (2 * k) = dig (k mod 10)"
proof -
  have "\<forall>k \<in> set [0..<100]. digits_table ! (2 * k) = dig (k div 10) \<and>
          digits_table ! Suc (2 * k) = dig (k mod 10)"
    by code_simp
  then show "digits_table ! (2 * k) = dig (k div 10)" "digits_table ! Suc (2 * k) = dig (k mod 10)"
    using assms by auto
qed

lemma dec_two_digits: "100 \<le> n \<Longrightarrow> dec n = dec (n div 100) @ [dig (n mod 100 div 10), dig (n mod 10)]"
  by (subst dec_large, simp, subst dec_large)
    (auto simp: div_mult2_eq[symmetric] mod_mult2_eq[of n 10 10, simplified] mod_div_trivial)

lemma list_update_pair:
  assumes "Suc k < length xs"
  shows "xs[Suc k := b, k := a] = take k xs @ [a, b] @ drop (Suc (Suc k)) xs"
  using assms
proof (induction xs arbitrary: k)
  case Nil
  then show ?case by simp
next
  case (Cons x xs)
  then show ?case by (cases k; cases xs) auto
qed

lemma ull2string_loop_correct:
  assumes "length (dec (unat val)) = Suc nxt" "nxt < length dst"
  shows "ull2string_loop dst nxt val = dec (unat val) @ drop (Suc nxt) dst"
  using assms
proof (induction dst nxt val rule: ull2string_loop.induct)
  case (1 dst nxt val)
  let ?n = "unat val"
  show ?case
  proof (cases "val \<ge> 100")
    case True
    then have n: "100 \<le> ?n" by (simp add: word_le_nat_alt)
    then have two: "dec ?n = dec (?n div 100) @ [dig (?n mod 100 div 10), dig (?n mod 10)]"
      by (rule dec_two_digits)
    then obtain k where k: "nxt = Suc (Suc k)" "length (dec (?n div 100)) = Suc k"
      using "1.prems"(1) by (cases "dec (?n div 100)") auto
    let ?dst = "dst[nxt := digits_table ! (?n mod 100 * 2 + 1), nxt - 1 := digits_table ! (?n mod 100 * 2)]"
    have "?dst = take (Suc k) dst @ [dig (?n mod 100 div 10), dig (?n mod 10)] @ drop (Suc nxt) dst"
      using list_update_pair[of "Suc k" dst] "1.prems"(2) k(1)
        digits_table_nth[of "?n mod 100"]
      by (simp add: mult.commute mod_mod_cancel)
    moreover have "ull2string_loop ?dst k (val div 100) = dec (?n div 100) @ drop (Suc k) ?dst"
      using "1.IH"[OF True refl] "1.prems"(2) k by (simp add: unat_div unat_mod)
    ultimately show ?thesis using True two k "1.prems"(2)
      by (subst ull2string_loop.simps) (simp add: unat_div unat_mod Let_def)
  next
    case False
    then have n: "?n < 100" by (simp add: word_le_nat_alt)
    show ?thesis
    proof (cases "val < 10")
      case True
      then have "?n < 10" by (simp add: word_less_nat_alt)
      then show ?thesis using True False "1.prems"
        by (subst ull2string_loop.simps)
          (simp add: upd_conv_take_nth_drop dig_def)
    next
      case ge: False
      then have "10 \<le> ?n" by (simp add: word_less_nat_alt)
      then have d: "dec ?n = [dig (?n div 10), dig (?n mod 10)]" using n by (simp add: dec_large)
      then have "nxt = Suc 0" using "1.prems"(1) by simp
      then show ?thesis using ge False "1.prems"(2) d
          list_update_pair[of 0 dst] digits_table_nth[OF n]
        by (subst ull2string_loop.simps) (simp add: Let_def mult.commute)
    qed
  qed
qed

lemma ull2string_correct:
  assumes "dstlen \<le> length dst" "length (dec (unat val)) < dstlen"
  shows "ull2string dst dstlen val =
    (length (dec (unat val)),
     dec (unat val) @ NUL # drop (Suc (length (dec (unat val)))) dst)"
proof -
  let ?l = "length (dec (unat val))"
  obtain m where m: "?l = Suc m" using length_dec_pos[of "unat val"] gr0_conv_Suc by blast
  have "ull2string_loop (dst[?l := NUL]) m val = dec (unat val) @ drop ?l (dst[?l := NUL])"
    using ull2string_loop_correct[OF m] assms m by simp
  also have "drop ?l (dst[?l := NUL]) = NUL # drop (Suc ?l) dst"
    using assms by (simp add: drop_update_swap[symmetric] upd_conv_take_nth_drop)
  finally show ?thesis using assms m
    by (simp add: ull2string_def digits10_correct Let_def)
qed

lemma ull2string_too_small:
  "dstlen \<le> length (dec (unat val)) \<Longrightarrow> fst (ull2string dst dstlen val) = 0"
  by (simp add: ull2string_def digits10_correct)

section \<open>Correctness of string2ll\<close>

lemma sint_of_int_u64: "LLONG_MIN \<le> x \<Longrightarrow> x \<le> LLONG_MAX \<Longrightarrow> sint (of_int x :: u64) = x"
  by (simp add: sint_sbintrunc' signed_take_bit_int_eq_self)

lemma dec_fold_mono: "m \<le> foldl (\<lambda>v c. v * 10 + digit_val c) m s"
proof (induction s arbitrary: m)
  case (Cons c s)
  have "m \<le> m * 10 + digit_val c" by simp
  also have "\<dots> \<le> foldl (\<lambda>v c. v * 10 + digit_val c) (m * 10 + digit_val c) s" by (rule Cons.IH)
  finally show ?case by simp
qed simp

lemma string2ll_loop_step:
  assumes "d < 10"
  shows "v > ULLONG_MAX div 10 \<or> v * 10 > ULLONG_MAX - of_nat d \<longleftrightarrow> \<not> unat v * 10 + d < 2 ^ 64" (is "?L \<longleftrightarrow> ?R")
    and "unat v * 10 + d < 2 ^ 64 \<Longrightarrow> unat (v * 10 + of_nat d) = unat v * 10 + d"
proof -
  have d: "unat (of_nat d :: u64) = d" using assms by (simp add: unat_of_nat)
  have m: "unat (ULLONG_MAX - of_nat d :: u64) = 18446744073709551615 - d"
    using assms by (subst unat_sub) (auto simp: d word_le_nat_alt)
  have q: "unat (ULLONG_MAX div 10 :: u64) = 1844674407370955161" by (simp add: unat_div)
  show "?L \<longleftrightarrow> ?R"
  proof (cases "v > ULLONG_MAX div 10")
    case True
    then have "unat v > 1844674407370955161" by (simp add: word_less_nat_alt q)
    then show ?thesis using True by simp
  next
    case False
    then have "unat v \<le> 1844674407370955161" by (simp add: word_less_nat_alt q)
    then have "unat (v * 10) = unat v * 10" by (simp add: unat_word_ariths)
    then show ?thesis using False assms m by (auto simp: word_less_nat_alt)
  qed
  show "unat (v * 10 + of_nat d) = unat v * 10 + d" if "unat v * 10 + d < 2 ^ 64"
    using that by (simp add: unat_word_ariths d)
qed

lemma string2ll_loop_digits:
  assumes "\<forall>c \<in> set s. is_digit c"
  shows "string2ll_loop v s =
    (let n = foldl (\<lambda>v c. v * 10 + digit_val c) (unat v) s
     in if n < 2 ^ 64 then Some (of_nat n, []) else None)"
  using assms
proof (induction s arbitrary: v)
  case Nil
  then show ?case using unsigned_less[of v] by simp
next
  case (Cons c s)
  have d: "is_digit c" "digit_val c < 10" using Cons.prems by auto
  note step = string2ll_loop_step[OF d(2), of v]
  show ?case
  proof (cases "unat v * 10 + digit_val c < 2 ^ 64")
    case True
    then have "string2ll_loop v (c # s) = string2ll_loop (v * 10 + of_nat (digit_val c)) s"
      using step(1) d by (auto simp: Let_def)
    then show ?thesis using Cons step(2)[OF True] by simp
  next
    case False
    then have "string2ll_loop v (c # s) = None"
      using step(1) d by (auto simp: Let_def)
    moreover have "\<not> foldl (\<lambda>v c. v * 10 + digit_val c) (unat v * 10 + digit_val c) s < 2 ^ 64"
      using False dec_fold_mono[of "unat v * 10 + digit_val c" s] by linarith
    ultimately show ?thesis by (simp add: Let_def)
  qed
qed

lemma string2ll_loop_rest: "string2ll_loop v s = Some (w, []) \<Longrightarrow> \<forall>c \<in> set s. is_digit c"
  by (induction v s rule: string2ll_loop.induct) (auto simp: Let_def split: if_splits)

lemma dec_length_le:
  assumes "n \<le> 9223372036854775808" shows "length (dec n) \<le> 19"
  using length_dec_mono[OF assms] length_dec_range[of 18 9223372036854775808] by simp

lemma string2ll_positive:
  assumes "is_digit c" "c \<noteq> CHR ''0''"
  shows "string2ll_loop (of_nat (digit_val c)) p = Some (w, []) \<longleftrightarrow>
    (\<forall>c \<in> set p. is_digit c) \<and> dec_val (c # p) < 2 ^ 64 \<and> w = of_nat (dec_val (c # p))"
proof -
  have d: "unat (of_nat (digit_val c) :: u64) = digit_val c"
    using digit_val_lt[OF assms(1)] by (simp add: unat_of_nat)
  have "string2ll_loop (of_nat (digit_val c)) p =
     (if dec_val (c # p) < 2 ^ 64 then Some (of_nat (dec_val (c # p)), []) else None)"
    if "\<forall>c \<in> set p. is_digit c"
    using string2ll_loop_digits[OF that, of "of_nat (digit_val c)"] d by (simp add: dec_val_def Let_def)
  then show ?thesis using string2ll_loop_rest[of _ p w] by (auto split: if_splits)
qed
lemma dig_0: "dig 0 = CHR ''0''"
  by code_simp

lemma string2ll_unsigned:
  assumes "p \<noteq> []"
  shows "(is_digit (hd p) \<and> hd p \<noteq> CHR ''0'' \<and>
     string2ll_loop (of_nat (digit_val (hd p))) (tl p) = Some (w, [])) \<longleftrightarrow>
     (\<exists>n. 0 < n \<and> n < 2 ^ 64 \<and> p = dec n \<and> w = of_nat n)" (is "?L \<longleftrightarrow> ?R")
proof
  assume L: ?L
  then have p: "\<forall>c \<in> set p. is_digit c" "dec_val p < 2 ^ 64" "w = of_nat (dec_val p)"
    using assms string2ll_positive[of "hd p" "tl p" w] by (cases p; auto)+
  moreover have "dec (dec_val p) = p \<and> 0 < dec_val p"
    using dec_dec_val[OF assms p(1)] L by (simp add: dig_0)
  ultimately show ?R by metis
next
  assume ?R
  then obtain n where n: "0 < n" "n < 2 ^ 64" "p = dec n" "w = of_nat n" by blast
  have d: "\<forall>c \<in> set p. is_digit c" using n(3) dec_digits by blast
  then have "is_digit (hd p)" using assms by simp
  moreover have "hd p \<noteq> CHR ''0''" using hd_dec_pos[OF n(1)] n(3) by (simp add: dig_0)
  moreover have "hd p # tl p = p" using assms by simp
  moreover have "\<forall>c \<in> set (tl p). is_digit c" using d assms by (metis list.set_sel(2))
  moreover have "dec_val p = n" using n(3) by simp
  ultimately show ?L using string2ll_positive[of "hd p" "tl p" w] n by metis
qed

lemma signed_of_nat_u64:
  assumes "n < 2 ^ 64"
  shows "(of_nat n :: u64) > of_int LLONG_MAX \<longleftrightarrow> n > 9223372036854775807"
    and "(of_nat n :: u64) > of_int (- (LLONG_MIN + 1)) + 1 \<longleftrightarrow> n > 9223372036854775808"
    and "n \<le> 9223372036854775807 \<Longrightarrow> sint (of_nat n :: u64) = int n"
    and "n \<le> 9223372036854775808 \<Longrightarrow> sint (- of_nat n :: u64) = - int n"
proof -
  have n: "unat (of_nat n :: u64) = n" using assms by (simp add: unat_of_nat)
  show "(of_nat n :: u64) > of_int LLONG_MAX \<longleftrightarrow> n > 9223372036854775807"
    and "(of_nat n :: u64) > of_int (- (LLONG_MIN + 1)) + 1 \<longleftrightarrow> n > 9223372036854775808"
    by (simp_all add: word_less_nat_alt n)
  show "sint (of_nat n :: u64) = int n" if "n \<le> 9223372036854775807"
    using sint_of_int_u64[of "int n"] that by simp
  show "sint (- of_nat n :: u64) = - int n" if "n \<le> 9223372036854775808"
    using sint_of_int_u64[of "- int n"] that by simp
qed

lemma string2ll_sound:
  assumes L: "string2ll s = Some x"
  shows "LLONG_MIN \<le> x \<and> x \<le> LLONG_MAX \<and> s = dec_int x"
proof -
  have len: "s \<noteq> []" using L by (auto simp: string2ll_def)
  show ?thesis
  proof (cases "length s = 1 \<and> s ! 0 = CHR ''0''")
    case True
    then have "s = [CHR ''0'']" "x = 0" using L by (auto simp: string2ll_def LONG_STR_SIZE_def length_Suc_conv)
    then show ?thesis by (simp add: dec_int_def dig_0)
  next
    case False
    define p where "p = (if s ! 0 = CHR ''-'' then tl s else s)"
    obtain w where w: "p \<noteq> []" "is_digit (hd p)" "hd p \<noteq> CHR ''0''"
        "string2ll_loop (of_nat (digit_val (hd p))) (tl p) = Some (w, [])"
        "if s ! 0 = CHR ''-'' then \<not> w > of_int (- (LLONG_MIN + 1)) + 1 \<and> x = sint (- w)
         else \<not> w > of_int LLONG_MAX \<and> x = sint w"
      using L False len unfolding string2ll_def p_def[symmetric]
      by (auto simp: Let_def p_def split: if_splits option.splits prod.splits)
    then obtain n where n: "0 < n" "n < 2 ^ 64" "p = dec n" "w = of_nat n"
      using string2ll_unsigned[OF w(1)] by blast
    show ?thesis
    proof (cases "s ! 0 = CHR ''-''")
      case True
      then have "n \<le> 9223372036854775808" "x = - int n"
        using w(5) n(4) signed_of_nat_u64(2,4)[OF n(2)] by auto
      moreover have "s = CHR ''-'' # dec n" using True n(3) len by (cases s) (auto simp: p_def)
      ultimately show ?thesis using n(1) by (simp add: dec_int_def)
    next
      case False
      then have "n \<le> 9223372036854775807" "x = int n"
        using w(5) n(4) signed_of_nat_u64(1,3)[OF n(2)] by auto
      moreover have "s = dec n" using False n(3) by (simp add: p_def)
      ultimately show ?thesis using n(1) by (simp add: dec_int_def)
    qed
  qed
qed

lemma string2ll_complete_pos:
  assumes pos: "0 < x" and R: "x \<le> LLONG_MAX"
  shows "string2ll (dec_int x) = Some x"
proof -
  define s where "s = dec_int x"
  define n where "n = nat x"
  have n: "0 < n" "n < 2 ^ 64" "n \<le> 9223372036854775807" "x = int n" "s = dec n"
    using pos R by (auto simp: n_def s_def dec_int_def)
  have h: "hd s \<noteq> CHR ''-''" "hd s \<noteq> CHR ''0''"
    using n(5) hd_in_set[OF dec_not_Nil[of n]] dec_no_ctrl(3)[of n] hd_dec_pos[OF n(1)]
    by (metis, simp add: dig_0)
  have "s ! 0 = hd s" using n(5) by (simp add: hd_conv_nth)
  moreover have "is_digit (hd s) \<and> hd s \<noteq> CHR ''0'' \<and>
     string2ll_loop (of_nat (digit_val (hd s))) (tl s) = Some (of_nat n, [])"
    using string2ll_unsigned[of s "of_nat n"] n by auto
  moreover have "length s < LONG_STR_SIZE" using n(5) dec_length_le[of n] n(3) by (simp add: LONG_STR_SIZE_def)
  ultimately show ?thesis unfolding s_def[symmetric] using h n signed_of_nat_u64(1,3)[OF n(2)]
    by (simp add: string2ll_def Let_def)
qed

lemma string2ll_complete_neg:
  assumes neg: "x < 0" and R: "LLONG_MIN \<le> x"
  shows "string2ll (dec_int x) = Some x"
proof -
  define s where "s = dec_int x"
  define n where "n = nat (- x)"
  have n: "0 < n" "n < 2 ^ 64" "n \<le> 9223372036854775808" "x = - int n" "s = CHR ''-'' # dec n"
    using neg R by (auto simp: n_def s_def dec_int_def)
  have "is_digit (hd (dec n)) \<and> hd (dec n) \<noteq> CHR ''0'' \<and>
     string2ll_loop (of_nat (digit_val (hd (dec n)))) (tl (dec n)) = Some (of_nat n, [])"
    using string2ll_unsigned[of "dec n" "of_nat n"] n by auto
  moreover have "length s < LONG_STR_SIZE" using n(5) dec_length_le[of n] n(3) by (simp add: LONG_STR_SIZE_def)
  ultimately show ?thesis unfolding s_def[symmetric] using n signed_of_nat_u64(2,4)[OF n(2)]
    by (simp add: string2ll_def Let_def)
qed

lemma string2ll_dec_int:
  assumes "LLONG_MIN \<le> x" "x \<le> LLONG_MAX"
  shows "string2ll (dec_int x) = Some x"
proof (cases "x = 0")
  case True
  then show ?thesis by (simp add: string2ll_def LONG_STR_SIZE_def dec_int_def dig_0)
next
  case False
  then show ?thesis using assms string2ll_complete_pos string2ll_complete_neg by (cases "0 < x") auto
qed

section \<open>Correctness of ll2string\<close>

lemma unat_pos_ll:
  assumes "0 \<le> x" "x \<le> LLONG_MAX"
  shows "unat (of_int x :: u64) = nat x"
  using assms by (simp add: unat_eq_nat_uint uint_word_of_int)

lemma unat_neg_ll:
  assumes "LLONG_MIN \<le> x" "x < 0"
  shows "unat (if x \<noteq> LLONG_MIN then (of_int (- x) :: u64) else of_int LLONG_MAX + 1) = nat (- x)"
proof (cases "x = LLONG_MIN")
  case True
  then show ?thesis by simp
next
  case False
  then show ?thesis using unat_pos_ll[of "- x"] assms by simp
qed

lemma ll2string_eq:
  assumes "LLONG_MIN \<le> x" "x \<le> LLONG_MAX" "dstlen \<le> length dst" "length (dec_int x) < dstlen"
  shows "ll2string dst dstlen x =
    (length (dec_int x), dec_int x @ NUL # drop (Suc (length (dec_int x))) dst)"
proof (cases "x < 0")
  case True
  let ?v = "if x \<noteq> LLONG_MIN then (of_int (- x) :: u64) else of_int LLONG_MAX + 1"
  have v: "unat ?v = nat (- x)" using assms(1) True by (rule unat_neg_ll)
  have d: "dec_int x = CHR ''-'' # dec (nat (- x))" using True by (simp add: dec_int_def)
  have "ull2string (tl dst) (dstlen - 1) ?v =
     (length (dec (unat ?v)), dec (unat ?v) @ NUL # drop (Suc (length (dec (unat ?v)))) (tl dst))"
    using assms d v by (intro ull2string_correct) auto
  then show ?thesis unfolding ll2string_def Let_def
    using True assms(4) d v by (simp add: drop_Suc)
next
  case False
  then have "unat (of_int x :: u64) = nat x" using assms by (intro unat_pos_ll) auto
  moreover have "dec_int x = dec (nat x)" using False by (simp add: dec_int_def)
  ultimately show ?thesis using ull2string_correct[OF assms(3), of "of_int x"] False assms(4)
    by (simp add: ll2string_def)
qed

lemma ll2string_overflow:
  assumes "LLONG_MIN \<le> x" "x \<le> LLONG_MAX" "dstlen \<le> length (dec_int x)"
  shows "fst (ll2string dst dstlen x) = 0"
proof (cases "x < 0")
  case True
  let ?v = "if x \<noteq> LLONG_MIN then (of_int (- x) :: u64) else of_int LLONG_MAX + 1"
  have v: "unat ?v = nat (- x)" using assms(1) True by (rule unat_neg_ll)
  have "fst (ull2string (tl dst) (dstlen - 1) ?v) = 0"
    using assms True v by (intro ull2string_too_small) (simp add: dec_int_def)
  then show ?thesis unfolding ll2string_def Let_def
    using True by (simp add: case_prod_beta)
next
  case False
  then have "unat (of_int x :: u64) = nat x" using assms by (intro unat_pos_ll) auto
  then show ?thesis using ull2string_too_small[of dstlen "of_int x" dst] False assms(3)
    by (simp add: ll2string_def dec_int_def)
qed

lemma length_dec_int:
  assumes "LLONG_MIN \<le> x" "x \<le> LLONG_MAX"
  shows "sdigits10 x = length (dec_int x)" "length (dec_int x) \<le> 20"
proof -
  have n: "x < 0 \<Longrightarrow> unat (if x \<noteq> LLONG_MIN then (of_int (- x) :: u64) else of_int LLONG_MAX + 1) = nat (- x)"
    using assms(1) by (rule unat_neg_ll)
  have p: "\<not> x < 0 \<Longrightarrow> unat (of_int x :: u64) = nat x" using assms by (intro unat_pos_ll) auto
  show "sdigits10 x = length (dec_int x)"
    using n p by (cases "x < 0") (simp_all add: sdigits10_def dec_int_def digits10_correct Let_def split: if_splits)
  show "length (dec_int x) \<le> 20"
    using dec_length_le[of "nat (- x)"] dec_length_le[of "nat x"] assms by (simp add: dec_int_def nat_le_iff)
qed

section \<open>Properties\<close>

text \<open>C16. \<open>string2ll\<close> is exactly the inverse of the decimal notation: it accepts a string
  precisely when the string is the canonical decimal notation of a value in the range of
  \<^verbatim>\<open>long long\<close> (no leading zeroes, no plus sign, no minus zero, no overflow), and then
  returns that value.\<close>

theorem string2ll_iff:
  "string2ll s = Some x \<longleftrightarrow> LLONG_MIN \<le> x \<and> x \<le> LLONG_MAX \<and> s = dec_int x"
  using string2ll_sound string2ll_dec_int by blast

text \<open>C17. For every \<^verbatim>\<open>long long\<close> and every destination buffer, \<open>ll2string\<close> either
  writes the NUL terminated decimal notation, touching nothing behind the terminator, and
  returns its length, which \<open>string2ll\<close> reads back to the same value, or returns 0, and
  it returns 0 exactly when notation and terminator do not fit.\<close>

theorem ll2string_roundtrip:
  assumes "LLONG_MIN \<le> x" "x \<le> LLONG_MAX" "dstlen \<le> length dst"
  shows "case ll2string dst dstlen x of (len, dst') \<Rightarrow>
    if sdigits10 x < dstlen
    then len = sdigits10 x \<and> dst' = take len dst' @ NUL # drop (Suc len) dst \<and>
         string2ll (take len dst') = Some x
    else len = 0"
proof (cases "length (dec_int x) < dstlen")
  case True
  then show ?thesis using ll2string_eq[OF assms] length_dec_int[OF assms(1,2)]
      string2ll_dec_int[OF assms(1,2)] by simp
next
  case False
  then show ?thesis using ll2string_overflow[OF assms(1,2), of dstlen dst] length_dec_int[OF assms(1,2)]
    by (simp add: case_prod_beta)
qed

theorem ll2string_roundtrip_witness:
  "case ll2string (replicate 32 (CHR ''x'')) 32 LLONG_MIN of (len, dst') \<Rightarrow>
     len = 20 \<and> string2ll (take len dst') = Some LLONG_MIN"
proof -
  have "sdigits10 LLONG_MIN = 20"
    using length_dec_int(1)[of LLONG_MIN] length_dec_range[of 18 9223372036854775808]
    by (simp add: dec_int_def)
  then show ?thesis
    using ll2string_roundtrip[of LLONG_MIN 32 "replicate 32 (CHR ''x'')"] by (auto split: prod.splits)
qed
end
