(* ===== verification/Moonquakes.thy ===== *)
theory Moonquakes
  imports Util
begin

text \<open>
  The interface of the Moonquakes machine. Its library is not part of the repository, so the
  \<^verbatim>\<open>mq_*\<close> functions the sources call are the fields of a record, a parameter of every
  definition that uses them. What the sources rely on is the locale \<open>moonquakes\<close>: the
  behaviour of the Lua 5.4 stack interface, stated over a view of a machine state as a stack of
  values and a store of tables. A small machine with exactly these operations interprets the
  locale, so the laws are consistent, and the witnesses run on it.
\<close>

section \<open>Values and the interface\<close>

datatype 'd lval =
    LNil
  | LBool bool
  | LInt int
  | LNum 'd
  | LStr string
  | LTab nat
  | LFun nat

datatype lkey = KInt int | KStr string

datatype mq_Type =
    MQ_TNIL | MQ_TBOOLEAN | MQ_TNUMBER | MQ_TSTRING | MQ_TTABLE | MQ_TFUNCTION

fun lua_type :: "'d lval \<Rightarrow> mq_Type" where
  "lua_type LNil = MQ_TNIL"
| "lua_type (LBool b) = MQ_TBOOLEAN"
| "lua_type (LInt i) = MQ_TNUMBER"
| "lua_type (LNum d) = MQ_TNUMBER"
| "lua_type (LStr s) = MQ_TSTRING"
| "lua_type (LTab r) = MQ_TTABLE"
| "lua_type (LFun f) = MQ_TFUNCTION"

type_synonym 'd ltable = "lkey \<Rightarrow> 'd lval option"

definition tget :: "'d ltable \<Rightarrow> lkey \<Rightarrow> 'd lval" where
  "tget t k = (case t k of None \<Rightarrow> LNil | Some v \<Rightarrow> v)"

text \<open>Storing nil removes the entry.\<close>

definition tset :: "'d ltable \<Rightarrow> lkey \<Rightarrow> 'd lval \<Rightarrow> 'd ltable" where
  "tset t k v = t(k := if v = LNil then None else Some v)"

lemma tget_tset: "tget (tset t k v) k' = (if k' = k then v else tget t k')"
  by (simp add: tget_def tset_def)

record ('L, 'd) mq_api =
  mq_gettop :: "'L \<Rightarrow> int"
  mq_settop :: "'L \<Rightarrow> int \<Rightarrow> 'L"
  mq_pop :: "'L \<Rightarrow> nat \<Rightarrow> 'L"
  mq_pushnil :: "'L \<Rightarrow> 'L"
  mq_pushboolean :: "'L \<Rightarrow> bool \<Rightarrow> 'L"
  mq_pushinteger :: "'L \<Rightarrow> int \<Rightarrow> 'L"
  mq_pushnumber :: "'L \<Rightarrow> 'd \<Rightarrow> 'L"
  mq_pushlstring :: "'L \<Rightarrow> string \<Rightarrow> 'L"
  mq_pushcfunction :: "'L \<Rightarrow> nat \<Rightarrow> 'L"
  mq_newtable :: "'L \<Rightarrow> 'L"
  mq_seti :: "'L \<Rightarrow> int \<Rightarrow> int \<Rightarrow> 'L"
  mq_setfield :: "'L \<Rightarrow> int \<Rightarrow> string \<Rightarrow> 'L"
  mq_setglobal :: "'L \<Rightarrow> string \<Rightarrow> 'L"
  mq_geti :: "'L \<Rightarrow> int \<Rightarrow> int \<Rightarrow> 'L"
  mq_len :: "'L \<Rightarrow> int \<Rightarrow> 'L"
  mq_type :: "'L \<Rightarrow> int \<Rightarrow> mq_Type"
  mq_typename :: "'L \<Rightarrow> mq_Type \<Rightarrow> string"
  mq_toboolean :: "'L \<Rightarrow> int \<Rightarrow> bool"
  mq_isinteger :: "'L \<Rightarrow> int \<Rightarrow> bool"
  mq_tointegerx :: "'L \<Rightarrow> int \<Rightarrow> int \<times> bool"
  mq_tonumber :: "'L \<Rightarrow> int \<Rightarrow> 'd"
  mq_tolstring :: "'L \<Rightarrow> int \<Rightarrow> string option \<times> 'L"

text \<open>\<^verbatim>\<open>mq_pushstring\<close> pushes the C string at the address.\<close>

definition mq_pushstring :: "('L, 'd) mq_api \<Rightarrow> 'L \<Rightarrow> string \<Rightarrow> 'L" where
  "mq_pushstring api L s = mq_pushlstring api L (c_str s)"

section \<open>The laws\<close>

locale moonquakes =
  fixes api :: "('L, 'd) mq_api"
    and stk :: "'L \<Rightarrow> 'd lval list"
    and tbl :: "'L \<Rightarrow> nat \<Rightarrow> 'd ltable option"
  assumes gettop: "mq_gettop api L = int (length (stk L))"
    and settop: "j \<le> length (stk L) \<Longrightarrow> stk (mq_settop api L (int j)) = take j (stk L)"
    and pop: "j \<le> length (stk L) \<Longrightarrow> stk (mq_pop api L j) = take (length (stk L) - j) (stk L)"
    and pop_tbl: "tbl (mq_pop api L j) = tbl L"
    and pushnil: "stk (mq_pushnil api L) = stk L @ [LNil]" "tbl (mq_pushnil api L) = tbl L"
    and pushboolean: "stk (mq_pushboolean api L b) = stk L @ [LBool b]" "tbl (mq_pushboolean api L b) = tbl L"
    and pushinteger: "stk (mq_pushinteger api L i) = stk L @ [LInt i]" "tbl (mq_pushinteger api L i) = tbl L"
    and pushnumber: "stk (mq_pushnumber api L d) = stk L @ [LNum d]" "tbl (mq_pushnumber api L d) = tbl L"
    and pushlstring: "stk (mq_pushlstring api L s) = stk L @ [LStr s]" "tbl (mq_pushlstring api L s) = tbl L"
    and newtable: "\<exists>r. tbl L r = None \<and> stk (mq_newtable api L) = stk L @ [LTab r] \<and>
        tbl (mq_newtable api L) = (tbl L)(r := Some (\<lambda>k. None))"
    and seti: "stk L = xs @ [LTab r, v] \<Longrightarrow> tbl L r = Some t \<Longrightarrow>
        stk (mq_seti api L (- 2) i) = xs @ [LTab r] \<and>
        tbl (mq_seti api L (- 2) i) = (tbl L)(r := Some (tset t (KInt i) v))"
    and setfield: "stk L = xs @ [LTab r, v] \<Longrightarrow> tbl L r = Some t \<Longrightarrow>
        stk (mq_setfield api L (- 2) k) = xs @ [LTab r] \<and>
        tbl (mq_setfield api L (- 2) k) = (tbl L)(r := Some (tset t (KStr k) v))"
    and geti: "stk L = xs @ [LTab r] \<Longrightarrow> tbl L r = Some t \<Longrightarrow>
        stk (mq_geti api L (- 1) i) = stk L @ [tget t (KInt i)] \<and> tbl (mq_geti api L (- 1) i) = tbl L"
    and len: "stk L = xs @ [LTab r] \<Longrightarrow> tbl L r = Some t \<Longrightarrow>
        \<exists>n. stk (mq_len api L (- 1)) = stk L @ [LInt (int n)] \<and> tbl (mq_len api L (- 1)) = tbl L \<and>
          (n > 0 \<longrightarrow> tget t (KInt (int n)) \<noteq> LNil) \<and> tget t (KInt (int n + 1)) = LNil"
    and type: "stk L = xs @ [v] \<Longrightarrow> mq_type api L (- 1) = lua_type v"
    and toboolean: "stk L = xs @ [LBool b] \<Longrightarrow> mq_toboolean api L (- 1) = b"
    and isinteger: "stk L = xs @ [v] \<Longrightarrow> mq_isinteger api L (- 1) = (\<exists>i. v = LInt i)"
    and tointegerx: "stk L = xs @ [LInt i] \<Longrightarrow> mq_tointegerx api L (- 1) = (i, True)"
    and tonumber: "stk L = xs @ [LNum d] \<Longrightarrow> mq_tonumber api L (- 1) = d"
    and tolstring: "stk L = xs @ LStr s # ys \<Longrightarrow>
        mq_tolstring api L (int (length xs) + 1) = (Some s, L) \<and>
        mq_tolstring api L (- 1 - int (length ys)) = (Some s, L)"
begin

lemmas push_simps = pushnil pushboolean pushinteger pushnumber pushlstring

lemma pushstring: "stk (mq_pushstring api L s) = stk L @ [LStr (c_str s)]" "tbl (mq_pushstring api L s) = tbl L"
  by (simp_all add: mq_pushstring_def pushlstring)

end

section \<open>A machine that satisfies them\<close>

text \<open>Tables are association lists; the index of a table in \<open>m_tabs\<close> is its reference.\<close>

record 'd machine =
  m_stack :: "'d lval list"
  m_tabs :: "(lkey \<times> 'd lval) list list"
  m_globals :: "(string \<times> 'd lval) list"

definition m_index :: "'d machine \<Rightarrow> int \<Rightarrow> nat" where
  "m_index L i = (if i < 0 then nat (int (length (m_stack L)) + i) else nat (i - 1))"

definition m_at :: "'d machine \<Rightarrow> int \<Rightarrow> 'd lval" where
  "m_at L i = (if m_index L i < length (m_stack L) then m_stack L ! m_index L i else LNil)"

definition m_push :: "'d machine \<Rightarrow> 'd lval \<Rightarrow> 'd machine" where
  "m_push L v = L\<lparr>m_stack := m_stack L @ [v]\<rparr>"

definition m_tbl :: "'d machine \<Rightarrow> nat \<Rightarrow> 'd ltable option" where
  "m_tbl L r = (if r < length (m_tabs L) then Some (map_of (m_tabs L ! r)) else None)"

definition a_set :: "(lkey \<times> 'd lval) list \<Rightarrow> lkey \<Rightarrow> 'd lval \<Rightarrow> (lkey \<times> 'd lval) list" where
  "a_set al k v = (if v = LNil then [] else [(k, v)]) @ filter (\<lambda>e. fst e \<noteq> k) al"

definition m_set :: "'d machine \<Rightarrow> int \<Rightarrow> lkey \<Rightarrow> 'd machine" where
  "m_set L i k =
    (case m_at L i of
       LTab r \<Rightarrow> L\<lparr>m_stack := butlast (m_stack L),
                  m_tabs := (m_tabs L)[r := a_set (m_tabs L ! r) k (last (m_stack L))]\<rparr>
     | _ \<Rightarrow> L)"

text \<open>The first border of a table, found by counting up.\<close>

fun border_from :: "nat \<Rightarrow> nat \<Rightarrow> 'd ltable \<Rightarrow> nat" where
  "border_from 0 n t = n"
| "border_from (Suc f) n t = (if tget t (KInt (int n + 1)) = LNil then n else border_from f (Suc n) t)"

definition m_len :: "'d machine \<Rightarrow> int \<Rightarrow> 'd machine" where
  "m_len L i =
    (case m_at L i of
       LTab r \<Rightarrow> m_push L (LInt (int (border_from (Suc (length (m_tabs L ! r))) 0 (map_of (m_tabs L ! r)))))
     | LStr s \<Rightarrow> m_push L (LInt (int (length s)))
     | _ \<Rightarrow> m_push L LNil)"

definition m_geti :: "'d machine \<Rightarrow> int \<Rightarrow> int \<Rightarrow> 'd machine" where
  "m_geti L i j =
    (case m_at L i of LTab r \<Rightarrow> m_push L (tget (map_of (m_tabs L ! r)) (KInt j)) | _ \<Rightarrow> m_push L LNil)"

definition m_typename :: "mq_Type \<Rightarrow> string" where
  "m_typename t =
    (case t of MQ_TNIL \<Rightarrow> ''nil'' | MQ_TBOOLEAN \<Rightarrow> ''boolean'' | MQ_TNUMBER \<Rightarrow> ''number''
     | MQ_TSTRING \<Rightarrow> ''string'' | MQ_TTABLE \<Rightarrow> ''table'' | MQ_TFUNCTION \<Rightarrow> ''function'')"

definition machine_api :: "('d::zero machine, 'd) mq_api" where
  "machine_api = \<lparr>
     mq_gettop = (\<lambda>L. int (length (m_stack L))),
     mq_settop = (\<lambda>L n. L\<lparr>m_stack := take (nat n) (m_stack L)\<rparr>),
     mq_pop = (\<lambda>L n. L\<lparr>m_stack := take (length (m_stack L) - n) (m_stack L)\<rparr>),
     mq_pushnil = (\<lambda>L. m_push L LNil),
     mq_pushboolean = (\<lambda>L b. m_push L (LBool b)),
     mq_pushinteger = (\<lambda>L i. m_push L (LInt i)),
     mq_pushnumber = (\<lambda>L d. m_push L (LNum d)),
     mq_pushlstring = (\<lambda>L s. m_push L (LStr s)),
     mq_pushcfunction = (\<lambda>L f. m_push L (LFun f)),
     mq_newtable = (\<lambda>L. m_push (L\<lparr>m_tabs := m_tabs L @ [[]]\<rparr>) (LTab (length (m_tabs L)))),
     mq_seti = (\<lambda>L i j. m_set L i (KInt j)),
     mq_setfield = (\<lambda>L i k. m_set L i (KStr k)),
     mq_setglobal = (\<lambda>L k. L\<lparr>m_stack := butlast (m_stack L), m_globals := (k, last (m_stack L)) # m_globals L\<rparr>),
     mq_geti = m_geti,
     mq_len = m_len,
     mq_type = (\<lambda>L i. lua_type (m_at L i)),
     mq_typename = (\<lambda>L t. m_typename t),
     mq_toboolean = (\<lambda>L i. case m_at L i of LNil \<Rightarrow> False | LBool b \<Rightarrow> b | _ \<Rightarrow> True),
     mq_isinteger = (\<lambda>L i. case m_at L i of LInt j \<Rightarrow> True | _ \<Rightarrow> False),
     mq_tointegerx = (\<lambda>L i. case m_at L i of LInt j \<Rightarrow> (j, True) | _ \<Rightarrow> (0, False)),
     mq_tonumber = (\<lambda>L i. case m_at L i of LNum d \<Rightarrow> d | _ \<Rightarrow> 0),
     mq_tolstring = (\<lambda>L i. case m_at L i of LStr s \<Rightarrow> (Some s, L) | _ \<Rightarrow> (None, L))\<rparr>"

lemma m_at_last [simp]: "m_stack L = xs @ [v] \<Longrightarrow> m_at L (- 1) = v"
  by (simp add: m_at_def m_index_def nth_append)

lemma m_at_snd [simp]: "m_stack L = xs @ [u, v] \<Longrightarrow> m_at L (- 2) = u"
  by (simp add: m_at_def m_index_def nth_append)

lemma m_at_pos: "m_stack L = xs @ v # ys \<Longrightarrow> m_at L (int (length xs) + 1) = v"
  by (simp add: m_at_def m_index_def nth_append)

lemma m_at_neg: "m_stack L = xs @ v # ys \<Longrightarrow> m_at L (- 1 - int (length ys)) = v"
  by (simp add: m_at_def m_index_def nth_append)

lemma map_of_a_set: "map_of (a_set al k v) = tset (map_of al) k v"
proof -
  have "map_of (filter (\<lambda>e. fst e \<noteq> k) al) = (map_of al)(k := None)" by (induction al) auto
  then show ?thesis by (simp add: a_set_def tset_def)
qed

text \<open>Counting up stops at a border as soon as the fuel exceeds the number of positive integer
  keys.\<close>

lemma border_from_spec:
  assumes "finite {i. n < i \<and> tget t (KInt (int i)) \<noteq> LNil}"
    "card {i. n < i \<and> tget t (KInt (int i)) \<noteq> LNil} < f"
    "n > 0 \<longrightarrow> tget t (KInt (int n)) \<noteq> LNil"
  shows "(border_from f n t > 0 \<longrightarrow> tget t (KInt (int (border_from f n t))) \<noteq> LNil) \<and>
    tget t (KInt (int (border_from f n t) + 1)) = LNil"
  using assms
proof (induction f n t rule: border_from.induct)
  case (2 f n t)
  let ?S = "\<lambda>n. {i. n < i \<and> tget t (KInt (int i)) \<noteq> LNil}"
  show ?case
  proof (cases "tget t (KInt (int n + 1)) = LNil")
    case True
    then show ?thesis using "2.prems"(3) by simp
  next
    case False
    then have "?S n = insert (Suc n) (?S (Suc n))"
      by (auto simp: less_Suc_eq_le add.commute)
    moreover have "Suc n \<notin> ?S (Suc n)" by simp
    ultimately have "finite (?S (Suc n))" "card (?S (Suc n)) < f"
      using "2.prems"(1,2) by (simp_all add: card_insert_if)
    then show ?thesis using "2.IH" False by (simp add: add.commute)
  qed
qed simp

lemma alist_keys_bound:
  "finite {i. 0 < i \<and> tget (map_of al) (KInt (int i)) \<noteq> LNil}"
  "card {i :: nat. 0 < i \<and> tget (map_of al) (KInt (int i)) \<noteq> LNil} \<le> length al"
proof -
  let ?S = "{i :: nat. 0 < i \<and> tget (map_of al) (KInt (int i)) \<noteq> LNil}"
  have "(\<lambda>i. KInt (int i)) ` ?S \<subseteq> fst ` set al"
    by (force simp: tget_def dest: map_of_SomeD split: option.splits)
  moreover have "inj_on (\<lambda>i. KInt (int i)) ?S" by (simp add: inj_on_def)
  ultimately show "finite ?S" "card ?S \<le> length al"
    using inj_on_finite[of "\<lambda>i. KInt (int i)" ?S "fst ` set al"]
      card_inj_on_le[of "\<lambda>i. KInt (int i)" ?S "fst ` set al"]
      card_image_le[of "set al" fst] card_length[of al]
    by (auto dest: order_trans)
qed

lemma machine_border:
  "let n = border_from (Suc (length al)) 0 (map_of al)
   in (n > 0 \<longrightarrow> tget (map_of al) (KInt (int n)) \<noteq> LNil) \<and> tget (map_of al) (KInt (int n + 1)) = LNil"
  unfolding Let_def using alist_keys_bound[of al]
  by (intro border_from_spec) (auto simp: less_Suc_eq_le)

lemma m_tbl_append: "m_tbl (L\<lparr>m_tabs := m_tabs L @ [[]]\<rparr>) = (m_tbl L)(length (m_tabs L) := Some (\<lambda>k. None))"
  by (auto simp: m_tbl_def nth_append fun_eq_iff)

lemma m_push_simps [simp]:
  "m_stack (m_push L v) = m_stack L @ [v]" "m_tbl (m_push L v) = m_tbl L"
  by (simp_all add: m_push_def m_tbl_def fun_eq_iff)

lemma m_set_spec:
  assumes "m_stack L = xs @ [LTab r, v]" "m_tbl L r = Some t"
  shows "m_stack (m_set L (- 2) k) = xs @ [LTab r] \<and> m_tbl (m_set L (- 2) k) = (m_tbl L)(r := Some (tset t k v))"
proof -
  have "m_set L (- 2) k = L\<lparr>m_stack := xs @ [LTab r], m_tabs := (m_tabs L)[r := a_set (m_tabs L ! r) k v]\<rparr>"
    using assms(1) by (simp add: m_set_def butlast_append)
  moreover have r: "r < length (m_tabs L)" "t = map_of (m_tabs L ! r)"
    using assms(2) by (auto simp: m_tbl_def split: if_splits)
  moreover have "m_tbl (L\<lparr>m_stack := xs @ [LTab r], m_tabs := (m_tabs L)[r := a_set (m_tabs L ! r) k v]\<rparr>) =
      (m_tbl L)(r := Some (tset t k v))"
    by (rule ext) (use r in \<open>simp add: m_tbl_def map_of_a_set\<close>)
  ultimately show ?thesis by simp
qed

interpretation mq_machine: moonquakes machine_api m_stack m_tbl
proof (unfold_locales, goal_cases)
  case (15 L)
  show ?case by (intro exI[of _ "length (m_tabs L)"])
      (simp add: machine_api_def m_tbl_append, simp add: m_tbl_def)
next
  case (16 L xs r v t i)
  then show ?case using m_set_spec by (simp add: machine_api_def)
next
  case (17 L xs r v t k)
  then show ?case using m_set_spec by (simp add: machine_api_def)
next
  case (19 L xs r t)
  then have t: "t = map_of (m_tabs L ! r)" by (auto simp: m_tbl_def split: if_splits)
  show ?case using 19(1) machine_border[of "m_tabs L ! r"]
    by (intro exI[of _ "border_from (Suc (length (m_tabs L ! r))) 0 (map_of (m_tabs L ! r))"])
      (simp add: machine_api_def m_len_def t Let_def)
next
  case (18 L xs r t i)
  then have "t = map_of (m_tabs L ! r)" by (auto simp: m_tbl_def split: if_splits)
  then show ?case using 18 by (simp add: machine_api_def m_geti_def)
next
  case (22 L xs v)
  then show ?case by (cases v) (simp_all add: machine_api_def)
next
  case (25 L xs s ys)
  then show ?case using m_at_pos[OF 25] m_at_neg[OF 25] by (simp add: machine_api_def)
qed (simp_all add: machine_api_def m_tbl_def fun_eq_iff)

end
