(* ===== verification/RaincallReply.thy ===== *)
theory RaincallReply
  imports Util
begin

text \<open>
  The reply values both backends hand to \<open>RAIN.CALL\<close> (\<open>raincall_Reply\<close> of
  \<^verbatim>\<open>src/utils/raincall/raincall.h\<close>), their release, and the conversion of hiredis replies.
  Memory is a ledger: it counts the live blocks of the two allocators (libc and zmalloc) and
  asks an oracle \<open>grant\<close> whether the next allocation succeeds, so that every out-of-memory
  path of the C code is a path of the model. A step that would dereference a NULL pointer or
  index behind an array has no result (None).
\<close>

section \<open>The allocation ledger\<close>

datatype allocator = Libc | Zmalloc

record heap =
  hp_live :: "allocator \<Rightarrow> int"
  hp_calls :: nat

definition alloc :: "(nat \<Rightarrow> bool) \<Rightarrow> allocator \<Rightarrow> heap \<Rightarrow> bool \<times> heap" where
  "alloc grant k h =
    (let h' = h\<lparr>hp_calls := Suc (hp_calls h)\<rparr>
     in if grant (hp_calls h) then (True, h'\<lparr>hp_live := (hp_live h)(k := hp_live h k + 1)\<rparr>)
        else (False, h'))"

definition release :: "allocator \<Rightarrow> heap \<Rightarrow> heap" where
  "release k h = h\<lparr>hp_live := (hp_live h)(k := hp_live h k - 1)\<rparr>"

text \<open>Freeing a pointer that may be NULL.\<close>

definition release_ptr :: "allocator \<Rightarrow> bool \<Rightarrow> heap \<Rightarrow> heap" where
  "release_ptr k nonnull h = (if nonnull then release k h else h)"

section \<open>Replies\<close>

datatype raincall_ReplyType =
    RAINCALL_REPLY_STATUS | RAINCALL_REPLY_STRING | RAINCALL_REPLY_INTEGER | RAINCALL_REPLY_NIL
  | RAINCALL_REPLY_ARRAY | RAINCALL_REPLY_ERROR | RAINCALL_REPLY_DOUBLE | RAINCALL_REPLY_BOOL
  | RAINCALL_REPLY_MAP | RAINCALL_REPLY_SET | RAINCALL_REPLY_ATTR | RAINCALL_REPLY_PUSH
  | RAINCALL_REPLY_VERB | RAINCALL_REPLY_BIGNUM

text \<open>\<open>rr_free\<close> is the function pointer \<^verbatim>\<open>free_alloc\<close>: None is NULL, which stands for libc's
  \<^verbatim>\<open>free\<close>. \<open>rr_element\<close> is the element array, whose entries may be NULL.\<close>

datatype 'd raincall_Reply =
  Reply (rr_type: raincall_ReplyType) (rr_str: "string option") (rr_len: nat) (rr_integer: int)
    (rr_number: 'd) (rr_elements: nat) (rr_element: "'d raincall_Reply option list option")
    (rr_free: "allocator option")

definition raincall_reply_new ::
  "(nat \<Rightarrow> bool) \<Rightarrow> raincall_ReplyType \<Rightarrow> heap \<Rightarrow> 'd::zero raincall_Reply option \<times> heap" where
  "raincall_reply_new grant ty h =
    (case alloc grant Libc h of
       (ok, h) \<Rightarrow> (if ok then Some (Reply ty None 0 0 0 0 None None) else None, h))"

definition free_alloc_of :: "'d raincall_Reply \<Rightarrow> allocator" where
  "free_alloc_of r = (case rr_free r of None \<Rightarrow> Libc | Some k \<Rightarrow> k)"

fun raincall_reply_free :: "'d raincall_Reply option \<Rightarrow> heap \<Rightarrow> heap option"
and free_elements :: "nat \<Rightarrow> 'd raincall_Reply option list \<Rightarrow> heap \<Rightarrow> heap option" where
  "raincall_reply_free None h = Some h"
| "raincall_reply_free (Some (Reply ty str len i d n es fr)) h =
    (let k = (case fr of None \<Rightarrow> Libc | Some k \<Rightarrow> k)
     in case (case es of None \<Rightarrow> if n = 0 then Some h else None | Some l \<Rightarrow> free_elements n l h) of
          None \<Rightarrow> None
        | Some h \<Rightarrow>
            Some (release k (release_ptr k (str \<noteq> None) (release_ptr k (es \<noteq> None) h))))"
| "free_elements 0 es h = Some h"
| "free_elements (Suc n) [] h = None"
| "free_elements (Suc n) (e # es) h =
    (case raincall_reply_free e h of None \<Rightarrow> None | Some h \<Rightarrow> free_elements n es h)"

section \<open>Conversion of hiredis replies\<close>

text \<open>\<open>redisReply\<close> of \<^verbatim>\<open>src/deps/hiredis/hiredis.h\<close>; a NULL \<^verbatim>\<open>str\<close> is None, and a string holds
  at least \<^verbatim>\<open>len\<close> bytes.\<close>

datatype 'd redisReply =
  RedisReply (hr_type: int) (hr_integer: int) (hr_dval: 'd) (hr_len: nat) (hr_str: "string option")
    (hr_elements: nat) (hr_element: "'d redisReply option list")

definition raincall_reply_type_from_hiredis :: "int \<Rightarrow> raincall_ReplyType" where
  "raincall_reply_type_from_hiredis ty =
    (if ty = 5 then RAINCALL_REPLY_STATUS
     else if ty = 1 then RAINCALL_REPLY_STRING
     else if ty = 3 then RAINCALL_REPLY_INTEGER
     else if ty = 4 then RAINCALL_REPLY_NIL
     else if ty = 2 then RAINCALL_REPLY_ARRAY
     else if ty = 6 then RAINCALL_REPLY_ERROR
     else if ty = 7 then RAINCALL_REPLY_DOUBLE
     else if ty = 8 then RAINCALL_REPLY_BOOL
     else if ty = 9 then RAINCALL_REPLY_MAP
     else if ty = 10 then RAINCALL_REPLY_SET
     else if ty = 11 then RAINCALL_REPLY_ATTR
     else if ty = 12 then RAINCALL_REPLY_PUSH
     else if ty = 14 then RAINCALL_REPLY_VERB
     else if ty = 13 then RAINCALL_REPLY_BIGNUM
     else RAINCALL_REPLY_ERROR)"

text \<open>Releasing the half built reply and returning NULL.\<close>

definition free_and_null ::
  "'d raincall_Reply \<Rightarrow> heap \<Rightarrow> ('d raincall_Reply option \<times> heap) option" where
  "free_and_null r h =
    (case raincall_reply_free (Some r) h of None \<Rightarrow> None | Some h \<Rightarrow> Some (None, h))"

text \<open>The loop over the elements returns the children built so far and whether all of them were
  built; a failing child ends it.\<close>

fun raincall_reply_from_hiredis ::
  "(nat \<Rightarrow> bool) \<Rightarrow> 'd::zero redisReply option \<Rightarrow> heap \<Rightarrow> ('d raincall_Reply option \<times> heap) option"
and elements_from_hiredis ::
  "(nat \<Rightarrow> bool) \<Rightarrow> nat \<Rightarrow> 'd::zero redisReply option list \<Rightarrow> heap \<Rightarrow>
   (bool \<times> 'd raincall_Reply list \<times> heap) option" where
  "raincall_reply_from_hiredis grant None h = Some (None, h)"
| "raincall_reply_from_hiredis grant (Some (RedisReply ty i d len s n es)) h =
    (case (raincall_reply_new grant (raincall_reply_type_from_hiredis ty) h ::
             'd raincall_Reply option \<times> heap) of
       (None, h) \<Rightarrow> Some (None, h)
     | (Some r, h) \<Rightarrow>
         (let dty = rr_type r;
              copy = s \<noteq> None \<and> len > 0;
              (ok1, h) = (if copy then alloc grant Libc h else (True, h));
              str = (if copy then Some (take len (the s)) else None);
              dlen = (if copy then len else 0)
          in if copy \<and> length (the s) < len then None
             else if \<not> ok1 then free_and_null (Reply dty None 0 i d 0 None None) h
             else if n = 0 then Some (Some (Reply dty str dlen i d 0 None None), h)
             else
               (case alloc grant Libc h of
                  (False, h) \<Rightarrow> free_and_null (Reply dty str dlen i d 0 None None) h
                | (True, h) \<Rightarrow>
                    (case elements_from_hiredis grant n es h of
                       None \<Rightarrow> None
                     | Some (ok, children, h) \<Rightarrow>
                         let element = map Some children @ replicate (n - length children) None;
                             dst = Reply dty str dlen i d n (Some element) None
                         in if ok then Some (Some dst, h) else free_and_null dst h))))"
| "elements_from_hiredis grant 0 es h = Some (True, [], h)"
| "elements_from_hiredis grant (Suc n) [] h = None"
| "elements_from_hiredis grant (Suc n) (e # es) h =
    (case raincall_reply_from_hiredis grant e h of
       None \<Rightarrow> None
     | Some (None, h) \<Rightarrow> Some (False, [], h)
     | Some (Some r, h) \<Rightarrow>
         (case elements_from_hiredis grant n es h of
            None \<Rightarrow> None
          | Some (ok, rs, h) \<Rightarrow> Some (ok, r # rs, h)))"

section \<open>What a reply owns\<close>

text \<open>The number of blocks of a reply: the node, its string, its element array, its children.\<close>

fun reply_blocks :: "'d raincall_Reply \<Rightarrow> int"
and children_blocks :: "'d raincall_Reply option list \<Rightarrow> int" where
  "reply_blocks (Reply ty str len i d n es fr) =
     1 + (if str \<noteq> None then 1 else 0) +
     (case es of None \<Rightarrow> 0 | Some l \<Rightarrow> 1 + children_blocks l)"
| "children_blocks [] = 0"
| "children_blocks (None # es) = children_blocks es"
| "children_blocks (Some r # es) = reply_blocks r + children_blocks es"

text \<open>A reply all of whose nodes come from one allocator and whose element counts match the
  arrays.\<close>

fun wf_reply :: "allocator \<Rightarrow> 'd raincall_Reply \<Rightarrow> bool"
and wf_children :: "allocator \<Rightarrow> 'd raincall_Reply option list \<Rightarrow> bool" where
  "wf_reply k (Reply ty str len i d n es fr) \<longleftrightarrow>
     (case fr of None \<Rightarrow> Libc | Some k \<Rightarrow> k) = k \<and>
     (case str of None \<Rightarrow> len = 0 | Some s \<Rightarrow> length s = len) \<and>
     (case es of None \<Rightarrow> n = 0 | Some l \<Rightarrow> length l = n \<and> wf_children k l)"
| "wf_children k [] = True"
| "wf_children k (None # es) = wf_children k es"
| "wf_children k (Some r # es) = (wf_reply k r \<and> wf_children k es)"

definition lower :: "allocator \<Rightarrow> int \<Rightarrow> heap \<Rightarrow> heap" where
  "lower k n h = h\<lparr>hp_live := (hp_live h)(k := hp_live h k - n)\<rparr>"

lemma lower_simps [simp]:
  "lower k 0 h = h" "release k h = lower k 1 h" "lower k a (lower k b h) = lower k (a + b) h"
  "release_ptr k nn h = lower k (if nn then 1 else 0) h"
  by (simp_all add: lower_def release_def release_ptr_def algebra_simps)

lemma free_wf:
  fixes r :: "'d raincall_Reply" and es :: "'d raincall_Reply option list"
  shows "wf_reply k r \<Longrightarrow> raincall_reply_free (Some r) h = Some (lower k (reply_blocks r) h)"
    "wf_children k es \<Longrightarrow> free_elements (length es) es h = Some (lower k (children_blocks es) h)"
proof (induction r and es arbitrary: h and h rule: reply_blocks_children_blocks.induct)
  case (1 ty str len i d n es fr)
  then show ?case by (cases es) (auto simp: algebra_simps)
qed (auto simp: algebra_simps)

definition raised :: "allocator \<Rightarrow> int \<Rightarrow> heap \<Rightarrow> heap \<Rightarrow> bool" where
  "raised k n h h' \<longleftrightarrow> hp_live h' = (hp_live h)(k := hp_live h k + n)"

lemma raised_refl [simp]: "raised k 0 h h"
  by (simp add: raised_def)

lemma raised_trans: "raised k a h h1 \<Longrightarrow> raised k b h1 h2 \<Longrightarrow> raised k (a + b) h h2"
  by (simp add: raised_def add.assoc)

lemma raised_lower: "raised k a h h1 \<Longrightarrow> raised k (a - b) h (lower k b h1)"
  by (simp add: raised_def lower_def algebra_simps)

lemma alloc_raised: "alloc grant k h = (ok, h') \<Longrightarrow> raised k (if ok then 1 else 0) h h'"
  by (auto simp: alloc_def Let_def raised_def split: if_splits)

lemma free_and_null_wf:
  assumes "wf_reply k r" "raised k (reply_blocks r) h0 h" "free_and_null r h = Some (res, h')"
  shows "res = None \<and> raised k 0 h0 h'"
  using assms raised_lower[OF assms(2), of "reply_blocks r"]
  by (auto simp: free_and_null_def free_wf)

lemma wf_children_map: "wf_children k (map Some rs @ replicate n None) = wf_children k (map Some rs)"
  by (induction rs) (induction n, auto)

lemma children_blocks_map:
  "children_blocks (map Some rs @ replicate n None) = children_blocks (map Some rs)"
  by (induction rs) (induction n, auto)

section \<open>What the conversion produces\<close>

fun hiredis_image :: "'d redisReply \<Rightarrow> 'd raincall_Reply" where
  "hiredis_image (RedisReply ty i d len s n es) =
    (let copy = s \<noteq> None \<and> len > 0
     in Reply (raincall_reply_type_from_hiredis ty) (if copy then Some (take len (the s)) else None)
          (if copy then len else 0) i d n
          (if n = 0 then None else Some (take n (map (map_option hiredis_image) es))) None)"

text \<open>A reply as hiredis builds it: strings as long as announced, every element present.\<close>

fun wf_hiredis :: "'d redisReply \<Rightarrow> bool" where
  "wf_hiredis (RedisReply ty i d len s n es) \<longleftrightarrow>
     (s \<noteq> None \<longrightarrow> len \<le> length (the s)) \<and> n = length es \<and>
     list_all (\<lambda>e. case e of None \<Rightarrow> False | Some r \<Rightarrow> wf_hiredis r) es"

text \<open>The conversion of one node once the outcomes of its three allocations are known.\<close>

lemma from_hiredis_run:
  fixes es :: "'d::zero redisReply option list"
  assumes "alloc grant Libc h = (True, h0)"
    "(if copy then alloc grant Libc h0 else (True, h0)) = (ok1, h1)" "alloc grant Libc h1 = (ok2, h2)"
    "copy = (s \<noteq> None \<and> len > 0)" "str = (if copy then Some (take len (the s)) else None)"
    "dlen = (if copy then len else 0)" "t = raincall_reply_type_from_hiredis ty"
  shows "raincall_reply_from_hiredis grant (Some (RedisReply ty i d len s n es)) h =
    (if copy \<and> length (the s) < len then None
     else if \<not> ok1 then free_and_null (Reply t None 0 i d 0 None None) h1
     else if n = 0 then Some (Some (Reply t str dlen i d 0 None None), h1)
     else if \<not> ok2 then free_and_null (Reply t str dlen i d 0 None None) h2
     else case elements_from_hiredis grant n es h2 of
        None \<Rightarrow> None
      | Some (ok, children, h) \<Rightarrow>
          let dst = Reply t str dlen i d n (Some (map Some children @ replicate (n - length children) None)) None
          in if ok then Some (Some dst, h) else free_and_null dst h)"
  using assms(1-3) unfolding raincall_reply_from_hiredis.simps raincall_reply_new_def assms(4)[symmetric]
  by (cases ok2) (simp_all add: assms(5-7) Let_def split: option.split)

lemma from_hiredis_ledger:
  fixes src :: "'d::zero redisReply option" and es :: "'d redisReply option list"
    and res :: "'d raincall_Reply option" and rs :: "'d raincall_Reply list"
  shows "raincall_reply_from_hiredis grant src h = Some (res, h') \<Longrightarrow>
     (case res of None \<Rightarrow> raised Libc 0 h h' | Some r \<Rightarrow> wf_reply Libc r \<and> raised Libc (reply_blocks r) h h' \<and>
       src \<noteq> None \<and> r = hiredis_image (the src))"
  "elements_from_hiredis grant n es h = Some (ok, rs, h') \<Longrightarrow>
     wf_children Libc (map Some rs) \<and> raised Libc (children_blocks (map Some rs)) h h' \<and>
     length rs \<le> n \<and> (ok \<longrightarrow> length rs = n) \<and>
     map Some rs = take (length rs) (map (map_option hiredis_image) es)"
proof (induction grant src h and grant n es h arbitrary: res h' and ok rs h'
    rule: raincall_reply_from_hiredis_elements_from_hiredis.induct)
  case (2 grant ty i d len s n es h)
  let ?t = "raincall_reply_type_from_hiredis ty"
  obtain b h0 where a0: "alloc grant Libc h = (b, h0)" by fastforce
  show ?case
  proof (cases b)
    case False
    then show ?thesis using 2(2) a0 alloc_raised[OF a0] by (auto simp: raincall_reply_new_def)
  next
    case True
    then have True_b: "b = True" by simp
    define copy where "copy \<longleftrightarrow> s \<noteq> None \<and> len > 0"
    obtain ok1 h1 where a1: "(if copy then alloc grant Libc h0 else (True, h0)) = (ok1, h1)" by fastforce
    obtain ok2 h2 where a2: "alloc grant Libc h1 = (ok2, h2)" by fastforce
    define str where "str = (if copy then Some (take len (the s)) else None)"
    define dlen where "dlen = (if copy then len else 0)"
    have r0: "raised Libc 1 h h0" using alloc_raised[OF a0] True by simp
    have r1: "raised Libc (if copy \<and> ok1 then 2 else 1) h h1"
      using a1 r0 raised_trans[OF r0 alloc_raised[of grant Libc h0 ok1 h1]] by (auto split: if_splits)
    have run: "raincall_reply_from_hiredis grant (Some (RedisReply ty i d len s n es)) h =
        (if copy \<and> length (the s) < len then None
         else if \<not> ok1 then free_and_null (Reply ?t None 0 i d 0 None None) h1
         else if n = 0 then Some (Some (Reply ?t str dlen i d 0 None None), h1)
         else if \<not> ok2 then free_and_null (Reply ?t str dlen i d 0 None None) h2
         else case elements_from_hiredis grant n es h2 of
            None \<Rightarrow> None
          | Some (ok, children, h) \<Rightarrow>
              let dst = Reply ?t str dlen i d n (Some (map Some children @ replicate (n - length children) None)) None
              in if ok then Some (Some dst, h) else free_and_null dst h)"
      by (rule from_hiredis_run[OF a0[unfolded True_b] a1 a2 copy_def str_def dlen_def refl])
    let ?R0 = "Reply ?t None 0 i d 0 None None" and ?R1 = "Reply ?t str dlen i d 0 None None"
    have nl: "\<not> (copy \<and> length (the s) < len)" using 2(2) unfolding run by auto
    have w: "wf_reply Libc ?R1" "reply_blocks ?R1 = (if copy then 2 else 1)"
      using nl by (auto simp: str_def dlen_def)
    have r2: "raised Libc ((if copy then 2 else 1) + (if ok2 then 1 else 0)) h h2" if ok1
      using raised_trans[OF r1 alloc_raised[OF a2]] that by simp
    consider "\<not> ok1" | "ok1" "n = 0" | "ok1" "0 < n" "\<not> ok2" | "ok1" "0 < n" "ok2" by blast
    then show ?thesis
    proof cases
      case 1
      then have "free_and_null ?R0 h1 = Some (res, h')" using 2(2) nl unfolding run by simp
      then have "res = None \<and> raised Libc 0 h h'"
        by (rule free_and_null_wf[where r = ?R0, rotated 2]) (use r1 1 in simp_all)
      then show ?thesis by simp
    next
      case 2
      have "?R1 = hiredis_image (RedisReply ty i d len s n es)"
        using 2 by (simp add: str_def dlen_def copy_def)
      moreover have "res = Some ?R1" "h' = h1" using "2.prems" nl 2 unfolding run by auto
      moreover have "raised Libc (reply_blocks ?R1) h h1" using w(2) r1 2 by simp
      ultimately show ?thesis using w(1)
        by (simp only: option.case option.sel option.distinct not_False_eq_True simp_thms)
    next
      case 3
      then have "free_and_null ?R1 h2 = Some (res, h')" using "2.prems" nl unfolding run by simp
      then have "res = None \<and> raised Libc 0 h h'"
        by (rule free_and_null_wf[where r = ?R1, rotated 2]) (use w r2 3 in simp_all)
      then show ?thesis by simp
    next
      case 4
      then obtain ok rs h3 where e: "elements_from_hiredis grant n es h2 = Some (ok, rs, h3)"
        using "2.prems" nl unfolding run by (auto split: option.splits)
      have new: "(Some (Reply ?t None 0 0 (0 :: 'd) 0 None None), h0) = raincall_reply_new grant ?t h"
        using a0 True by (simp add: raincall_reply_new_def)
      have IH: "wf_children Libc (map Some rs) \<and> raised Libc (children_blocks (map Some rs)) h2 h3 \<and>
          length rs \<le> n \<and> (ok \<longrightarrow> length rs = n) \<and>
          map Some rs = take (length rs) (map (map_option hiredis_image) es)"
        by (rule "2.IH"[OF new refl refl refl refl a1[unfolded copy_def, symmetric] refl refl _ _ _ a2[symmetric] _ e])
          (use nl 4 in \<open>simp_all add: copy_def\<close>)
      let ?R = "Reply ?t str dlen i d n (Some (map Some rs @ replicate (n - length rs) None)) None"
      have IHs: "wf_children Libc (map Some rs)" "raised Libc (children_blocks (map Some rs)) h2 h3"
        "length rs \<le> n" "ok \<longrightarrow> length rs = n"
        "map Some rs = take (length rs) (map (map_option hiredis_image) es)" using IH by blast+
      have wR: "wf_reply Libc ?R" using IHs(1,3) w(1) by (simp add: wf_children_map)
      have b: "reply_blocks ?R = (if copy then 2 else 1) + 1 + children_blocks (map Some rs)"
        using w(2) by (simp add: children_blocks_map)
      have rR: "raised Libc (reply_blocks ?R) h h3" unfolding b
        using raised_trans[OF r2[OF 4(1)], of "children_blocks (map Some rs)" h3] IHs(2) 4(3) by simp
      show ?thesis
      proof (cases ok)
        case True
        then have "?R = hiredis_image (RedisReply ty i d len s n es)"
          using IHs(4,5) 4(2) by (simp add: str_def dlen_def copy_def)
        moreover have "res = Some ?R" "h' = h3" using "2.prems" nl True 4 e unfolding run by (auto simp: Let_def)
        ultimately show ?thesis using wR rR
          by (simp only: option.case option.sel option.distinct not_False_eq_True simp_thms)
      next
        case False
        then have "free_and_null ?R h3 = Some (res, h')" using "2.prems" nl 4 e unfolding run by (simp add: Let_def)
        then have "res = None \<and> raised Libc 0 h h'"
          by (rule free_and_null_wf[where r = ?R, OF wR rR])
        then show ?thesis by simp
      qed
    qed
  qed
next
  case (5 grant n e es h)
  obtain x h1 where x: "raincall_reply_from_hiredis grant e h = Some (x, h1)"
    using 5(3) by (auto split: option.splits)
  show ?case
  proof (cases x)
    case None
    then show ?thesis using 5(1)[OF x] 5(3) x by auto
  next
    case (Some r)
    obtain rs' where rs: "elements_from_hiredis grant n es h1 = Some (ok, rs', h')" "rs = r # rs'"
      using 5(3) x Some by (auto split: option.splits)
    show ?thesis using 5(1)[OF x] 5(2)[OF x _ Some rs(1)] Some rs(2) by (auto intro: raised_trans)
  qed
qed auto

lemma alloc_ok: "alloc grant k h = (ok, h') \<Longrightarrow> \<forall>n. grant n \<Longrightarrow> ok"
  by (auto simp: alloc_def Let_def split: if_splits)

lemma free_and_null_defined:
  "wf_reply k r \<Longrightarrow> free_and_null r h = Some (None, lower k (reply_blocks r) h)"
  by (simp add: free_and_null_def free_wf)

lemma elements_defined:
  assumes "list_all (\<lambda>e. case e of None \<Rightarrow> False | Some r \<Rightarrow> P r) es"
    "\<And>r h. Some r \<in> set es \<Longrightarrow> P r \<Longrightarrow> \<exists>res h'. raincall_reply_from_hiredis grant (Some r) h = Some (res, h') \<and>
      ((\<forall>n. grant n) \<longrightarrow> res \<noteq> None)"
  shows "\<exists>ok rs h'. elements_from_hiredis grant (length es) es h = Some (ok, rs, h') \<and> ((\<forall>n. grant n) \<longrightarrow> ok)"
  using assms
proof (induction es arbitrary: h)
  case (Cons e es)
  obtain r where r: "e = Some r" "P r" using Cons.prems(1) by (auto split: option.splits)
  obtain res h1 where 1: "raincall_reply_from_hiredis grant (Some r) h = Some (res, h1)"
    "(\<forall>n. grant n) \<longrightarrow> res \<noteq> None" using Cons.prems(2)[of r h] r by auto
  obtain ok rs h2 where 2: "elements_from_hiredis grant (length es) es h1 = Some (ok, rs, h2)"
    "(\<forall>n. grant n) \<longrightarrow> ok" using Cons.IH[of h1] Cons.prems by auto
  show ?case using 1 2 r by (cases res) auto
qed auto

lemma from_hiredis_defined:
  "wf_hiredis s \<Longrightarrow> \<exists>res h'. raincall_reply_from_hiredis grant (Some s) h = Some (res, h') \<and>
     ((\<forall>n. grant n) \<longrightarrow> res \<noteq> None)"
proof (induction s arbitrary: h)
  case (RedisReply ty i d len s n es)
  let ?t = "raincall_reply_type_from_hiredis ty"
  obtain ok0 h0 where a0: "alloc grant Libc h = (ok0, h0)" by fastforce
  obtain ok1 h1 where a1: "(if s \<noteq> None \<and> 0 < len then alloc grant Libc h0 else (True, h0)) = (ok1, h1)" by fastforce
  obtain ok2 h2 where a2: "alloc grant Libc h1 = (ok2, h2)" by fastforce
  have n: "n = length es" and len: "\<not> ((s \<noteq> None \<and> 0 < len) \<and> length (the s) < len)"
    using RedisReply.prems by auto
  have "\<exists>ok rs h'. elements_from_hiredis grant (length es) es h2 = Some (ok, rs, h') \<and> ((\<forall>n. grant n) \<longrightarrow> ok)"
    using RedisReply by (intro elements_defined[where P = wf_hiredis]) auto
  then obtain ok rs h3 where e: "elements_from_hiredis grant n es h2 = Some (ok, rs, h3)" "(\<forall>n. grant n) \<longrightarrow> ok"
    using n by auto
  have wf: "wf_children Libc (map Some rs)" "length rs \<le> n" using from_hiredis_ledger(2)[OF e(1)] by auto
  define str where "str = (if s \<noteq> None \<and> 0 < len then Some (take len (the s)) else None)"
  define dlen where "dlen = (if s \<noteq> None \<and> 0 < len then len else 0)"
  let ?A = "Reply ?t None 0 i d 0 None None" and ?B = "Reply ?t str dlen i d 0 None None"
    and ?C = "Reply ?t str dlen i d n (Some (map Some rs @ replicate (n - length rs) None)) None"
  have w: "wf_reply Libc ?A" "wf_reply Libc ?B" "wf_reply Libc ?C"
    using len wf by (auto simp: wf_children_map str_def dlen_def)
  note F = w(1)[THEN free_and_null_defined] w(2)[THEN free_and_null_defined] w(3)[THEN free_and_null_defined]
  have g: "(\<forall>n. grant n) \<longrightarrow> ok0 \<and> ok1 \<and> ok2"
    using alloc_ok[OF a0] alloc_ok[OF a2] alloc_ok[of grant Libc h0 ok1 h1] a1 by (auto split: if_splits)
  show ?case
  proof (cases ok0)
    case True
    then have t: "ok0 = True" by simp
    note run = from_hiredis_run[OF a0[unfolded t] a1 a2 refl str_def dlen_def refl]
    consider "\<not> ok1" | "ok1" "n = 0" | "ok1" "n \<noteq> 0" "\<not> ok2" | "ok1" "n \<noteq> 0" "ok2" by blast
    then show ?thesis
    proof cases
      case 1
      then show ?thesis using len g F(1) unfolding run by auto
    next
      case 2
      then show ?thesis using len unfolding run by auto
    next
      case 3
      then show ?thesis using len g F(2) unfolding run by auto
    next
      case 4
      then show ?thesis using len e g F(3) unfolding run by (auto simp: Let_def)
    qed
  next
    case False
    then show ?thesis using a0 g by (auto simp: raincall_reply_new_def)
  qed
qed

section \<open>Properties\<close>

text \<open>C9. The TCP backend never leaks, under any pattern of allocation failures: the conversion of
  every well formed hiredis reply has a defined outcome; if an allocation fails it returns NULL
  with the ledger exactly as before, and otherwise it returns the faithful image of the reply,
  which \<open>raincall_reply_free\<close> releases completely and with the right allocator. If no
  allocation fails the conversion succeeds.\<close>

theorem hiredis_conversion_no_leak:
  assumes "wf_hiredis s"
  shows "\<exists>res h'. raincall_reply_from_hiredis grant (Some s) h = Some (res, h') \<and>
    (case res of
       None \<Rightarrow> hp_live h' = hp_live h \<and> (\<exists>n. \<not> grant n)
     | Some r \<Rightarrow> r = hiredis_image s \<and>
         (\<exists>h''. raincall_reply_free (Some r) h' = Some h'' \<and> hp_live h'' = hp_live h))"
proof -
  obtain res h' where r: "raincall_reply_from_hiredis grant (Some s) h = Some (res, h')"
    "(\<forall>n. grant n) \<longrightarrow> res \<noteq> None" using from_hiredis_defined[OF assms] by blast
  note L = from_hiredis_ledger(1)[OF r(1)]
  show ?thesis
  proof (cases res)
    case None
    then show ?thesis using r L by (auto simp: raised_def)
  next
    case (Some x)
    then have x: "wf_reply Libc x" "raised Libc (reply_blocks x) h h'" "x = hiredis_image s" using L by auto
    have "hp_live (lower Libc (reply_blocks x) h') = hp_live h"
      using raised_lower[OF x(2), of "reply_blocks x"] by (simp add: raised_def)
    then show ?thesis using r Some x(3) free_wf(1)[OF x(1)] by auto
  qed
qed

theorem hiredis_conversion_no_leak_witness:
  "\<exists>res h'. raincall_reply_from_hiredis (\<lambda>n. n \<noteq> 3)
       (Some (RedisReply 2 0 (0 :: int) 0 None 2
          [Some (RedisReply 1 0 0 2 (Some ''ab'') 0 []), Some (RedisReply 3 7 0 0 None 0 [])]))
       \<lparr>hp_live = (\<lambda>k. 0), hp_calls = 0\<rparr> = Some (res, h') \<and> res = None \<and> hp_live h' = (\<lambda>k. 0)"
proof -
  let ?s = "RedisReply 2 0 (0 :: int) 0 None 2
      [Some (RedisReply 1 0 0 2 (Some ''ab'') 0 []), Some (RedisReply 3 7 0 0 None 0 [])]"
  let ?h = "\<lparr>hp_live = (\<lambda>k. 0), hp_calls = 0\<rparr>"
  have "fst (the (raincall_reply_from_hiredis (\<lambda>n. n \<noteq> 3) (Some ?s) ?h)) = None"
    by code_simp
  then show ?thesis
    using hiredis_conversion_no_leak[of ?s "\<lambda>n. n \<noteq> 3" ?h] by (auto simp del: raincall_reply_from_hiredis.simps)
qed

end
