(* ===== verification/Raincall.thy ===== *)
theory Raincall
  imports Moonquakes RaincallReply
begin

text \<open>
  The Rain-Call host capability of \<^verbatim>\<open>src/utils/raincall/raincall.c\<close>: how a reply becomes a Lua
  value, the TCP backend, the two global state pointers, and the Lua functions \<open>RAIN.CALL\<close> and
  \<open>RAIN.CONNECT\<close>. The hiredis client and the machine are parameters; a backend is a record of
  its three function pointers.
\<close>

section \<open>Replies as Lua values\<close>

definition raincall_raise :: "('L, 'd) mq_api \<Rightarrow> 'L \<Rightarrow> string \<Rightarrow> 'L \<times> int" where
  "raincall_raise api L msg = (mq_pushstring api L msg, - 1)"

text \<open>The text pushed for a string reply; a length without enough bytes behind it is an
  out-of-bounds read.\<close>

definition reply_text :: "string option \<Rightarrow> nat \<Rightarrow> string option" where
  "reply_text str len =
    (let s = (case str of None \<Rightarrow> [] | Some s \<Rightarrow> s) in if len \<le> length s then Some (take len s) else None)"

fun raincall_push_reply :: "('L, 'd) mq_api \<Rightarrow> 'L \<Rightarrow> 'd raincall_Reply \<Rightarrow> ('L \<times> int) option"
and push_elements ::
  "('L, 'd) mq_api \<Rightarrow> 'L \<Rightarrow> int \<Rightarrow> nat \<Rightarrow> 'd raincall_Reply option list \<Rightarrow> ('L \<times> int) option"
and push_pairs ::
  "('L, 'd) mq_api \<Rightarrow> 'L \<Rightarrow> int \<Rightarrow> nat \<Rightarrow> 'd raincall_Reply option list \<Rightarrow> ('L \<times> int) option" where
  "raincall_push_reply api L (Reply ty str len i d n es fr) =
    (if ty \<in> {RAINCALL_REPLY_STATUS, RAINCALL_REPLY_STRING, RAINCALL_REPLY_VERB, RAINCALL_REPLY_BIGNUM} then
       map_option (\<lambda>s. (mq_pushlstring api L s, 1)) (reply_text str len)
     else if ty = RAINCALL_REPLY_INTEGER then Some (mq_pushinteger api L i, 1)
     else if ty = RAINCALL_REPLY_DOUBLE then Some (mq_pushnumber api L d, 1)
     else if ty = RAINCALL_REPLY_BOOL then Some (mq_pushboolean api L (i \<noteq> 0), 1)
     else if ty = RAINCALL_REPLY_NIL then Some (mq_pushnil api L, 1)
     else if ty = RAINCALL_REPLY_ERROR then
       map_option (\<lambda>s. (mq_pushlstring api L s, - 1)) (reply_text str len)
     else if ty \<in> {RAINCALL_REPLY_ARRAY, RAINCALL_REPLY_SET, RAINCALL_REPLY_ATTR, RAINCALL_REPLY_PUSH} then
       (case es of
          None \<Rightarrow> if n = 0 then Some (mq_newtable api L, 1) else None
        | Some l \<Rightarrow> push_elements api (mq_newtable api L) 0 n l)
     else
       (case es of
          None \<Rightarrow> if n < 2 then Some (mq_newtable api L, 1) else None
        | Some l \<Rightarrow> push_pairs api (mq_newtable api L) 1 n l))"
| "push_elements api L i 0 es = Some (L, 1)"
| "push_elements api L i (Suc n) (Some e # es) =
    (case raincall_push_reply api L e of
       None \<Rightarrow> None
     | Some (L, pushed) \<Rightarrow>
         if pushed < 0 then Some (L, pushed)
         else push_elements api (mq_seti api L (- 2) (i + 1)) (i + 1) n es)"
| "push_elements api L i (Suc n) _ = None"
| "push_pairs api L pair 0 es = Some (L, 1)"
| "push_pairs api L pair (Suc 0) es = Some (L, 1)"
| "push_pairs api L pair (Suc (Suc n)) (Some k # Some v # es) =
    (case raincall_push_reply api (mq_newtable api L) k of
       None \<Rightarrow> None
     | Some (L, pushed) \<Rightarrow>
         if pushed < 0 then Some (L, pushed)
         else
           (case raincall_push_reply api (mq_setfield api L (- 2) ''key'') v of
              None \<Rightarrow> None
            | Some (L, pushed) \<Rightarrow>
                if pushed < 0 then Some (L, pushed)
                else
                  push_pairs api (mq_seti api (mq_setfield api L (- 2) ''value'') (- 2) pair)
                    (pair + 1) n es))"
| "push_pairs api L pair (Suc (Suc n)) _ = None"

text \<open>What the value on the stack has to be: \<open>denotes T v r\<close> says that the Lua value \<open>v\<close>, read
  in the table store \<open>T\<close>, stands for the reply \<open>r\<close>; tables hold exactly the elements.\<close>

fun denotes :: "(nat \<Rightarrow> 'd ltable option) \<Rightarrow> 'd lval \<Rightarrow> 'd raincall_Reply \<Rightarrow> bool"
and denotes_elements :: "(nat \<Rightarrow> 'd ltable option) \<Rightarrow> 'd ltable \<Rightarrow> int \<Rightarrow> 'd raincall_Reply option list \<Rightarrow> bool"
and denotes_pairs :: "(nat \<Rightarrow> 'd ltable option) \<Rightarrow> 'd ltable \<Rightarrow> int \<Rightarrow> 'd raincall_Reply option list \<Rightarrow> bool" where
  "denotes T v (Reply ty str len i d n es fr) \<longleftrightarrow>
    (if ty \<in> {RAINCALL_REPLY_STATUS, RAINCALL_REPLY_STRING, RAINCALL_REPLY_VERB, RAINCALL_REPLY_BIGNUM} then
       v = LStr (case str of None \<Rightarrow> [] | Some s \<Rightarrow> s)
     else if ty = RAINCALL_REPLY_INTEGER then v = LInt i
     else if ty = RAINCALL_REPLY_DOUBLE then v = LNum d
     else if ty = RAINCALL_REPLY_BOOL then v = LBool (i \<noteq> 0)
     else if ty = RAINCALL_REPLY_NIL then v = LNil
     else if ty = RAINCALL_REPLY_ERROR then False
     else if ty \<in> {RAINCALL_REPLY_ARRAY, RAINCALL_REPLY_SET, RAINCALL_REPLY_ATTR, RAINCALL_REPLY_PUSH} then
       (\<exists>r t. v = LTab r \<and> T r = Some t \<and>
          (case es of None \<Rightarrow> (\<forall>k. t k = None) | Some l \<Rightarrow> denotes_elements T t 1 l))
     else
       (\<exists>r t. v = LTab r \<and> T r = Some t \<and>
          (case es of None \<Rightarrow> (\<forall>k. t k = None) | Some l \<Rightarrow> denotes_pairs T t 1 l)))"
| "denotes_elements T t k [] \<longleftrightarrow> (\<forall>j. k \<le> j \<longrightarrow> tget t (KInt j) = LNil)"
| "denotes_elements T t k (Some e # es) \<longleftrightarrow>
     denotes T (tget t (KInt k)) e \<and> denotes_elements T t (k + 1) es"
| "denotes_elements T t k (None # es) \<longleftrightarrow> False"
| "denotes_pairs T t k (Some a # Some b # es) \<longleftrightarrow>
     (\<exists>r p. tget t (KInt k) = LTab r \<and> T r = Some p \<and> denotes T (tget p (KStr ''key'')) a \<and>
        denotes T (tget p (KStr ''value'')) b) \<and> denotes_pairs T t (k + 1) es"
| "denotes_pairs T t k _ \<longleftrightarrow> (\<forall>j. k \<le> j \<longrightarrow> tget t (KInt j) = LNil)"

text \<open>The message of the first error in the order the elements are pushed.\<close>

fun first_error :: "'d raincall_Reply \<Rightarrow> string option"
and first_error_in :: "'d raincall_Reply option list \<Rightarrow> string option" where
  "first_error (Reply ty str len i d n es fr) =
    (if ty = RAINCALL_REPLY_ERROR then Some (case str of None \<Rightarrow> [] | Some s \<Rightarrow> s)
     else if ty \<in> {RAINCALL_REPLY_ARRAY, RAINCALL_REPLY_SET, RAINCALL_REPLY_ATTR, RAINCALL_REPLY_PUSH,
         RAINCALL_REPLY_MAP} then
       (case es of None \<Rightarrow> None | Some l \<Rightarrow> first_error_in l)
     else None)"
| "first_error_in [] = None"
| "first_error_in (None # es) = first_error_in es"
| "first_error_in (Some e # es) =
    (case first_error e of Some m \<Rightarrow> Some m | None \<Rightarrow> first_error_in es)"

text \<open>A reply both backends may produce: allocator and counts are consistent, every element is
  present, and maps have an even number of elements.\<close>

fun full_reply :: "'d raincall_Reply \<Rightarrow> bool"
and full_elements :: "'d raincall_Reply option list \<Rightarrow> bool" where
  "full_reply (Reply ty str len i d n es fr) \<longleftrightarrow>
     (case str of None \<Rightarrow> len = 0 | Some s \<Rightarrow> length s = len) \<and>
     (case es of None \<Rightarrow> n = 0 | Some l \<Rightarrow> length l = n \<and> full_elements l) \<and>
     (ty = RAINCALL_REPLY_MAP \<longrightarrow> even n)"
| "full_elements [] = True"
| "full_elements (None # es) = False"
| "full_elements (Some e # es) = (full_reply e \<and> full_elements es)"

section \<open>Pushing a reply is faithful\<close>

text \<open>Tables created since \<open>D\<close>.\<close>

abbreviation fresh_part :: "(nat \<Rightarrow> 'd ltable option) \<Rightarrow> nat set \<Rightarrow> nat \<Rightarrow> 'd ltable option" where
  "fresh_part T D \<equiv> T |` (- D)"

lemma denotes_mono:
  fixes e :: "'d raincall_Reply" and es es2 :: "'d raincall_Reply option list"
  shows "T \<subseteq>\<^sub>m T' \<Longrightarrow> denotes T v e \<Longrightarrow> denotes T' v e"
    "T \<subseteq>\<^sub>m T' \<Longrightarrow> denotes_elements T t k es \<Longrightarrow> denotes_elements T' t k es"
    "T \<subseteq>\<^sub>m T' \<Longrightarrow> denotes_pairs T t k es2 \<Longrightarrow> denotes_pairs T' t k es2"
proof (induction T v e and T t k es and T t k es2 rule: denotes_denotes_elements_denotes_pairs.induct)
  case (1 T v ty str len i d n es fr)
  have le: "T r = Some p \<Longrightarrow> T' r = Some p" for r p using 1 by (auto simp: map_le_def dom_def)
  consider "ty \<in> {RAINCALL_REPLY_ARRAY, RAINCALL_REPLY_SET, RAINCALL_REPLY_ATTR, RAINCALL_REPLY_PUSH}"
    | "ty = RAINCALL_REPLY_MAP"
    | "ty \<notin> {RAINCALL_REPLY_ARRAY, RAINCALL_REPLY_SET, RAINCALL_REPLY_ATTR, RAINCALL_REPLY_PUSH, RAINCALL_REPLY_MAP}"
    by blast
  then show ?case
  proof cases
    case a: 1
    then show ?thesis using "1.prems" "1.IH"(1) le by (cases es) fastforce+
  next
    case 2
    then show ?thesis using "1.prems" "1.IH"(2) le by (cases es) fastforce+
  next
    case 3
    then show ?thesis using "1.prems"(2) by (cases ty) simp_all
  qed
next
  case (5 T t k a b es)
  have le: "T r = Some p \<Longrightarrow> T' r = Some p" for r p using 5 by (auto simp: map_le_def dom_def)
  show ?case using 5 le by auto
qed auto

definition pushed_ok ::
  "('L \<Rightarrow> 'd lval list) \<Rightarrow> ('L \<Rightarrow> nat \<Rightarrow> 'd ltable option) \<Rightarrow> 'L \<Rightarrow> ('L \<times> int) option \<Rightarrow> 'd raincall_Reply \<Rightarrow> bool" where
  "pushed_ok stk tbl L res r \<longleftrightarrow> (\<exists>L' ret. res = Some (L', ret) \<and> tbl L \<subseteq>\<^sub>m tbl L' \<and>
     (case first_error r of
        Some m \<Rightarrow> ret = - 1 \<and> (\<exists>ys. stk L' = stk L @ ys @ [LStr m])
      | None \<Rightarrow> ret = 1 \<and> (\<exists>v. stk L' = stk L @ [v] \<and> denotes (fresh_part (tbl L') (dom (tbl L))) v r)))"

text \<open>The same for the loops, which fill the table \<open>q\<close> on top of the stack from index \<open>i\<close> on.\<close>

definition filled_ok ::
  "('L \<Rightarrow> 'd lval list) \<Rightarrow> ('L \<Rightarrow> nat \<Rightarrow> 'd ltable option) \<Rightarrow> nat set \<Rightarrow> 'd lval list \<Rightarrow> nat \<Rightarrow> int \<Rightarrow> 'd ltable \<Rightarrow>
   ((nat \<Rightarrow> 'd ltable option) \<Rightarrow> 'd ltable \<Rightarrow> bool) \<Rightarrow> string option \<Rightarrow> 'L \<Rightarrow> ('L \<times> int) option \<Rightarrow> bool" where
  "filled_ok stk tbl D xs q i t P err L res \<longleftrightarrow> (\<exists>L' ret. res = Some (L', ret) \<and>
     (\<forall>p. p \<noteq> q \<longrightarrow> tbl L p \<noteq> None \<longrightarrow> tbl L' p = tbl L p) \<and>
     (case err of
        Some m \<Rightarrow> ret = - 1 \<and> (\<exists>ys. stk L' = xs @ ys @ [LStr m])
      | None \<Rightarrow> ret = 1 \<and> stk L' = xs @ [LTab q] \<and>
          (\<exists>t'. tbl L' q = Some t' \<and> (\<forall>j < i. tget t' (KInt j) = tget t (KInt j)) \<and>
             P (fresh_part (tbl L') D) t')))"

context moonquakes
begin

lemma push_elements_filled:
  assumes "\<And>e L. Some e \<in> set es \<Longrightarrow> full_reply e \<Longrightarrow> pushed_ok stk tbl L (raincall_push_reply api L e) e"
    "full_elements es" "stk L = xs @ [LTab q]" "tbl L q = Some t" "\<forall>j > i. tget t (KInt j) = LNil"
    "D \<subseteq> dom (tbl L)" "q \<notin> D"
  shows "filled_ok stk tbl D xs q (i + 1) t (\<lambda>T t'. denotes_elements T t' (i + 1) es) (first_error_in es) L
    (push_elements api L i (length es) es)"
  using assms
proof (induction es arbitrary: L t i)
  case Nil
  then show ?case by (auto simp: filled_ok_def)
next
  case (Cons x es)
  then obtain e where x: "x = Some e" by (cases x) auto
  have fe: "full_reply e" "full_elements es" using Cons.prems(2) x by auto
  obtain L1 ret where 1: "raincall_push_reply api L e = Some (L1, ret)" "tbl L \<subseteq>\<^sub>m tbl L1"
    "case first_error e of
        Some m \<Rightarrow> ret = - 1 \<and> (\<exists>ys. stk L1 = stk L @ ys @ [LStr m])
      | None \<Rightarrow> ret = 1 \<and> (\<exists>v. stk L1 = stk L @ [v] \<and> denotes (fresh_part (tbl L1) (dom (tbl L))) v e)"
    using Cons.prems(1)[of e L] fe(1) x unfolding pushed_ok_def by auto
  have keep: "tbl L1 p = tbl L p" if "tbl L p \<noteq> None" for p
    using 1(2) that by (auto simp: map_le_def dom_def)
  show ?case
  proof (cases "first_error e")
    case (Some m)
    then show ?thesis using 1 x keep Cons.prems(3) by (auto simp: filled_ok_def)
  next
    case None
    then obtain v where v: "ret = 1" "stk L1 = stk L @ [v]" "denotes (fresh_part (tbl L1) (dom (tbl L))) v e"
      using 1(3) by auto
    have q1: "tbl L1 q = Some t" using keep[of q] Cons.prems(4) by simp
    let ?L2 = "mq_seti api L1 (- 2) (i + 1)" and ?t2 = "tset t (KInt (i + 1)) v"
    have L2: "stk ?L2 = xs @ [LTab q]" "tbl ?L2 = (tbl L1)(q := Some ?t2)"
      using seti[of L1 xs q v t "i + 1"] v(2) Cons.prems(3) q1 by auto
    have D2: "D \<subseteq> dom (tbl ?L2)"
      using Cons.prems(6) map_le_implies_dom_le[OF 1(2)] unfolding L2 by auto
    have "filled_ok stk tbl D xs q (i + 1 + 1) ?t2 (\<lambda>T t'. denotes_elements T t' (i + 1 + 1) es)
        (first_error_in es) ?L2 (push_elements api ?L2 (i + 1) (length es) es)"
      using Cons.prems D2 fe(2) L2 by (intro Cons.IH) (auto simp: tget_tset)
    then obtain L' ret' where R: "push_elements api ?L2 (i + 1) (length es) es = Some (L', ret')"
      "\<forall>p. p \<noteq> q \<longrightarrow> tbl ?L2 p \<noteq> None \<longrightarrow> tbl L' p = tbl ?L2 p"
      "case first_error_in es of
        Some m \<Rightarrow> ret' = - 1 \<and> (\<exists>ys. stk L' = xs @ ys @ [LStr m])
      | None \<Rightarrow> ret' = 1 \<and> stk L' = xs @ [LTab q] \<and>
          (\<exists>t'. tbl L' q = Some t' \<and> (\<forall>j < i + 1 + 1. tget t' (KInt j) = tget ?t2 (KInt j)) \<and>
             denotes_elements (fresh_part (tbl L') D) t' (i + 1 + 1) es)"
      unfolding filled_ok_def by blast
    have run: "push_elements api L i (length (x # es)) (x # es) = Some (L', ret')"
      using 1(1) v(1) R(1) x by simp
    have frame: "\<forall>p. p \<noteq> q \<longrightarrow> tbl L p \<noteq> None \<longrightarrow> tbl L' p = tbl L p"
      using R(2) keep L2(2) by auto
    have "fresh_part (tbl L1) (dom (tbl L)) \<subseteq>\<^sub>m fresh_part (tbl L') D"
      unfolding map_le_def
    proof
      fix p assume p: "p \<in> dom (fresh_part (tbl L1) (dom (tbl L)))"
      then have pq: "p \<notin> dom (tbl L)" "tbl L1 p \<noteq> None" by (auto simp: restrict_map_def split: if_splits)
      then have "p \<noteq> q" "p \<notin> D" using Cons.prems(4,6) by auto
      then show "fresh_part (tbl L1) (dom (tbl L)) p = fresh_part (tbl L') D p"
        using R(2) pq L2(2) by (simp add: restrict_map_def)
    qed
    then have dv: "denotes (fresh_part (tbl L') D) v e" using denotes_mono(1) v(3) by blast
    show ?thesis
    proof (cases "first_error_in es")
      case (Some m)
      then show ?thesis using run frame R(3) None x by (auto simp: filled_ok_def)
    next
      case N: None
      then obtain t' where t': "ret' = 1" "stk L' = xs @ [LTab q]" "tbl L' q = Some t'"
        "\<forall>j < i + 1 + 1. tget t' (KInt j) = tget ?t2 (KInt j)"
        "denotes_elements (fresh_part (tbl L') D) t' (i + 1 + 1) es" using R(3) by auto
      have "tget t' (KInt (i + 1)) = v" using t'(4) by (simp add: tget_tset)
      moreover have "\<forall>j < i + 1. tget t' (KInt j) = tget t (KInt j)" using t'(4) by (simp add: tget_tset)
      ultimately show ?thesis using run frame N None x t' dv by (auto simp: filled_ok_def add.assoc)
    qed
  qed
qed
end

text \<open>One round of the map loop.\<close>

definition push_pair ::
  "('L, 'd) mq_api \<Rightarrow> 'L \<Rightarrow> int \<Rightarrow> 'd raincall_Reply \<Rightarrow> 'd raincall_Reply \<Rightarrow> ('L \<times> int) option" where
  "push_pair api L pair k v =
    (case raincall_push_reply api (mq_newtable api L) k of
       None \<Rightarrow> None
     | Some (L, pushed) \<Rightarrow>
         if pushed < 0 then Some (L, pushed)
         else
           (case raincall_push_reply api (mq_setfield api L (- 2) ''key'') v of
              None \<Rightarrow> None
            | Some (L, pushed) \<Rightarrow>
                if pushed < 0 then Some (L, pushed)
                else Some (mq_seti api (mq_setfield api L (- 2) ''value'') (- 2) pair, 1)))"

lemma push_pairs_step:
  "push_pairs api L pair (Suc (Suc n)) (Some k # Some v # es) =
    (case push_pair api L pair k v of
       None \<Rightarrow> None
     | Some (L, pushed) \<Rightarrow> if pushed < 0 then Some (L, pushed) else push_pairs api L (pair + 1) n es)"
  by (auto simp: push_pair_def split: option.splits)

lemma fresh_part_le:
  assumes "D \<subseteq> dom T0" "\<And>p. p \<notin> dom T0 \<Longrightarrow> T1 p \<noteq> None \<Longrightarrow> T2 p = T1 p"
  shows "fresh_part T1 (dom T0) \<subseteq>\<^sub>m fresh_part T2 D"
  using assms by (auto simp: map_le_def restrict_map_def dom_def)

definition pair_pushed ::
  "('L \<Rightarrow> 'd lval list) \<Rightarrow> ('L \<Rightarrow> nat \<Rightarrow> 'd ltable option) \<Rightarrow> 'd lval list \<Rightarrow> nat \<Rightarrow> 'd ltable \<Rightarrow> int \<Rightarrow>
   'd raincall_Reply \<Rightarrow> 'd raincall_Reply \<Rightarrow> 'L \<Rightarrow> ('L \<times> int) option \<Rightarrow> bool" where
  "pair_pushed stk tbl xs q t pair k v L res \<longleftrightarrow> (\<exists>L' ret. res = Some (L', ret) \<and>
     (\<forall>p. p \<noteq> q \<longrightarrow> tbl L p \<noteq> None \<longrightarrow> tbl L' p = tbl L p) \<and>
     (case (case first_error k of Some m \<Rightarrow> Some m | None \<Rightarrow> first_error v) of
        Some m \<Rightarrow> ret = - 1 \<and> (\<exists>ys. stk L' = xs @ ys @ [LStr m])
      | None \<Rightarrow> ret = 1 \<and> stk L' = xs @ [LTab q] \<and>
          (\<exists>p pt. tbl L p = None \<and> tbl L' p = Some pt \<and> tbl L' q = Some (tset t (KInt pair) (LTab p)) \<and>
             denotes (fresh_part (tbl L') (dom (tbl L))) (tget pt (KStr ''key'')) k \<and>
             denotes (fresh_part (tbl L') (dom (tbl L))) (tget pt (KStr ''value'')) v)))"

context moonquakes
begin

lemma pushed_okE:
  assumes "pushed_ok stk tbl L res r"
  obtains (ok) L' v where "res = Some (L', 1)" "first_error r = None" "stk L' = stk L @ [v]"
      "denotes (fresh_part (tbl L') (dom (tbl L))) v r" "\<And>p. tbl L p \<noteq> None \<Longrightarrow> tbl L' p = tbl L p"
  | (err) L' m ys where "res = Some (L', - 1)" "first_error r = Some m" "stk L' = stk L @ ys @ [LStr m]"
      "\<And>p. tbl L p \<noteq> None \<Longrightarrow> tbl L' p = tbl L p"
proof -
  obtain L' ret where 1: "res = Some (L', ret)" "tbl L \<subseteq>\<^sub>m tbl L'"
    "case first_error r of
        Some m \<Rightarrow> ret = - 1 \<and> (\<exists>ys. stk L' = stk L @ ys @ [LStr m])
      | None \<Rightarrow> ret = 1 \<and> (\<exists>v. stk L' = stk L @ [v] \<and> denotes (fresh_part (tbl L') (dom (tbl L))) v r)"
    using assms unfolding pushed_ok_def by blast
  have keep: "tbl L' p = tbl L p" if "tbl L p \<noteq> None" for p
    using 1(2) that by (auto simp: map_le_def dom_def)
  show thesis using 1 keep that by (cases "first_error r") auto
qed

lemma push_pair_pushed:
  assumes IH: "\<And>e L. e \<in> {k, v} \<Longrightarrow> pushed_ok stk tbl L (raincall_push_reply api L e) e"
    and top: "stk L = xs @ [LTab q]" "tbl L q = Some t"
  shows "pair_pushed stk tbl xs q t pair k v L (push_pair api L pair k v)"
proof -
  obtain p where p: "tbl L p = None" "stk (mq_newtable api L) = stk L @ [LTab p]"
    "tbl (mq_newtable api L) = (tbl L)(p := Some (\<lambda>k. None))" using newtable by blast
  let ?A = "mq_newtable api L"
  have pq: "p \<noteq> q" using p(1) top(2) by auto
  show ?thesis using IH[of k ?A, simplified]
  proof (cases rule: pushed_okE)
    case (err B m ys)
    then show ?thesis using p top by (auto simp: pair_pushed_def push_pair_def)
  next
    case (ok B vk)
    let ?C = "mq_setfield api B (- 2) ''key''"
    have C: "stk ?C = xs @ [LTab q, LTab p]" "tbl ?C = (tbl B)(p := Some (tset (\<lambda>k. None) (KStr ''key'') vk))"
      using setfield[of B "xs @ [LTab q]" p vk "\<lambda>k. None" "''key''"] ok p top by auto
    have keepB: "tbl B r = tbl L r" if "tbl L r \<noteq> None" for r
      using ok(5)[of r] that p by (auto split: if_splits)
    note okB = ok
    show ?thesis using IH[of v ?C, simplified]
    proof (cases rule: pushed_okE)
      case (err E m ys)
      then show ?thesis using okB C keepB p top pq
        by (auto simp: pair_pushed_def push_pair_def split: if_splits)
    next
      case (ok E vv)
      let ?kt = "tset (\<lambda>k. None) (KStr ''key'') vk"
      let ?F = "mq_setfield api E (- 2) ''value''" and ?pt = "tset ?kt (KStr ''value'') vv"
      have Ep: "tbl E p = Some ?kt" using ok(5)[of p] C by simp
      have F: "stk ?F = xs @ [LTab q, LTab p]" "tbl ?F = (tbl E)(p := Some ?pt)"
        using setfield[of E "xs @ [LTab q]" p vv ?kt "''value''"] ok C Ep by auto
      have Eq: "tbl E q = Some t" using ok(5)[of q] C keepB[of q] top(2) pq by simp
      let ?G = "mq_seti api ?F (- 2) pair"
      have G: "stk ?G = xs @ [LTab q]" "tbl ?G = (tbl E)(p := Some ?pt, q := Some (tset t (KInt pair) (LTab p)))"
        using seti[of ?F xs q "LTab p" t pair] F Eq pq by auto
      have run: "push_pair api L pair k v = Some (?G, 1)" using okB ok by (simp add: push_pair_def)
      have keepE: "tbl E r = tbl B r" if "tbl B r \<noteq> None" "r \<noteq> p" for r
        using ok(5)[of r] C that by auto
      have le1: "fresh_part (tbl B) (dom (tbl ?A)) \<subseteq>\<^sub>m fresh_part (tbl ?G) (dom (tbl L))"
        using p top keepE by (intro fresh_part_le) (auto simp: G)
      have le2: "fresh_part (tbl E) (dom (tbl ?C)) \<subseteq>\<^sub>m fresh_part (tbl ?G) (dom (tbl L))"
        using p top C keepB keepB[of q] by (intro fresh_part_le) (auto simp: G)
      have d: "denotes (fresh_part (tbl ?G) (dom (tbl L))) (tget ?pt (KStr ''key'')) k"
        "denotes (fresh_part (tbl ?G) (dom (tbl L))) (tget ?pt (KStr ''value'')) v"
        using denotes_mono(1)[OF le1 okB(4)] denotes_mono(1)[OF le2 ok(4)] by (simp_all add: tget_tset)
      have "tbl ?G p = Some ?pt" "tbl ?G q = Some (tset t (KInt pair) (LTab p))" using pq by (simp_all add: G)
      then have ex: "\<exists>p pt. tbl L p = None \<and> tbl ?G p = Some pt \<and> tbl ?G q = Some (tset t (KInt pair) (LTab p)) \<and>
          denotes (fresh_part (tbl ?G) (dom (tbl L))) (tget pt (KStr ''key'')) k \<and>
          denotes (fresh_part (tbl ?G) (dom (tbl L))) (tget pt (KStr ''value'')) v"
        using p(1) d by blast
      have keep: "\<forall>r. r \<noteq> q \<longrightarrow> tbl L r \<noteq> None \<longrightarrow> tbl ?G r = tbl L r"
        using keepE keepB p(1) by (auto simp: G)
      show ?thesis unfolding pair_pushed_def run okB(2) ok(2) option.case
        by (rule exI[of _ ?G], rule exI[of _ 1]) (use keep ex G(1) in blast)
    qed
  qed
qed
end

lemma even_list_induct [consumes 1, case_names Nil Cons2]:
  assumes "even (length xs)" "P []" "\<And>a b xs. even (length xs) \<Longrightarrow> P xs \<Longrightarrow> P (a # b # xs)"
  shows "P xs"
  using assms(1)
proof (induction "length xs" arbitrary: xs rule: less_induct)
  case less
  show ?case
  proof (cases xs)
    case Nil
    then show ?thesis using assms(2) by simp
  next
    case (Cons a ys)
    then obtain b zs where "ys = b # zs" using less.prems by (cases ys) auto
    then show ?thesis using Cons less assms(3) by simp
  qed
qed

lemma filled_okI_ok:
  assumes "res = Some (L', 1)" "\<And>p. p \<noteq> q \<Longrightarrow> tbl L p \<noteq> None \<Longrightarrow> tbl L' p = tbl L p" "stk L' = xs @ [LTab q]"
    "tbl L' q = Some t'" "\<And>j. j < i \<Longrightarrow> tget t' (KInt j) = tget t (KInt j)" "P (fresh_part (tbl L') D) t'"
  shows "filled_ok stk tbl D xs q i t P None L res"
  unfolding filled_ok_def using assms by auto

context moonquakes
begin

lemma push_pairs_filled:
  assumes "even (length es)"
    "\<And>e L. Some e \<in> set es \<Longrightarrow> full_reply e \<Longrightarrow> pushed_ok stk tbl L (raincall_push_reply api L e) e"
    "full_elements es" "stk L = xs @ [LTab q]" "tbl L q = Some t" "\<forall>j \<ge> i. tget t (KInt j) = LNil"
    "D \<subseteq> dom (tbl L)" "q \<notin> D"
  shows "filled_ok stk tbl D xs q i t (\<lambda>T t'. denotes_pairs T t' i es) (first_error_in es) L
    (push_pairs api L i (length es) es)"
  using assms
proof (induction es arbitrary: L t i rule: even_list_induct)
  case Nil
  then show ?case by (auto simp: filled_ok_def)
next
  case (Cons2 a b es)
  then obtain k v where ab: "a = Some k" "b = Some v" by (cases a; cases b) auto
  have fe: "full_reply k" "full_reply v" "full_elements es" using Cons2.prems(2) ab by auto
  have "pair_pushed stk tbl xs q t i k v L (push_pair api L i k v)"
    using Cons2.prems(1) ab fe(1,2) by (intro push_pair_pushed[OF _ Cons2.prems(3,4)]) auto
  then obtain L1 ret where 1: "push_pair api L i k v = Some (L1, ret)"
    "\<forall>p. p \<noteq> q \<longrightarrow> tbl L p \<noteq> None \<longrightarrow> tbl L1 p = tbl L p"
    "case (case first_error k of Some m \<Rightarrow> Some m | None \<Rightarrow> first_error v) of
        Some m \<Rightarrow> ret = - 1 \<and> (\<exists>ys. stk L1 = xs @ ys @ [LStr m])
      | None \<Rightarrow> ret = 1 \<and> stk L1 = xs @ [LTab q] \<and>
          (\<exists>p pt. tbl L p = None \<and> tbl L1 p = Some pt \<and> tbl L1 q = Some (tset t (KInt i) (LTab p)) \<and>
             denotes (fresh_part (tbl L1) (dom (tbl L))) (tget pt (KStr ''key'')) k \<and>
             denotes (fresh_part (tbl L1) (dom (tbl L))) (tget pt (KStr ''value'')) v)"
    unfolding pair_pushed_def by blast
  show ?case
  proof (cases "case first_error k of Some m \<Rightarrow> Some m | None \<Rightarrow> first_error v")
    case (Some m)
    then have "first_error_in (a # b # es) = Some m" using ab by (auto split: option.splits)
    moreover have "push_pairs api L i (length (a # b # es)) (a # b # es) = Some (L1, - 1)"
      using 1(1,3) Some ab push_pairs_step[of api L i "length es" k v es] by simp
    ultimately show ?thesis using 1(2,3) Some by (auto simp: filled_ok_def)
  next
    case None
    then have e: "first_error_in (a # b # es) = first_error_in es" using ab by (auto split: option.splits)
    obtain p pt where p: "ret = 1" "stk L1 = xs @ [LTab q]" "tbl L p = None" "tbl L1 p = Some pt"
      "tbl L1 q = Some (tset t (KInt i) (LTab p))"
      "denotes (fresh_part (tbl L1) (dom (tbl L))) (tget pt (KStr ''key'')) k"
      "denotes (fresh_part (tbl L1) (dom (tbl L))) (tget pt (KStr ''value'')) v"
      using 1(3) None by auto
    have run: "push_pairs api L i (length (a # b # es)) (a # b # es) = push_pairs api L1 (i + 1) (length es) es"
      using 1(1) p(1) ab push_pairs_step[of api L i "length es" k v es] by simp
    let ?t1 = "tset t (KInt i) (LTab p)"
    have D1: "D \<subseteq> dom (tbl L1)"
    proof
      fix x assume "x \<in> D"
      then have "x \<noteq> q" "tbl L x \<noteq> None" using Cons2.prems(6,7) by auto
      then show "x \<in> dom (tbl L1)" using 1(2) by (metis domIff)
    qed
    have "filled_ok stk tbl D xs q (i + 1) ?t1 (\<lambda>T t'. denotes_pairs T t' (i + 1) es) (first_error_in es) L1
        (push_pairs api L1 (i + 1) (length es) es)"
      using Cons2.prems(1,5,7) fe(3) p(2,5) D1 by (intro Cons2.IH) (auto simp: tget_tset)
    then obtain L' ret' where R: "push_pairs api L1 (i + 1) (length es) es = Some (L', ret')"
      "\<forall>p. p \<noteq> q \<longrightarrow> tbl L1 p \<noteq> None \<longrightarrow> tbl L' p = tbl L1 p"
      "case first_error_in es of
        Some m \<Rightarrow> ret' = - 1 \<and> (\<exists>ys. stk L' = xs @ ys @ [LStr m])
      | None \<Rightarrow> ret' = 1 \<and> stk L' = xs @ [LTab q] \<and>
          (\<exists>t'. tbl L' q = Some t' \<and> (\<forall>j < i + 1. tget t' (KInt j) = tget ?t1 (KInt j)) \<and>
             denotes_pairs (fresh_part (tbl L') D) t' (i + 1) es)"
      unfolding filled_ok_def by blast
    have frame: "\<forall>r. r \<noteq> q \<longrightarrow> tbl L r \<noteq> None \<longrightarrow> tbl L' r = tbl L r" using R(2) 1(2) by auto
    show ?thesis
    proof (cases "first_error_in es")
      case (Some m)
      then show ?thesis using run R frame e by (auto simp: filled_ok_def)
    next
      case N: None
      then obtain t' where t': "ret' = 1" "stk L' = xs @ [LTab q]" "tbl L' q = Some t'"
        "\<forall>j < i + 1. tget t' (KInt j) = tget ?t1 (KInt j)"
        "denotes_pairs (fresh_part (tbl L') D) t' (i + 1) es" using R(3) by auto
      have qp: "p \<noteq> q" "p \<notin> D" using p(3) Cons2.prems(4,6) by auto
      have le: "fresh_part (tbl L1) (dom (tbl L)) \<subseteq>\<^sub>m fresh_part (tbl L') D"
        using Cons2.prems(4,6) R(2) by (intro fresh_part_le) auto
      have "fresh_part (tbl L') D p = Some pt" using R(2) p(4) qp by (simp add: restrict_map_def)
      moreover have "tget t' (KInt i) = LTab p" using t'(4) by (simp add: tget_tset)
      ultimately have "denotes_pairs (fresh_part (tbl L') D) t' i (a # b # es)"
        using ab t'(5) denotes_mono(1)[OF le p(6)] denotes_mono(1)[OF le p(7)] by auto
      moreover have "tget t' (KInt j) = tget t (KInt j)" if "j < i" for j using t'(4) that by (simp add: tget_tset)
      ultimately show ?thesis unfolding e N run
        using R(1) t'(1-3) frame by (intro filled_okI_ok[where L' = L' and t' = t']) auto
    qed
  qed
qed

lemma filled_okE:
  assumes "filled_ok stk tbl D xs q i t P err L res"
  obtains (ok) L' t' where "res = Some (L', 1)" "err = None" "\<And>p. p \<noteq> q \<Longrightarrow> tbl L p \<noteq> None \<Longrightarrow> tbl L' p = tbl L p"
      "stk L' = xs @ [LTab q]" "tbl L' q = Some t'" "P (fresh_part (tbl L') D) t'"
  | (err) L' m ys where "res = Some (L', - 1)" "err = Some m"
      "\<And>p. p \<noteq> q \<Longrightarrow> tbl L p \<noteq> None \<Longrightarrow> tbl L' p = tbl L p" "stk L' = xs @ ys @ [LStr m]"
  using assms unfolding filled_ok_def by (cases err) auto

text \<open>From the loop to the reply: the new table is fresh and the loop leaves the old ones alone.\<close>

lemma pushed_ok_table:
  assumes "filled_ok stk tbl (dom (tbl L)) (stk L) q i (\<lambda>k. None) P err (mq_newtable api L) res"
    "tbl L q = None" "tbl (mq_newtable api L) = (tbl L)(q := Some (\<lambda>k. None))" "first_error r = err"
    "\<And>T t'. T q = Some t' \<Longrightarrow> P T t' \<Longrightarrow> denotes T (LTab q) r"
  shows "pushed_ok stk tbl L res r"
proof -
  have le: "tbl L \<subseteq>\<^sub>m tbl L'" if "\<And>p. p \<noteq> q \<Longrightarrow> tbl (mq_newtable api L) p \<noteq> None \<Longrightarrow> tbl L' p = tbl (mq_newtable api L) p" for L'
    unfolding map_le_def
  proof
    fix x assume "x \<in> dom (tbl L)"
    then have "x \<noteq> q" "tbl L x \<noteq> None" using assms(2) by auto
    then show "tbl L x = tbl L' x" using that[of x] assms(3) by simp
  qed
  show ?thesis using assms(1)
  proof (cases rule: filled_okE)
    case (ok L' t')
    have "fresh_part (tbl L') (dom (tbl L)) q = Some t'" using ok(5) assms(2) by (simp add: restrict_map_def dom_def)
    then have "denotes (fresh_part (tbl L') (dom (tbl L))) (LTab q) r" using assms(5) ok(6) by blast
    then show ?thesis using ok le[of L'] assms(4) unfolding pushed_ok_def by auto
  next
    case (err L' m ys)
    then show ?thesis using le[of L'] assms(4) unfolding pushed_ok_def by auto
  qed
qed

lemma push_table:
  assumes "\<And>e L. es = Some l \<Longrightarrow> Some e \<in> set l \<Longrightarrow> full_reply e \<Longrightarrow> pushed_ok stk tbl L (raincall_push_reply api L e) e"
    "full_reply (Reply ty str len i d n es fr)"
    "ty \<in> {RAINCALL_REPLY_ARRAY, RAINCALL_REPLY_SET, RAINCALL_REPLY_ATTR, RAINCALL_REPLY_PUSH, RAINCALL_REPLY_MAP}"
    "es = Some l"
  shows "pushed_ok stk tbl L (raincall_push_reply api L (Reply ty str len i d n es fr)) (Reply ty str len i d n es fr)"
proof -
  obtain q where q: "tbl L q = None" "stk (mq_newtable api L) = stk L @ [LTab q]"
    "tbl (mq_newtable api L) = (tbl L)(q := Some (\<lambda>k. None))" using newtable by blast
  have l: "length l = n" "full_elements l" "ty = RAINCALL_REPLY_MAP \<Longrightarrow> even n" using assms(2,4) by auto
  have z: "tget (\<lambda>k. None) (KInt j) = LNil" for j by (simp add: tget_def)
  have D: "dom (tbl L) \<subseteq> dom (tbl (mq_newtable api L))" "q \<notin> dom (tbl L)" using q by auto
  show ?thesis
  proof (cases "ty = RAINCALL_REPLY_MAP")
    case True
    have fill: "filled_ok stk tbl (dom (tbl L)) (stk L) q 1 (\<lambda>k. None) (\<lambda>T t'. denotes_pairs T t' 1 l) (first_error_in l)
        (mq_newtable api L) (push_pairs api (mq_newtable api L) 1 (length l) l)"
      using assms(1,4) l True q z D by (intro push_pairs_filled) auto
    have e: "raincall_push_reply api L (Reply ty str len i d n es fr) = push_pairs api (mq_newtable api L) 1 (length l) l"
      using True assms(4) l(1) by simp
    show ?thesis unfolding e by (rule pushed_ok_table[OF fill q(1,3)]) (use True assms(4) in auto)
  next
    case False
    have fill: "filled_ok stk tbl (dom (tbl L)) (stk L) q (0 + 1) (\<lambda>k. None) (\<lambda>T t'. denotes_elements T t' (0 + 1) l) (first_error_in l)
        (mq_newtable api L) (push_elements api (mq_newtable api L) 0 (length l) l)"
      using assms(1,4) l q z D by (intro push_elements_filled) auto
    have e: "raincall_push_reply api L (Reply ty str len i d n es fr) = push_elements api (mq_newtable api L) 0 (length l) l"
      using False assms(3,4) l(1) by auto
    show ?thesis unfolding e by (rule pushed_ok_table[OF fill q(1,3)]) (use False assms(3,4) in auto)
  qed
qed

lemma push_empty_table:
  assumes "ty \<in> {RAINCALL_REPLY_ARRAY, RAINCALL_REPLY_SET, RAINCALL_REPLY_ATTR, RAINCALL_REPLY_PUSH, RAINCALL_REPLY_MAP}"
  shows "pushed_ok stk tbl L (raincall_push_reply api L (Reply ty str len i d 0 None fr)) (Reply ty str len i d 0 None fr)"
proof -
  obtain q where q: "tbl L q = None" "stk (mq_newtable api L) = stk L @ [LTab q]"
    "tbl (mq_newtable api L) = (tbl L)(q := Some (\<lambda>k. None))" using newtable by blast
  have le: "tbl L \<subseteq>\<^sub>m tbl (mq_newtable api L)" using q by (auto simp: map_le_def)
  have "fresh_part (tbl (mq_newtable api L)) (dom (tbl L)) q = Some (\<lambda>k. None)"
    using q by (simp add: restrict_map_def dom_def)
  then show ?thesis using assms q(2) le unfolding pushed_ok_def by auto
qed

lemma push_reply_ok:
  "full_reply r \<Longrightarrow> pushed_ok stk tbl L (raincall_push_reply api L r) r"
proof (induction r arbitrary: L)
  case (Reply ty str len i d n es fr)
  show ?case
  proof (cases "ty \<in> {RAINCALL_REPLY_ARRAY, RAINCALL_REPLY_SET, RAINCALL_REPLY_ATTR, RAINCALL_REPLY_PUSH, RAINCALL_REPLY_MAP}")
    case False
    have "reply_text str len = Some (case str of None \<Rightarrow> [] | Some s \<Rightarrow> s)"
      using Reply.prems by (auto simp: reply_text_def Let_def split: option.splits)
    then show ?thesis using False
      by (cases ty) (simp_all add: pushed_ok_def push_simps)
  next
    case True
    show ?thesis
    proof (cases es)
      case None
      then show ?thesis using push_empty_table[OF True] Reply.prems by simp
    next
      case (Some l)
      show ?thesis
        by (rule push_table[OF _ Reply.prems True Some]) (use Reply.IH Some in auto)
    qed
  qed
qed
end

end
