(* ===== verification/RaincallHost.thy ===== *)
theory RaincallHost
  imports Raincall
begin

text \<open>
  The host side of \<^verbatim>\<open>src/utils/raincall/raincall.c\<close>: the TCP backend over the hiredis client, the
  state objects and the two global pointers \<open>default_state\<close> and \<open>installed_state\<close>, and the
  Lua functions \<open>RAIN.CALL\<close> and \<open>RAIN.CONNECT\<close>. Addresses of state objects are numbers;
  \<open>rc_states\<close> maps the live ones to their backend. Using or freeing an address that is not live
  has no result (None).
\<close>

section \<open>The TCP backend\<close>

text \<open>The calls of the hiredis client the backend makes; \<open>'n\<close> is the network.\<close>

record ('r, 'n, 'd) hiredis_api =
  redisConnect :: "string \<Rightarrow> int \<Rightarrow> 'n \<Rightarrow> 'r option \<times> 'n"
  redisCommandArgv :: "'r option \<Rightarrow> string list \<Rightarrow> 'n \<Rightarrow> 'd redisReply option \<times> 'r option \<times> 'n"
  redis_err :: "'r \<Rightarrow> bool"
  redis_errstr :: "'r \<Rightarrow> string"
  redisFree :: "'r \<Rightarrow> 'n \<Rightarrow> 'n"

record 'r raincall_TcpBackend =
  tcp_host :: "string option"
  tcp_port :: int
  tcp_redis :: "'r option"
  tcp_error :: string

text \<open>The result of duplicating a C string: the copy, or None when \<^verbatim>\<open>malloc\<close> fails.\<close>

definition raincall_strdup :: "(nat \<Rightarrow> bool) \<Rightarrow> string option \<Rightarrow> heap \<Rightarrow> string option \<times> heap" where
  "raincall_strdup grant s h =
    (case s of
       None \<Rightarrow> (None, h)
     | Some s \<Rightarrow> (case alloc grant Libc h of (ok, h) \<Rightarrow> (if ok then Some (c_str s) else None, h)))"

definition raincall_tcp_set_error :: "'r raincall_TcpBackend \<Rightarrow> string option \<Rightarrow> 'r raincall_TcpBackend" where
  "raincall_tcp_set_error tcp err =
    (let err = (case err of None \<Rightarrow> ''unknown error''
                | Some e \<Rightarrow> if c_str e = [] then ''unknown error'' else e)
     in tcp\<lparr>tcp_error := snprintf_s 256 err\<rparr>)"

definition raincall_tcp_call ::
  "('r, 'n, 'd::zero) hiredis_api \<Rightarrow> (nat \<Rightarrow> bool) \<Rightarrow> 'r raincall_TcpBackend \<Rightarrow> heap \<Rightarrow> 'n \<Rightarrow> string list \<Rightarrow>
   ('r raincall_TcpBackend \<times> heap \<times> 'n \<times> int \<times> 'd raincall_Reply option) option" where
  "raincall_tcp_call hapi grant tcp h n argv =
    (case redisCommandArgv hapi (tcp_redis tcp) argv n of
       (redis_reply, redis, n) \<Rightarrow>
         (let tcp = tcp\<lparr>tcp_redis := redis\<rparr>
          in case redis_reply of
               None \<Rightarrow>
                 (let tcp = (case redis of
                               Some r \<Rightarrow> if c_str (redis_errstr hapi r) \<noteq> []
                                         then raincall_tcp_set_error tcp (Some (redis_errstr hapi r))
                                         else raincall_tcp_set_error tcp (Some ''Redis command failed'')
                             | None \<Rightarrow> raincall_tcp_set_error tcp (Some ''Redis command failed''))
                  in Some (tcp, h, n, - 1, None))
             | Some rep \<Rightarrow>
                 (case raincall_reply_from_hiredis grant (Some rep) h of
                    None \<Rightarrow> None
                  | Some (None, h) \<Rightarrow> Some (raincall_tcp_set_error tcp (Some ''out of memory''), h, n, - 1, None)
                  | Some (Some r, h) \<Rightarrow> Some (tcp, h, n, 0, Some r))))"

definition raincall_tcp_close ::
  "('r, 'n, 'd) hiredis_api \<Rightarrow> 'r raincall_TcpBackend \<Rightarrow> heap \<Rightarrow> 'n \<Rightarrow> heap \<times> 'n" where
  "raincall_tcp_close hapi tcp h n =
    (release Libc (release_ptr Libc (tcp_host tcp \<noteq> None) h),
     case tcp_redis tcp of None \<Rightarrow> n | Some r \<Rightarrow> redisFree hapi r n)"

definition raincall_tcp_open ::
  "('r, 'n, 'd) hiredis_api \<Rightarrow> (nat \<Rightarrow> bool) \<Rightarrow> string option \<Rightarrow> int \<Rightarrow> heap \<Rightarrow> 'n \<Rightarrow>
   'r raincall_TcpBackend option \<times> heap \<times> 'n" where
  "raincall_tcp_open hapi grant host port h n =
    (if host = None \<or> port \<le> 0 \<or> port > 65535 then (None, h, n)
     else
       (case alloc grant Libc h of
          (False, h) \<Rightarrow> (None, h, n)
        | (True, h) \<Rightarrow>
            (case raincall_strdup grant host h of
               (dup, h) \<Rightarrow>
                 let tcp = \<lparr>tcp_host = dup, tcp_port = port, tcp_redis = None, tcp_error = []\<rparr>
                 in if dup = None then
                      (case raincall_tcp_close hapi tcp h n of (h, n) \<Rightarrow> (None, h, n))
                    else
                      (case redisConnect hapi (c_str (the host)) port n of
                         (redis, n) \<Rightarrow>
                           let tcp = tcp\<lparr>tcp_redis := redis\<rparr>
                           in case redis of
                                None \<Rightarrow> (case raincall_tcp_close hapi tcp h n of (h, n) \<Rightarrow> (None, h, n))
                              | Some r \<Rightarrow>
                                  if redis_err hapi r then
                                    (case raincall_tcp_close hapi
                                            (raincall_tcp_set_error tcp (Some (redis_errstr hapi r))) h n of
                                       (h, n) \<Rightarrow> (None, h, n))
                                  else (Some tcp, h, n)))))"

section \<open>States\<close>

text \<open>The vtable of a backend, with the opening of a TCP backend, which yields a backend object
  of the same type.\<close>

record ('b, 'w, 'd) backend_ops =
  bk_call :: "'b \<Rightarrow> heap \<Rightarrow> 'w \<Rightarrow> string list \<Rightarrow> ('b \<times> heap \<times> 'w \<times> int \<times> 'd raincall_Reply option) option"
  bk_error :: "'b \<Rightarrow> string"
  bk_close :: "'b \<Rightarrow> heap \<Rightarrow> 'w \<Rightarrow> heap \<times> 'w"
  bk_tcp_open :: "string option \<Rightarrow> int \<Rightarrow> heap \<Rightarrow> 'w \<Rightarrow> 'b option \<times> heap \<times> 'w"

record ('b, 'w) rc_state =
  rc_default :: "nat option"
  rc_installed :: "nat option"
  rc_states :: "nat \<Rightarrow> 'b option option"
  rc_next :: nat
  rc_heap :: heap
  rc_world :: 'w

text \<open>A new state object with the given backend pointer.\<close>

definition new_state :: "'b option \<Rightarrow> ('b, 'w) rc_state \<Rightarrow> nat \<times> ('b, 'w) rc_state" where
  "new_state b s = (rc_next s, s\<lparr>rc_states := (rc_states s)(rc_next s := Some b), rc_next := Suc (rc_next s)\<rparr>)"

definition raincall_open ::
  "('b, 'w, 'd) backend_ops \<Rightarrow> (nat \<Rightarrow> bool) \<Rightarrow> string option \<Rightarrow> int \<Rightarrow> ('b, 'w) rc_state \<Rightarrow>
   nat option \<times> ('b, 'w) rc_state" where
  "raincall_open ops grant host port s =
    (case alloc grant Libc (rc_heap s) of
       (False, h) \<Rightarrow> (None, s\<lparr>rc_heap := h\<rparr>)
     | (True, h) \<Rightarrow>
         (case bk_tcp_open ops host port h (rc_world s) of
            (None, h, w) \<Rightarrow> (None, s\<lparr>rc_heap := release Libc h, rc_world := w\<rparr>)
          | (Some b, h, w) \<Rightarrow>
              (case new_state (Some b) (s\<lparr>rc_heap := h, rc_world := w\<rparr>) of (R, s) \<Rightarrow> (Some R, s))))"

definition raincall_open_backend ::
  "(nat \<Rightarrow> bool) \<Rightarrow> 'b option \<Rightarrow> ('b, 'w) rc_state \<Rightarrow> nat option \<times> ('b, 'w) rc_state" where
  "raincall_open_backend grant b s =
    (if b = None then (None, s)
     else
       (case alloc grant Libc (rc_heap s) of
          (False, h) \<Rightarrow> (None, s\<lparr>rc_heap := h\<rparr>)
        | (True, h) \<Rightarrow> (case new_state b (s\<lparr>rc_heap := h\<rparr>) of (R, s) \<Rightarrow> (Some R, s))))"

definition raincall_close ::
  "('b, 'w, 'd) backend_ops \<Rightarrow> nat option \<Rightarrow> ('b, 'w) rc_state \<Rightarrow> ('b, 'w) rc_state option" where
  "raincall_close ops R s =
    (case R of
       None \<Rightarrow> Some s
     | Some a \<Rightarrow>
         (case rc_states s a of
            None \<Rightarrow> None
          | Some backend \<Rightarrow>
              (let (h, w) = (case backend of
                               None \<Rightarrow> (rc_heap s, rc_world s)
                             | Some b \<Rightarrow> bk_close ops b (rc_heap s) (rc_world s))
               in Some (s\<lparr>rc_heap := release Libc h, rc_world := w, rc_states := (rc_states s)(a := None)\<rparr>))))"

definition raincall_get_state ::
  "('b, 'w, 'd) backend_ops \<Rightarrow> (nat \<Rightarrow> bool) \<Rightarrow> ('b, 'w) rc_state \<Rightarrow> nat option \<times> ('b, 'w) rc_state" where
  "raincall_get_state ops grant s =
    (if rc_installed s \<noteq> None then (rc_installed s, s)
     else if rc_default s = None then
       (case raincall_open ops grant (Some ''127.0.0.1'') 6379 s of
          (R, s) \<Rightarrow> (R, s\<lparr>rc_default := R\<rparr>))
     else (rc_default s, s))"

section \<open>The Lua functions\<close>

definition raincall_raise_redis ::
  "('L, 'd) mq_api \<Rightarrow> ('b, 'w, 'd) backend_ops \<Rightarrow> 'L \<Rightarrow> 'b option \<Rightarrow> string \<Rightarrow> 'L \<times> int" where
  "raincall_raise_redis api ops L backend prefix =
    (let err = (case backend of
                  None \<Rightarrow> ''unknown error''
                | Some b \<Rightarrow> if c_str (bk_error ops b) \<noteq> [] then bk_error ops b else ''unknown error'')
     in raincall_raise api L (snprintf_s 512 (prefix @ '': '' @ c_str err)))"

text \<open>The loop that reads the arguments: None when one is neither a string nor a number.\<close>

fun read_args :: "('L, 'd) mq_api \<Rightarrow> 'L \<Rightarrow> int \<Rightarrow> nat \<Rightarrow> string list option \<times> 'L" where
  "read_args api L i 0 = (Some [], L)"
| "read_args api L i (Suc n) =
    (case mq_tolstring api L (i + 1) of
       (None, L) \<Rightarrow> (None, L)
     | (Some s, L) \<Rightarrow> (case read_args api L (i + 1) n of (r, L) \<Rightarrow> (map_option ((#) s) r, L)))"

definition rain_call ::
  "('L, 'd) mq_api \<Rightarrow> ('b, 'w, 'd) backend_ops \<Rightarrow> (nat \<Rightarrow> bool) \<Rightarrow> 'L \<Rightarrow> ('b, 'w) rc_state \<Rightarrow>
   ('L \<times> ('b, 'w) rc_state \<times> int) option" where
  "rain_call api ops grant L s =
    (let argc = mq_gettop api L;
         raise = (\<lambda>L s msg. case raincall_raise api L msg of (L, r) \<Rightarrow> Some (L, s, r))
     in if argc < 1 then raise L s ''RAIN.CALL: expected command name''
        else
          (case raincall_get_state ops grant s of
             (None, s) \<Rightarrow> raise L s ''RAIN.CALL: Redis backend is not connected''
           | (Some R, s) \<Rightarrow>
               (case alloc grant Libc (rc_heap s) of
                  (ok1, h) \<Rightarrow>
                    case alloc grant Libc h of
                      (ok2, h) \<Rightarrow>
                        let free_both = (\<lambda>h. release_ptr Libc ok2 (release_ptr Libc ok1 h))
                        in if \<not> ok1 \<or> \<not> ok2 then
                             raise L (s\<lparr>rc_heap := free_both h\<rparr>) ''RAIN.CALL: out of memory''
                           else
                             (case read_args api L 0 (nat argc) of
                                (None, L) \<Rightarrow>
                                  raise L (s\<lparr>rc_heap := free_both h\<rparr>)
                                    ''RAIN.CALL: command arguments must be strings or numbers''
                              | (Some argv, L) \<Rightarrow>
                                  (case rc_states s R of
                                     None \<Rightarrow> None
                                   | Some None \<Rightarrow>
                                       raise L (s\<lparr>rc_heap := free_both h\<rparr>)
                                         ''RAIN.CALL: Redis backend is not connected''
                                   | Some (Some b) \<Rightarrow>
                                       (case bk_call ops b h (rc_world s) argv of
                                          None \<Rightarrow> None
                                        | Some (b, h, w, ret, out) \<Rightarrow>
                                            let s = s\<lparr>rc_heap := free_both h, rc_world := w,
                                                      rc_states := (rc_states s)(R := Some (Some b))\<rparr>
                                            in case out of
                                                 None \<Rightarrow>
                                                   (case raincall_raise_redis api ops L (Some b) ''RAIN.CALL'' of
                                                      (L, r) \<Rightarrow> Some (L, s, r))
                                               | Some reply \<Rightarrow>
                                                   if ret \<noteq> 0 then
                                                     (case raincall_raise_redis api ops L (Some b) ''RAIN.CALL'' of
                                                        (L, r) \<Rightarrow> Some (L, s, r))
                                                   else
                                                     (case raincall_push_reply api L reply of
                                                        None \<Rightarrow> None
                                                      | Some (L, r) \<Rightarrow>
                                                          (case raincall_reply_free (Some reply) (rc_heap s) of
                                                             None \<Rightarrow> None
                                                           | Some h \<Rightarrow> Some (L, s\<lparr>rc_heap := h\<rparr>, r)))))))))"

definition rain_connect ::
  "('L, 'd) mq_api \<Rightarrow> ('b, 'w, 'd) backend_ops \<Rightarrow> (nat \<Rightarrow> bool) \<Rightarrow> 'L \<Rightarrow> ('b, 'w) rc_state \<Rightarrow>
   ('L \<times> ('b, 'w) rc_state \<times> int) option" where
  "rain_connect api ops grant L s =
    (case mq_tolstring api L 1 of
       (host, L) \<Rightarrow>
         (let (port, isnum) = mq_tointegerx api L 2;
              raise = (\<lambda>s msg. case raincall_raise api L msg of (L, r) \<Rightarrow> Some (L, s, r))
          in if host = None \<or> the host = [] \<or> \<not> isnum then raise s ''RAIN.CONNECT: expected host and port''
             else if length (the host) > 255 \<or> port \<le> 0 \<or> port > 65535 then
               raise s ''RAIN.CONNECT: invalid host or port''
             else
               (case alloc grant Libc (rc_heap s) of
                  (False, h) \<Rightarrow> raise (s\<lparr>rc_heap := h\<rparr>) ''RAIN.CONNECT: out of memory''
                | (True, h) \<Rightarrow>
                    (case raincall_open ops grant (Some (c_str (the host))) port (s\<lparr>rc_heap := h\<rparr>) of
                       (R, s) \<Rightarrow>
                         let s = s\<lparr>rc_heap := release Libc (rc_heap s)\<rparr>
                         in case R of
                              None \<Rightarrow> raise s ''RAIN.CONNECT: Redis backend is not connected''
                            | Some R \<Rightarrow>
                                (case raincall_close ops (rc_default s) s of
                                   None \<Rightarrow> None
                                 | Some s \<Rightarrow>
                                     Some (mq_pushboolean api L True,
                                           s\<lparr>rc_default := Some R, rc_installed := Some R\<rparr>, 1))))))"

text \<open>The C functions are registered under the numbers 0 (\<open>rain_call\<close>) and 1 (\<open>rain_connect\<close>).\<close>

definition raincall_install_state ::
  "('L, 'd) mq_api \<Rightarrow> 'L \<Rightarrow> nat option \<Rightarrow> ('b, 'w) rc_state \<Rightarrow> 'L \<times> ('b, 'w) rc_state \<times> int" where
  "raincall_install_state api L R s =
    (let L = mq_newtable api L;
         L = mq_setfield api (mq_pushcfunction api L 0) (- 2) ''CALL'';
         L = mq_setfield api (mq_pushcfunction api L 1) (- 2) ''CONNECT'';
         L = mq_setglobal api L ''RAIN''
     in (L, s\<lparr>rc_installed := R\<rparr>, 0))"

definition raincall_install ::
  "('L, 'd) mq_api \<Rightarrow> 'L \<Rightarrow> ('b, 'w) rc_state \<Rightarrow> 'L \<times> ('b, 'w) rc_state \<times> int" where
  "raincall_install api L s = raincall_install_state api L (rc_default s) s"

section \<open>The contract of a backend\<close>

text \<open>\<open>sz\<close> gives the blocks a backend object owns in each allocator.\<close>

locale raincall_backend =
  fixes ops :: "('b, 'w, 'd) backend_ops"
    and sz :: "'b \<Rightarrow> allocator \<Rightarrow> int"
  assumes call_total: "argv \<noteq> [] \<Longrightarrow> bk_call ops b h w argv \<noteq> None"
    and call_size: "bk_call ops b h w argv = Some (b', h', w', ret, out) \<Longrightarrow> sz b' = sz b"
    and call_error: "bk_call ops b h w argv = Some (b', h', w', ret, None) \<Longrightarrow>
        hp_live h' = hp_live h \<and> ret \<noteq> 0 \<and> c_str (bk_error ops b') \<noteq> []"
    and call_reply: "bk_call ops b h w argv = Some (b', h', w', ret, Some r) \<Longrightarrow>
        ret = 0 \<and> full_reply r \<and> (\<exists>k. wf_reply k r \<and> raised k (reply_blocks r) h h')"
    and close_size: "bk_close ops b h w = (h', w') \<Longrightarrow> hp_live h' = (\<lambda>k. hp_live h k - sz b k)"
    and open_none: "bk_tcp_open ops host port h w = (None, h', w') \<Longrightarrow> hp_live h' = hp_live h"
    and open_some: "bk_tcp_open ops host port h w = (Some b, h', w') \<Longrightarrow>
        hp_live h' = (\<lambda>k. hp_live h k + sz b k)"

section \<open>The invariant of the host\<close>

definition state_blocks :: "('b \<Rightarrow> allocator \<Rightarrow> int) \<Rightarrow> 'b option option \<Rightarrow> allocator \<Rightarrow> int" where
  "state_blocks sz st k =
    (case st of
       None \<Rightarrow> 0
     | Some b \<Rightarrow> (if k = Libc then 1 else 0) + (case b of None \<Rightarrow> 0 | Some b \<Rightarrow> sz b k))"

text \<open>Every live block belongs to a live state object, on top of the \<open>base\<close> the rest of the
  program holds; addresses not yet handed out are not live.\<close>

definition ledger_ok ::
  "('b \<Rightarrow> allocator \<Rightarrow> int) \<Rightarrow> (allocator \<Rightarrow> int) \<Rightarrow> ('b, 'w) rc_state \<Rightarrow> bool" where
  "ledger_ok sz base s \<longleftrightarrow>
     (\<forall>a \<ge> rc_next s. rc_states s a = None) \<and>
     (\<forall>k. hp_live (rc_heap s) k = base k + (\<Sum>a < rc_next s. state_blocks sz (rc_states s a) k))"

definition live_ptr :: "('b, 'w) rc_state \<Rightarrow> nat option \<Rightarrow> bool" where
  "live_ptr s R \<longleftrightarrow> (case R of None \<Rightarrow> True | Some a \<Rightarrow> rc_states s a \<noteq> None)"

definition host_inv ::
  "('b \<Rightarrow> allocator \<Rightarrow> int) \<Rightarrow> (allocator \<Rightarrow> int) \<Rightarrow> ('b, 'w) rc_state \<Rightarrow> bool" where
  "host_inv sz base s \<longleftrightarrow>
     ledger_ok sz base s \<and> live_ptr s (rc_default s) \<and> live_ptr s (rc_installed s)"

inductive host_step ::
  "('L, 'd) mq_api \<Rightarrow> ('b, 'w, 'd) backend_ops \<Rightarrow> (nat \<Rightarrow> bool) \<Rightarrow>
   'L \<times> ('b, 'w) rc_state \<Rightarrow> 'L \<times> ('b, 'w) rc_state \<Rightarrow> bool"
  for api ops grant where
  call: "rain_call api ops grant L s = Some (L', s', r) \<Longrightarrow> host_step api ops grant (L, s) (L', s')"
| connect: "rain_connect api ops grant L s = Some (L', s', r) \<Longrightarrow> host_step api ops grant (L, s) (L', s')"
| install: "raincall_install api L s = (L', s', r) \<Longrightarrow> host_step api ops grant (L, s) (L', s')"
| install_state: "live_ptr s R \<Longrightarrow> raincall_install_state api L R s = (L', s', r) \<Longrightarrow>
    host_step api ops grant (L, s) (L', s')"
| script: "host_step api ops grant (L, s) (L', s)"

lemma sum_fun_upd:
  fixes f :: "'x \<Rightarrow> int" and n :: nat
  assumes "a < n"
  shows "(\<Sum>i<n. f ((g(a := x)) i)) = (\<Sum>i<n. f (g i)) - f (g a) + f x"
proof -
  have "(\<Sum>i<n. f ((g(a := x)) i)) = f x + (\<Sum>i\<in>{..<n} - {a}. f (g i))"
    using assms by (subst sum.remove[of _ a]) (auto intro!: sum.cong)
  moreover have "(\<Sum>i<n. f (g i)) = f (g a) + (\<Sum>i\<in>{..<n} - {a}. f (g i))"
    using assms by (subst sum.remove[of _ a]) auto
  ultimately show ?thesis by simp
qed

lemma alloc_live: "alloc grant k h = (ok, h') \<Longrightarrow> hp_live h' = (\<lambda>j. hp_live h j + (if ok \<and> j = k then 1 else 0))"
  by (auto simp: alloc_def Let_def split: if_splits)

lemma lower_live: "hp_live (lower k n h) = (\<lambda>j. hp_live h j - (if j = k then n else 0))"
  by (auto simp: lower_def)

lemma raised_live: "raised k n h h' \<Longrightarrow> hp_live h' = (\<lambda>j. hp_live h j + (if j = k then n else 0))"
  by (auto simp: raised_def)

lemma ledger_heap:
  "ledger_ok sz base s \<Longrightarrow> hp_live h = hp_live (rc_heap s) \<Longrightarrow> ledger_ok sz base (s\<lparr>rc_heap := h\<rparr>)"
  by (simp add: ledger_ok_def)

lemma ledger_pointers [simp]:
  "ledger_ok sz base (s\<lparr>rc_default := d\<rparr>) = ledger_ok sz base s"
  "ledger_ok sz base (s\<lparr>rc_installed := i\<rparr>) = ledger_ok sz base s"
  "ledger_ok sz base (s\<lparr>rc_world := w\<rparr>) = ledger_ok sz base s"
  by (simp_all add: ledger_ok_def)

lemma live_ptr_simps [simp]:
  "live_ptr s None" "live_ptr s (Some a) = (rc_states s a \<noteq> None)"
  "live_ptr (s\<lparr>rc_default := d\<rparr>) R = live_ptr s R" "live_ptr (s\<lparr>rc_installed := d\<rparr>) R = live_ptr s R"
  "live_ptr (s\<lparr>rc_world := w\<rparr>) R = live_ptr s R" "live_ptr (s\<lparr>rc_heap := h\<rparr>) R = live_ptr s R"
  by (simp_all add: live_ptr_def split: option.split)

lemma ledger_live_less: "ledger_ok sz base s \<Longrightarrow> rc_states s a \<noteq> None \<Longrightarrow> a < rc_next s"
  by (meson ledger_ok_def not_le)

text \<open>Replacing the backend object of a live state, and adding or removing a state, with the
  matching change of the heap.\<close>

lemma ledger_update:
  assumes "ledger_ok sz base s" "rc_states s a \<noteq> None"
    "\<And>k. hp_live h k = hp_live (rc_heap s) k - state_blocks sz (rc_states s a) k + state_blocks sz st k"
  shows "ledger_ok sz base (s\<lparr>rc_heap := h, rc_world := w, rc_states := (rc_states s)(a := st)\<rparr>)"
proof -
  have a: "a < rc_next s" using assms(1,2) by (rule ledger_live_less)
  have "(\<Sum>i<rc_next s. state_blocks sz (((rc_states s)(a := st)) i) k) =
      (\<Sum>i<rc_next s. state_blocks sz (rc_states s i) k) - state_blocks sz (rc_states s a) k +
      state_blocks sz st k" for k
    by (rule sum_fun_upd[OF a])
  moreover have "\<forall>i \<ge> rc_next s. ((rc_states s)(a := st)) i = None"
    using assms(1) a by (auto simp: ledger_ok_def)
  ultimately show ?thesis using assms(1,3) by (simp add: ledger_ok_def del: fun_upd_apply)
qed

lemma ledger_new_state:
  assumes "ledger_ok sz base s"
    "\<And>k. hp_live h k = hp_live (rc_heap s) k + state_blocks sz (Some b) k"
    "new_state b (s\<lparr>rc_heap := h, rc_world := w\<rparr>) = (R, s')"
  shows "ledger_ok sz base s' \<and> rc_states s R = None \<and> rc_states s' = (rc_states s)(R := Some b) \<and>
    rc_default s' = rc_default s \<and> rc_installed s' = rc_installed s"
  using assms by (auto simp: ledger_ok_def new_state_def)

context raincall_backend
begin

lemma open_ok:
  assumes "ledger_ok sz base s" "raincall_open ops grant host port s = (R, s')"
  shows "ledger_ok sz base s' \<and> rc_default s' = rc_default s \<and> rc_installed s' = rc_installed s \<and>
    (case R of None \<Rightarrow> rc_states s' = rc_states s
     | Some a \<Rightarrow> rc_states s a = None \<and> (\<exists>b. rc_states s' = (rc_states s)(a := Some b)))"
proof -
  obtain ok h1 where a: "alloc grant Libc (rc_heap s) = (ok, h1)" by fastforce
  note l1 = alloc_live[OF a]
  show ?thesis
  proof (cases ok)
    case False
    then have "R = None" "s' = s\<lparr>rc_heap := h1\<rparr>" using assms(2) a by (auto simp: raincall_open_def)
    then show ?thesis using assms(1) l1 False by (auto intro: ledger_heap)
  next
    case True
    obtain ob h2 w where o: "bk_tcp_open ops host port h1 (rc_world s) = (ob, h2, w)" by (metis prod_cases3)
    show ?thesis
    proof (cases ob)
      case None
      then have "R = None" "s' = s\<lparr>rc_heap := release Libc h2, rc_world := w\<rparr>"
        using assms(2) a o True by (auto simp: raincall_open_def)
      moreover have "hp_live (release Libc h2) = hp_live (rc_heap s)"
        using open_none[of host port h1 "rc_world s" h2 w] o None l1 True by (simp add: lower_live)
      ultimately show ?thesis using assms(1) by (simp add: ledger_heap)
    next
      case (Some b)
      then obtain r where n: "new_state (Some b) (s\<lparr>rc_heap := h2, rc_world := w\<rparr>) = (r, s')" "R = Some r"
        using assms(2) a o True by (auto simp: raincall_open_def split: prod.splits)
      have "\<And>k. hp_live h2 k = hp_live (rc_heap s) k + state_blocks sz (Some (Some b)) k"
        using open_some[of host port h1 "rc_world s" b h2 w] o Some l1 True by (simp add: state_blocks_def)
      from ledger_new_state[OF assms(1) this n(1)] show ?thesis using n(2) by auto
    qed
  qed
qed

lemma close_ok:
  assumes "ledger_ok sz base s" "live_ptr s R"
  shows "\<exists>s'. raincall_close ops R s = Some s' \<and> ledger_ok sz base s' \<and>
    rc_installed s' = rc_installed s \<and> (\<forall>a. R \<noteq> Some a \<longrightarrow> rc_states s' a = rc_states s a)"
proof (cases R)
  case None
  then show ?thesis using assms by (simp add: raincall_close_def)
next
  case (Some a)
  then obtain backend where b: "rc_states s a = Some backend" using assms(2) by auto
  obtain h w where c: "(case backend of None \<Rightarrow> (rc_heap s, rc_world s)
      | Some b \<Rightarrow> bk_close ops b (rc_heap s) (rc_world s)) = (h, w)" by fastforce
  have "hp_live (release Libc h) k = hp_live (rc_heap s) k - state_blocks sz (rc_states s a) k + state_blocks sz None k" for k
    using c b close_size by (auto simp: state_blocks_def lower_live split: option.splits)
  then have "ledger_ok sz base (s\<lparr>rc_heap := release Libc h, rc_world := w, rc_states := (rc_states s)(a := None)\<rparr>)"
    using b by (intro ledger_update assms(1)) auto
  then show ?thesis using b c Some by (auto simp: raincall_close_def)
qed

lemma get_state_ok:
  assumes "host_inv sz base s" "raincall_get_state ops grant s = (R, s')"
  shows "host_inv sz base s' \<and> live_ptr s' R \<and>
    (rc_installed s \<noteq> None \<longrightarrow> R = rc_installed s \<and> s' = s)"
proof -
  consider "rc_installed s \<noteq> None" | "rc_installed s = None" "rc_default s \<noteq> None"
    | "rc_installed s = None" "rc_default s = None" by blast
  then show ?thesis
  proof cases
    case 3
    obtain r s1 where o: "raincall_open ops grant (Some ''127.0.0.1'') 6379 s = (r, s1)" by fastforce
    then have e: "R = r" "s' = s1\<lparr>rc_default := r\<rparr>" using assms(2) 3 by (auto simp: raincall_get_state_def)
    have "ledger_ok sz base s" using assms(1) by (simp add: host_inv_def)
    from open_ok[OF this o] show ?thesis using e 3 by (auto simp: host_inv_def split: option.splits)
  qed (use assms in \<open>auto simp: raincall_get_state_def host_inv_def\<close>)
qed

lemma connect_ok:
  assumes "host_inv sz base s"
  shows "\<exists>L' s' r. rain_connect api ops grant L s = Some (L', s', r) \<and> host_inv sz base s' \<and> (r = 1 \<or> r = - 1)"
proof -
  obtain host L1 where t: "mq_tolstring api L 1 = (host, L1)" by fastforce
  obtain port isnum where p: "mq_tointegerx api L1 2 = (port, isnum)" by fastforce
  obtain ok h where a: "alloc grant Libc (rc_heap s) = (ok, h)" by fastforce
  obtain R s1 where o: "raincall_open ops grant (Some (c_str (the host))) port (s\<lparr>rc_heap := h\<rparr>) = (R, s1)" by fastforce
  note d = rain_connect_def raincall_raise_def t p a o Let_def
  show ?thesis
  proof (cases "host = None \<or> the host = [] \<or> \<not> isnum \<or> length (the host) > 255 \<or> port \<le> 0 \<or> port > 65535 \<or> \<not> ok")
    case True
    have "host_inv sz base (s\<lparr>rc_heap := h\<rparr>)" if "\<not> ok"
      using assms that alloc_live[OF a] by (simp add: host_inv_def ledger_heap)
    then show ?thesis using True assms by (cases ok) (auto simp: d)
  next
    case False
    let ?s1 = "s1\<lparr>rc_heap := release Libc (rc_heap s1)\<rparr>"
    have "ledger_ok sz (\<lambda>k. base k + (if k = Libc then 1 else 0)) (s\<lparr>rc_heap := h\<rparr>)"
      using assms alloc_live[OF a] False by (auto simp: host_inv_def ledger_ok_def)
    note O = open_ok[OF this o]
    have L: "ledger_ok sz base ?s1" using O by (auto simp: ledger_ok_def lower_live)
    show ?thesis
    proof (cases R)
      case None
      then show ?thesis using False O L assms by (auto simp: d host_inv_def live_ptr_def split: option.splits)
    next
      case (Some r)
      then obtain b where r: "rc_states s r = None" "rc_states s1 = (rc_states s)(r := Some b)" using O by auto
      have "live_ptr ?s1 (rc_default ?s1)" using O r assms by (auto simp: host_inv_def live_ptr_def split: option.splits)
      from close_ok[OF L this] obtain s2 where s2: "raincall_close ops (rc_default ?s1) ?s1 = Some s2"
        "ledger_ok sz base s2" "\<forall>a. rc_default ?s1 \<noteq> Some a \<longrightarrow> rc_states s2 a = rc_states ?s1 a" by blast
      have "rc_default s \<noteq> Some r" using r assms by (auto simp: host_inv_def)
      then have "rc_states s2 r \<noteq> None" using s2(3) O r by simp
      then show ?thesis using False Some s2 by (auto simp: d host_inv_def)
    qed
  qed
qed

end

section \<open>A call through the host\<close>

locale raincall_host = moonquakes api stk tbl + raincall_backend ops sz
  for api :: "('L, 'd) mq_api" and stk :: "'L \<Rightarrow> 'd lval list" and tbl :: "'L \<Rightarrow> nat \<Rightarrow> 'd ltable option"
    and ops :: "('b, 'w, 'd) backend_ops" and sz :: "'b \<Rightarrow> allocator \<Rightarrow> int"
begin

lemma raise_ok: "raincall_raise api L msg = (L', r) \<Longrightarrow> stk L' = stk L @ [LStr (c_str msg)] \<and> r = - 1"
  by (auto simp: raincall_raise_def pushstring)

lemma read_args_strings:
  "stk L = map LStr (xs @ argv) \<Longrightarrow> read_args api L (int (length xs)) (length argv) = (Some argv, L)"
proof (induction argv arbitrary: xs)
  case (Cons a argv)
  have "mq_tolstring api L (int (length xs) + 1) = (Some a, L)"
    using tolstring[of L "map LStr xs" a "map LStr argv"] Cons.prems by simp
  moreover have "read_args api L (int (length (xs @ [a]))) (length argv) = (Some argv, L)"
    using Cons.prems by (intro Cons.IH) simp
  ultimately show ?case by (simp add: add.commute)
qed simp

lemma read_args_length: "read_args api L i n = (Some argv, L') \<Longrightarrow> length argv = n"
  by (induction api L i n arbitrary: argv L' rule: read_args.induct) (auto split: prod.splits option.splits)

lemma rc_update_order:
  "(s :: ('b, 'w) rc_state)\<lparr>rc_world := w, rc_states := m, rc_heap := h\<rparr> = s\<lparr>rc_heap := h, rc_world := w, rc_states := m\<rparr>"
  by (cases s) simp

text \<open>The part of \<open>rain_call\<close> after the arguments are read.\<close>

definition dispatch where
  "dispatch L s R h argv =
    (case rc_states s R of
       None \<Rightarrow> None
     | Some None \<Rightarrow>
         (case raincall_raise api L ''RAIN.CALL: Redis backend is not connected'' of
            (L, r) \<Rightarrow> Some (L, s\<lparr>rc_heap := lower Libc 2 h\<rparr>, r))
     | Some (Some b) \<Rightarrow>
         (case bk_call ops b h (rc_world s) argv of
            None \<Rightarrow> None
          | Some (b, h, w, ret, out) \<Rightarrow>
              let s = s\<lparr>rc_heap := lower Libc 2 h, rc_world := w, rc_states := (rc_states s)(R := Some (Some b))\<rparr>
              in case out of
                   None \<Rightarrow>
                     (case raincall_raise_redis api ops L (Some b) ''RAIN.CALL'' of (L, r) \<Rightarrow> Some (L, s, r))
                 | Some reply \<Rightarrow>
                     if ret \<noteq> 0 then
                       (case raincall_raise_redis api ops L (Some b) ''RAIN.CALL'' of (L, r) \<Rightarrow> Some (L, s, r))
                     else
                       (case raincall_push_reply api L reply of
                          None \<Rightarrow> None
                        | Some (L, r) \<Rightarrow>
                            (case raincall_reply_free (Some reply) (rc_heap s) of
                               None \<Rightarrow> None
                             | Some h \<Rightarrow> Some (L, s\<lparr>rc_heap := h\<rparr>, r)))))"

lemma rain_call_dispatch:
  assumes "1 \<le> mq_gettop api L" "raincall_get_state ops grant s = (Some R, s1)"
    "alloc grant Libc (rc_heap s1) = (True, h1)" "alloc grant Libc h1 = (True, h2)"
    "read_args api L 0 (nat (mq_gettop api L)) = (Some argv, L1)"
  shows "rain_call api ops grant L s = dispatch L1 s1 R h2 argv"
  using assms unfolding rain_call_def dispatch_def Let_def
  by (simp split: option.split prod.split)

lemma dispatch_ok:
  assumes "host_inv sz base s" "rc_states s R \<noteq> None" "argv \<noteq> []"
    "hp_live h = (\<lambda>k. hp_live (rc_heap s) k + (if k = Libc then 2 else 0))"
  shows "\<exists>L' s' r. dispatch L s R h argv = Some (L', s', r) \<and> host_inv sz base s' \<and> (r = 1 \<or> r = - 1) \<and>
    hp_live (rc_heap s') = hp_live (rc_heap s)"
proof (cases "the (rc_states s R)")
  case None
  have "host_inv sz base (s\<lparr>rc_heap := lower Libc 2 h\<rparr>)"
    using assms by (auto simp: host_inv_def lower_live intro!: ledger_heap)
  then show ?thesis using None assms(2,4) by (auto simp: dispatch_def raincall_raise_def lower_live)
next
  case (Some b)
  then have R: "rc_states s R = Some (Some b)" using assms(2) by auto
  obtain b' h1 w ret out where c: "bk_call ops b h (rc_world s) argv = Some (b', h1, w, ret, out)"
    using call_total[OF assms(3), of b h "rc_world s"] by (metis option.exhaust prod_cases5)
  have upd: "host_inv sz base (s\<lparr>rc_heap := h', rc_world := w, rc_states := (rc_states s)(R := Some (Some b'))\<rparr>)"
    if "hp_live h' = hp_live (rc_heap s)" for h'
    using assms(1) that R call_size[OF c]
    by (auto simp: host_inv_def live_ptr_def state_blocks_def intro!: ledger_update split: option.splits)
  show ?thesis
  proof (cases out)
    case None
    then have "hp_live (lower Libc 2 h1) = hp_live (rc_heap s)"
      using call_error c assms(4) by (auto simp: lower_live)
    then show ?thesis using upd[of "lower Libc 2 h1"] R c None
      by (auto simp: dispatch_def raincall_raise_redis_def raincall_raise_def Let_def)
  next
    case (Some r)
    then obtain k where k: "ret = 0" "full_reply r" "wf_reply k r" "raised k (reply_blocks r) h h1"
      using call_reply c by blast
    obtain L' v where p: "raincall_push_reply api L r = Some (L', v)" "v = 1 \<or> v = - 1"
      using push_reply_ok[OF k(2), of L] by (cases rule: pushed_okE) auto
    let ?h = "lower k (reply_blocks r) (lower Libc 2 h1)"
    have "hp_live ?h = hp_live (rc_heap s)"
      using raised_live[OF k(4)] assms(4) by (auto simp: lower_live)
    then show ?thesis using upd[of ?h] R c Some p k(1) free_wf(1)[OF k(3)]
      by (auto simp: dispatch_def Let_def rc_update_order)
  qed
qed

lemma call_ok:
  assumes "host_inv sz base s"
  shows "\<exists>L' s' r. rain_call api ops grant L s = Some (L', s', r) \<and> host_inv sz base s' \<and> (r = 1 \<or> r = - 1) \<and>
    (rc_installed s \<noteq> None \<longrightarrow> hp_live (rc_heap s') = hp_live (rc_heap s))"
proof (cases "mq_gettop api L < 1")
  case True
  then show ?thesis using assms by (auto simp: rain_call_def raincall_raise_def)
next
  case argc: False
  obtain Ro s1 where g: "raincall_get_state ops grant s = (Ro, s1)" by fastforce
  note G = get_state_ok[OF assms g]
  show ?thesis
  proof (cases Ro)
    case None
    then show ?thesis using argc g G by (auto simp: rain_call_def raincall_raise_def)
  next
    case (Some R)
    obtain ok1 h1 where a1: "alloc grant Libc (rc_heap s1) = (ok1, h1)" by fastforce
    obtain ok2 h2 where a2: "alloc grant Libc h1 = (ok2, h2)" by fastforce
    obtain args L1 where ra: "read_args api L 0 (nat (mq_gettop api L)) = (args, L1)" by fastforce
    let ?h = "release_ptr Libc ok2 (release_ptr Libc ok1 h2)"
    have live: "hp_live ?h = hp_live (rc_heap s1)"
      using alloc_live[OF a1] alloc_live[OF a2] by (auto simp: lower_live)
    have inv: "host_inv sz base (s1\<lparr>rc_heap := ?h\<rparr>)"
      using G live by (simp add: host_inv_def ledger_heap del: lower_simps)
    consider "\<not> (ok1 \<and> ok2)" | "ok1" "ok2" "args = None" | argv where "ok1" "ok2" "args = Some argv" by blast
    then show ?thesis
    proof cases
      case 3
      have h2: "hp_live h2 = (\<lambda>k. hp_live (rc_heap s1) k + (if k = Libc then 2 else 0))"
        using alloc_live[OF a1] alloc_live[OF a2] 3 by auto
      have "argv \<noteq> []" using read_args_length[OF ra[unfolded 3]] argc by auto
      with dispatch_ok[of base s1 R argv h2 L1] h2 G Some
      show ?thesis using rain_call_dispatch[of L grant s R s1 h1 h2 argv L1] argc g a1 a2 ra 3 by auto
    qed (use argc g G Some a1 a2 ra inv live in
        \<open>auto simp: rain_call_def raincall_raise_def Let_def simp del: lower_simps\<close>)
  qed
qed

end

context raincall_host
begin

lemma call_value:
  assumes "host_inv sz base s" "rc_installed s = Some R" "rc_states s R = Some (Some b)"
    "stk L = map LStr argv" "argv \<noteq> []" "\<forall>n. grant n"
  shows "\<exists>h b' h' w' ret out L' s' r.
    bk_call ops b h (rc_world s) argv = Some (b', h', w', ret, out) \<and>
    rain_call api ops grant L s = Some (L', s', r) \<and> rc_world s' = w' \<and>
    (case out of
       None \<Rightarrow> r = - 1 \<and> stk L' = stk L @ [LStr (snprintf_s 512 (''RAIN.CALL: '' @ c_str (bk_error ops b')))]
     | Some reply \<Rightarrow> pushed_ok stk tbl L (Some (L', r)) reply)"
proof -
  obtain ok1 h1 where a1: "alloc grant Libc (rc_heap s) = (ok1, h1)" by fastforce
  obtain ok2 h2 where a2: "alloc grant Libc h1 = (ok2, h2)" by fastforce
  have ok: "ok1" "ok2" using alloc_ok[OF a1] alloc_ok[OF a2] assms(6) by auto
  have "read_args api L 0 (length argv) = (Some argv, L)"
    using read_args_strings[of L "[]" argv] assms(4) by simp
  then have run: "rain_call api ops grant L s = dispatch L s R h2 argv"
    using assms(2,4,5) a1 a2 ok
    by (intro rain_call_dispatch) (auto simp: gettop raincall_get_state_def Suc_le_eq)
  obtain b' h' w' ret out where c: "bk_call ops b h2 (rc_world s) argv = Some (b', h', w', ret, out)"
    using call_total[OF assms(5), of b h2 "rc_world s"] by (metis option.exhaust prod_cases5)
  show ?thesis
  proof (cases out)
    case None
    then show ?thesis using c run assms(3) call_error[of b h2 "rc_world s" argv b' h' w' ret]
      by (intro exI[of _ h2] exI[of _ b'] exI[of _ h'] exI[of _ w'] exI[of _ ret] exI[of _ out])
        (auto simp: dispatch_def raincall_raise_redis_def raincall_raise_def pushstring Let_def)
  next
    case (Some reply)
    then obtain k where k: "ret = 0" "full_reply reply" "wf_reply k reply"
      using call_reply c by blast
    then obtain L' r where p: "raincall_push_reply api L reply = Some (L', r)"
      using push_reply_ok[OF k(2), of L] by (auto simp: pushed_ok_def)
    have "pushed_ok stk tbl L (Some (L', r)) reply" using push_reply_ok[OF k(2), of L] p by simp
    then show ?thesis using c run assms(3) Some p k(1) free_wf(1)[OF k(3)]
      by (intro exI[of _ h2] exI[of _ b'] exI[of _ h'] exI[of _ w'] exI[of _ ret] exI[of _ out])
        (auto simp: dispatch_def Let_def)
  qed
qed

lemma step_inv: "host_step api ops grant p q \<Longrightarrow> host_inv sz base (snd p) \<Longrightarrow> host_inv sz base (snd q)"
proof (induction rule: host_step.induct)
  case (call L s L' s' r)
  then show ?case using call_ok[of base s grant L] by auto
next
  case (connect L s L' s' r)
  then show ?case using connect_ok[of base s api grant L] by auto
qed (auto simp: raincall_install_def raincall_install_state_def host_inv_def)

lemma reach_inv: "(host_step api ops grant)\<^sup>*\<^sup>* p q \<Longrightarrow> host_inv sz base (snd p) \<Longrightarrow> host_inv sz base (snd q)"
  by (induction rule: rtranclp_induct) (auto dest: step_inv)

end

section \<open>The TCP backend keeps the contract\<close>

text \<open>hiredis delivers maps as a flat list of keys and values.\<close>

fun even_maps :: "'d redisReply \<Rightarrow> bool" where
  "even_maps (RedisReply ty i d len s n es) \<longleftrightarrow>
     (ty = 9 \<longrightarrow> even n) \<and> list_all (\<lambda>e. case e of None \<Rightarrow> True | Some r \<Rightarrow> even_maps r) es"

locale hiredis =
  fixes hapi :: "('r, 'n, 'd::zero) hiredis_api"
  assumes reply_wf: "redisCommandArgv hapi c argv n = (Some rep, c', n') \<Longrightarrow> wf_hiredis rep \<and> even_maps rep"

definition raincall_tcp_error :: "'r raincall_TcpBackend \<Rightarrow> string" where
  "raincall_tcp_error tcp = tcp_error tcp"

definition tcp_ops ::
  "('r, 'n, 'd::zero) hiredis_api \<Rightarrow> (nat \<Rightarrow> bool) \<Rightarrow> ('r raincall_TcpBackend, 'n, 'd) backend_ops" where
  "tcp_ops hapi grant = \<lparr>
     bk_call = raincall_tcp_call hapi grant,
     bk_error = raincall_tcp_error,
     bk_close = raincall_tcp_close hapi,
     bk_tcp_open = raincall_tcp_open hapi grant\<rparr>"

definition tcp_size :: "'r raincall_TcpBackend \<Rightarrow> allocator \<Rightarrow> int" where
  "tcp_size tcp k = (if k = Libc then (if tcp_host tcp = None then 1 else 2) else 0)"

lemma full_elements_map:
  "full_elements es \<longleftrightarrow> list_all (\<lambda>e. case e of None \<Rightarrow> False | Some r \<Rightarrow> full_reply r) es"
  by (induction es) (auto split: option.splits)

lemma type_from_hiredis_map: "raincall_reply_type_from_hiredis ty = RAINCALL_REPLY_MAP \<longleftrightarrow> ty = 9"
  by (simp add: raincall_reply_type_from_hiredis_def)

lemma full_hiredis_image: "wf_hiredis s \<Longrightarrow> even_maps s \<Longrightarrow> full_reply (hiredis_image s)"
proof (induction s)
  case (RedisReply ty i d len s n es)
  have "full_reply (hiredis_image r)" if "Some r \<in> set es" for r
    using that RedisReply by (fastforce simp: list_all_iff)
  moreover have "None \<notin> set es" using RedisReply.prems by (fastforce simp: list_all_iff)
  ultimately have "full_elements (map (map_option hiredis_image) es)"
    unfolding full_elements_map list_all_iff by (auto split: option.split) (metis option.exhaust)
  then show ?case using RedisReply.prems by (auto simp: Let_def type_from_hiredis_map)
qed

lemma set_error_fields [simp]:
  "tcp_host (raincall_tcp_set_error tcp e) = tcp_host tcp"
  "tcp_redis (raincall_tcp_set_error tcp e) = tcp_redis tcp"
  by (simp_all add: raincall_tcp_set_error_def Let_def)

lemma set_error_text: "tcp_error (raincall_tcp_set_error tcp e) \<noteq> []"
  by (auto simp: raincall_tcp_set_error_def Let_def snprintf_s_def c_str_def split: option.split)

lemma set_error_c_str: "c_str (tcp_error (raincall_tcp_set_error tcp e)) \<noteq> []"
  using set_error_text[of tcp e] by (simp add: raincall_tcp_set_error_def Let_def)

lemma tcp_close_size:
  "raincall_tcp_close hapi tcp h n = (h', n') \<Longrightarrow> hp_live h' = (\<lambda>k. hp_live h k - tcp_size tcp k)"
  by (auto simp: raincall_tcp_close_def tcp_size_def lower_live)

lemma strdup_live:
  "raincall_strdup grant (Some s) h = (d, h') \<Longrightarrow>
   hp_live h' = (\<lambda>k. hp_live h k + (if d \<noteq> None \<and> k = Libc then 1 else 0))"
  by (auto simp: raincall_strdup_def dest!: alloc_live split: prod.splits if_splits)

lemma tcp_open_live:
  assumes "raincall_tcp_open hapi grant host port h n = (res, h', n')"
  shows "hp_live h' = (\<lambda>k. hp_live h k + (case res of None \<Rightarrow> 0 | Some tcp \<Rightarrow> tcp_size tcp k))"
proof (cases "host = None \<or> port \<le> 0 \<or> port > 65535")
  case True
  then show ?thesis using assms by (auto simp: raincall_tcp_open_def)
next
  case False
  then obtain s where s: "host = Some s" by auto
  obtain ok h1 where a: "alloc grant Libc h = (ok, h1)" by fastforce
  obtain dup h2 where d: "raincall_strdup grant (Some s) h1 = (dup, h2)" by fastforce
  obtain redis n1 where c: "redisConnect hapi (c_str s) port n = (redis, n1)" by fastforce
  note live = alloc_live[OF a] strdup_live[OF d]
  show ?thesis using assms False a d c s live
    by (cases ok; cases dup; cases redis)
      (auto simp: raincall_tcp_open_def Let_def tcp_size_def fun_eq_iff dest!: tcp_close_size split: prod.splits if_splits)
qed

context hiredis
begin

lemma tcp_call_cases:
  assumes "raincall_tcp_call hapi grant tcp h n argv = Some (tcp', h', n', ret, out)"
  shows "tcp_size tcp' = tcp_size tcp \<and>
    (case out of
       None \<Rightarrow> hp_live h' = hp_live h \<and> ret \<noteq> 0 \<and> c_str (tcp_error tcp') \<noteq> []
     | Some r \<Rightarrow> ret = 0 \<and> full_reply r \<and> wf_reply Libc r \<and> raised Libc (reply_blocks r) h h')"
proof -
  obtain rep c n1 where q: "redisCommandArgv hapi (tcp_redis tcp) argv n = (rep, c, n1)" by (metis prod_cases3)
  show ?thesis
  proof (cases rep)
    case None
    then show ?thesis using assms q
      by (auto simp: raincall_tcp_call_def Let_def tcp_size_def fun_eq_iff set_error_c_str split: option.splits if_splits)
  next
    case (Some s)
    then have wf: "wf_hiredis s" "even_maps s" using reply_wf q by auto
    obtain res h1 where f: "raincall_reply_from_hiredis grant (Some s) h = Some (res, h1)"
      using from_hiredis_defined[OF wf(1)] by blast
    note F = from_hiredis_ledger(1)[OF f]
    show ?thesis
    proof (cases res)
      case None
      then show ?thesis using assms q Some f F
        by (auto simp: raincall_tcp_call_def Let_def tcp_size_def fun_eq_iff set_error_c_str raised_def)
    next
      case (Some r)
      then show ?thesis using assms q \<open>rep = Some s\<close> f F full_hiredis_image[OF wf]
        by (auto simp: raincall_tcp_call_def Let_def tcp_size_def fun_eq_iff)
    qed
  qed
qed

lemma tcp_call_total: "raincall_tcp_call hapi grant tcp h n argv \<noteq> None"
proof -
  obtain rep c n1 where q: "redisCommandArgv hapi (tcp_redis tcp) argv n = (rep, c, n1)" by (metis prod_cases3)
  show ?thesis
  proof (cases rep)
    case None
    then show ?thesis using q unfolding raincall_tcp_call_def Let_def by (simp split: option.split)
  next
    case (Some s)
    then have wf: "wf_hiredis s" using reply_wf q by auto
    obtain res h1 where f: "raincall_reply_from_hiredis grant (Some s) h = Some (res, h1)"
      using from_hiredis_defined[OF wf] by blast
    show ?thesis using q Some f unfolding raincall_tcp_call_def Let_def by (cases res) simp_all
  qed
qed

end

sublocale hiredis \<subseteq> tcp: raincall_backend "tcp_ops hapi grant" tcp_size for grant
proof (unfold_locales, goal_cases)
  case (1 argv b h w)
  then show ?case using tcp_call_total by (simp add: tcp_ops_def)
next
  case (2 b h w argv b' h' w' ret out)
  then show ?case using tcp_call_cases[of grant b h w argv b' h' w' ret out] by (simp add: tcp_ops_def)
next
  case (3 b h w argv b' h' w' ret)
  then show ?case using tcp_call_cases[of grant b h w argv b' h' w' ret None]
    by (simp add: tcp_ops_def raincall_tcp_error_def)
next
  case (4 b h w argv b' h' w' ret r)
  then show ?case using tcp_call_cases[of grant b h w argv b' h' w' ret "Some r"] by (auto simp: tcp_ops_def)
next
  case (5 b h w h' w')
  then show ?case using tcp_close_size by (auto simp: tcp_ops_def)
next
  case (6 host port h w h' w')
  then show ?case using tcp_open_live[of hapi grant host port h w None] by (simp add: tcp_ops_def)
next
  case (7 host port h w b h' w')
  then show ?case using tcp_open_live[of hapi grant host port h w "Some b"] by (simp add: tcp_ops_def)
qed

text \<open>A client whose server answers \<open>PING\<close> with \<open>PONG\<close> and fails on everything else; the
  network is the number of connections opened.\<close>

definition ping_client :: "(string, nat, int) hiredis_api" where
  "ping_client = \<lparr>
     redisConnect = (\<lambda>host port n. (Some host, Suc n)),
     redisCommandArgv = (\<lambda>c argv n.
       (if argv = [''PING''] then Some (RedisReply 5 0 0 4 (Some ''PONG'') 0 []) else None, c, n)),
     redis_err = (\<lambda>c. False),
     redis_errstr = (\<lambda>c. []),
     redisFree = (\<lambda>c n. n)\<rparr>"

interpretation ping: hiredis ping_client
  by unfold_locales (auto simp: ping_client_def split: if_splits)

interpretation ping_host: raincall_host machine_api m_stack m_tbl "tcp_ops ping_client (\<lambda>n. True)" tcp_size
  by unfold_locales

definition empty_heap :: heap where
  "empty_heap = \<lparr>hp_live = (\<lambda>k. 0), hp_calls = 0\<rparr>"

definition host_start :: "'w \<Rightarrow> ('b, 'w) rc_state" where
  "host_start w = \<lparr>rc_default = None, rc_installed = None, rc_states = (\<lambda>a. None), rc_next = 0,
     rc_heap = empty_heap, rc_world = w\<rparr>"

lemma host_start_inv: "host_inv sz (\<lambda>k. 0) (host_start w)"
  by (simp add: host_inv_def ledger_ok_def host_start_def empty_heap_def)

section \<open>Properties\<close>

text \<open>C11. Pushing a reply to the machine is faithful. For every reply a backend can produce,
  \<open>raincall_push_reply\<close> ends; existing tables keep their contents; if the reply holds an error,
  the first one in reading order is raised with its own text, and otherwise exactly one value is
  pushed, which denotes the reply: strings, numbers, booleans and nil as themselves, arrays, sets
  and pushes as sequences from 1, maps as sequences of tables with the fields \<open>key\<close> and
  \<open>value\<close>.\<close>

theorem pushed_reply_is_faithful:
  assumes "moonquakes api stk tbl" "full_reply r"
  shows "\<exists>L' ret. raincall_push_reply api L r = Some (L', ret) \<and> tbl L \<subseteq>\<^sub>m tbl L' \<and>
     (case first_error r of
        Some m \<Rightarrow> ret = - 1 \<and> (\<exists>ys. stk L' = stk L @ ys @ [LStr m])
      | None \<Rightarrow> ret = 1 \<and> (\<exists>v. stk L' = stk L @ [v] \<and> denotes (fresh_part (tbl L') (dom (tbl L))) v r))"
  using moonquakes.push_reply_ok[OF assms] unfolding pushed_ok_def .

theorem pushed_reply_is_faithful_witness:
  "\<exists>L' v. raincall_push_reply machine_api \<lparr>m_stack = [], m_tabs = [], m_globals = []\<rparr>
       (Reply RAINCALL_REPLY_MAP None 0 0 (0 :: int) 2
          (Some [Some (Reply RAINCALL_REPLY_STRING (Some ''k'') 1 0 0 0 None None),
                 Some (Reply RAINCALL_REPLY_INTEGER None 0 7 0 0 None None)]) None) = Some (L', 1) \<and>
     m_stack L' = [v] \<and>
     denotes (m_tbl L') v
       (Reply RAINCALL_REPLY_MAP None 0 0 0 2
          (Some [Some (Reply RAINCALL_REPLY_STRING (Some ''k'') 1 0 0 0 None None),
                 Some (Reply RAINCALL_REPLY_INTEGER None 0 7 0 0 None None)]) None)"
proof -
  let ?r = "Reply RAINCALL_REPLY_MAP None 0 0 (0 :: int) 2
      (Some [Some (Reply RAINCALL_REPLY_STRING (Some ''k'') 1 0 0 0 None None),
             Some (Reply RAINCALL_REPLY_INTEGER None 0 7 0 0 None None)]) None"
  let ?L = "\<lparr>m_stack = [], m_tabs = [], m_globals = []\<rparr> :: int machine"
  have "full_reply ?r" "first_error ?r = None" "dom (m_tbl ?L) = {}" by (simp_all add: m_tbl_def dom_def)
  then show ?thesis
    using pushed_reply_is_faithful[OF mq_machine.moonquakes_axioms, of ?r ?L] by auto
qed

text \<open>C4. The host's invariant. Whatever sequence of \<open>RAIN.CALL\<close>, \<open>RAIN.CONNECT\<close> and
  installations a program performs, with any pattern of allocation failures, both global pointers
  are NULL or point to a live state object, every block still allocated belongs to a live state
  object, and neither \<open>RAIN.CALL\<close> nor \<open>RAIN.CONNECT\<close> can go wrong: each returns 1 or raises.\<close>

theorem host_invariant:
  assumes "raincall_host api stk tbl ops sz" "host_inv sz base s"
    "(host_step api ops grant)\<^sup>*\<^sup>* (L, s) (L', s')"
  shows "host_inv sz base s' \<and>
    (\<exists>L1 s1 r. rain_call api ops grant L' s' = Some (L1, s1, r) \<and> (r = 1 \<or> r = - 1)) \<and>
    (\<exists>L1 s1 r. rain_connect api ops grant L' s' = Some (L1, s1, r) \<and> (r = 1 \<or> r = - 1))"
proof -
  note b = raincall_host.axioms(2)[OF assms(1)]
  have "host_inv sz base s'" using raincall_host.reach_inv[OF assms(1,3)] assms(2) by simp
  then show ?thesis using raincall_host.call_ok[OF assms(1), of base s' grant L']
      raincall_backend.connect_ok[OF b, of base s' api grant L'] by blast
qed

theorem host_invariant_witness:
  "\<exists>L1 s1 r. rain_call machine_api (tcp_ops ping_client (\<lambda>n. True)) (\<lambda>n. True)
     (\<lparr>m_stack = [LStr ''PING''], m_tabs = [], m_globals = []\<rparr> :: int machine) (host_start 0) = Some (L1, s1, r) \<and>
     (r = 1 \<or> r = - 1)"
  using host_invariant[OF ping_host.raincall_host_axioms host_start_inv rtranclp.rtrancl_refl] by blast


definition ping_state :: "(string raincall_TcpBackend, nat) rc_state" where
  "ping_state = fst (snd (raincall_install_state machine_api
     (\<lparr>m_stack = [], m_tabs = [], m_globals = []\<rparr> :: int machine) (Some 0)
     (snd (raincall_open (tcp_ops ping_client (\<lambda>n. True)) (\<lambda>n. True) (Some ''h'') 6379 (host_start 0)))))"

lemma ping_state_simps:
  "rc_installed ping_state = Some 0" "rc_default ping_state = None" "rc_world ping_state = 1"
  "rc_next ping_state = 1"
  "rc_states ping_state = (\<lambda>a. None)(0 := Some (Some
     \<lparr>tcp_host = Some ''h'', tcp_port = 6379, tcp_redis = Some ''h'', tcp_error = []\<rparr>))"
  "hp_live (rc_heap ping_state) = (\<lambda>k. 0)(Libc := 3)"
  by (simp_all add: ping_state_def raincall_install_state_def raincall_open_def host_start_def empty_heap_def
      alloc_def Let_def tcp_ops_def raincall_tcp_open_def raincall_strdup_def ping_client_def new_state_def
      c_str_def fun_eq_iff)

lemma ping_state_inv: "host_inv tcp_size (\<lambda>k. 0) ping_state"
  by (auto simp: host_inv_def ledger_ok_def ping_state_simps state_blocks_def tcp_size_def)


text \<open>C13. \<open>RAIN.CALL\<close> is the backend's call. With string arguments and memory available, the
  installed backend receives exactly the arguments on the stack, in order; a reply is pushed
  faithfully or raised as its first error, and a failure is raised as \<open>RAIN.CALL:\<close> followed by the backend's
  error text, cut to 511 bytes.\<close>

theorem rain_call_dispatches:
  assumes "raincall_host api stk tbl ops sz" "host_inv sz base s" "rc_installed s = Some R"
    "rc_states s R = Some (Some b)" "stk L = map LStr argv" "argv \<noteq> []" "\<forall>n. grant n"
  shows "\<exists>h b' h' w' ret out L' s' r.
    bk_call ops b h (rc_world s) argv = Some (b', h', w', ret, out) \<and>
    rain_call api ops grant L s = Some (L', s', r) \<and> rc_world s' = w' \<and>
    (case out of
       None \<Rightarrow> r = - 1 \<and> stk L' = stk L @ [LStr (snprintf_s 512 (''RAIN.CALL: '' @ c_str (bk_error ops b')))]
     | Some reply \<Rightarrow> pushed_ok stk tbl L (Some (L', r)) reply)"
  by (rule raincall_host.call_value[OF assms])

theorem rain_call_dispatches_witness:
  "\<exists>L' s'. rain_call machine_api (tcp_ops ping_client (\<lambda>n. True)) (\<lambda>n. True)
     (\<lparr>m_stack = [LStr ''PING''], m_tabs = [], m_globals = []\<rparr> :: int machine) ping_state = Some (L', s', 1) \<and>
     m_stack L' = [LStr ''PING'', LStr ''PONG'']"
proof -
  let ?L = "\<lparr>m_stack = [LStr ''PING''], m_tabs = [], m_globals = []\<rparr> :: int machine"
  let ?b = "\<lparr>tcp_host = Some ''h'', tcp_port = 6379, tcp_redis = Some ''h'', tcp_error = []\<rparr>"
  let ?r = "Reply RAINCALL_REPLY_STATUS (Some ''PONG'') 4 0 (0 :: int) 0 None None"
  have st: "rc_states ping_state 0 = Some (Some ?b)" "m_stack ?L = map LStr [''PING'']" "[''PING''] \<noteq> []"
    "\<forall>n. (\<lambda>n::nat. True) n" by (simp_all add: ping_state_simps)
  obtain h b' h' w' ret out L' s' r where
    c: "bk_call (tcp_ops ping_client (\<lambda>n. True)) ?b h (rc_world ping_state) [''PING''] = Some (b', h', w', ret, out)" and
    R: "rain_call machine_api (tcp_ops ping_client (\<lambda>n. True)) (\<lambda>n. True) ?L ping_state = Some (L', s', r)" and
    v: "case out of None \<Rightarrow> r = - 1 \<and> m_stack L' = m_stack ?L @ [LStr (snprintf_s 512 (''RAIN.CALL: '' @
          c_str (bk_error (tcp_ops ping_client (\<lambda>n. True)) b')))]
        | Some reply \<Rightarrow> pushed_ok m_stack m_tbl ?L (Some (L', r)) reply"
    using rain_call_dispatches[OF ping_host.raincall_host_axioms ping_state_inv ping_state_simps(1) st] by metis
  have "out = Some ?r" using c
    by (simp add: tcp_ops_def raincall_tcp_call_def ping_client_def Let_def raincall_reply_new_def alloc_def
        raincall_reply_type_from_hiredis_def)
  then have "r = 1 \<and> m_stack L' = [LStr ''PING'', LStr ''PONG'']" using v by (auto simp: pushed_ok_def)
  then show ?thesis using R by blast
qed

text \<open>C23. A successful \<open>RAIN.CONNECT\<close> replaces the installed state, whatever it was: both
  globals point to a new state object over the new connection, and the old default state is
  closed.\<close>

theorem connect_replaces_installed_state:
  assumes "raincall_backend ops sz" "host_inv sz base s" "rain_connect api ops grant L s = Some (L', s', 1)"
  shows "\<exists>R. rc_installed s' = Some R \<and> rc_default s' = Some R \<and> rc_states s R = None \<and>
    rc_states s' R \<noteq> None \<and> (\<forall>a. rc_default s = Some a \<longrightarrow> rc_states s' a = None)"
proof -
  obtain host L1 where t: "mq_tolstring api L 1 = (host, L1)" by fastforce
  obtain port isnum where p: "mq_tointegerx api L1 2 = (port, isnum)" by fastforce
  obtain ok h where a: "alloc grant Libc (rc_heap s) = (ok, h)" by fastforce
  obtain y where y: "host = Some y"
    using assms(3) by (cases host) (auto simp: rain_connect_def raincall_raise_def t p Let_def)
  obtain R s1 where o: "raincall_open ops grant (Some (c_str y)) port (s\<lparr>rc_heap := h\<rparr>) = (R, s1)" by fastforce
  let ?s1 = "s1\<lparr>rc_heap := release Libc (rc_heap s1)\<rparr>"
  obtain r s2 where r: "ok" "R = Some r" "raincall_close ops (rc_default ?s1) ?s1 = Some s2"
    "s' = s2\<lparr>rc_default := Some r, rc_installed := Some r\<rparr>"
    using assms(3) by (auto simp: rain_connect_def raincall_raise_def t p a o y Let_def
        split: if_splits option.splits bool.splits)
  have "ledger_ok sz (\<lambda>k. base k + (if k = Libc then 1 else 0)) (s\<lparr>rc_heap := h\<rparr>)"
    using assms(2) alloc_live[OF a] r(1) by (auto simp: host_inv_def ledger_ok_def)
  note O = raincall_backend.open_ok[OF assms(1) this o, unfolded r(2) option.case]
  then have "rc_default s \<noteq> Some r" using assms(2) by (auto simp: host_inv_def)
  then show ?thesis using O r(3,4)
    by (auto simp: raincall_close_def Let_def split: option.splits prod.splits)
qed

theorem connect_replaces_installed_state_witness:
  "\<exists>L' s' R. rain_connect machine_api (tcp_ops ping_client (\<lambda>n. True)) (\<lambda>n. True)
     (\<lparr>m_stack = [LStr ''h'', LInt 6380], m_tabs = [], m_globals = []\<rparr> :: int machine) ping_state = Some (L', s', 1) \<and>
     rc_installed s' = Some R \<and> R \<noteq> 0"
proof -
  let ?L = "\<lparr>m_stack = [LStr ''h'', LInt 6380], m_tabs = [], m_globals = []\<rparr> :: int machine"
  let ?c = "rain_connect machine_api (tcp_ops ping_client (\<lambda>n. True)) (\<lambda>n. True) ?L ping_state"
  have "\<exists>L' s'. ?c = Some (L', s', 1)"
    by (simp add: rain_connect_def machine_api_def m_at_def m_index_def Let_def alloc_def raincall_open_def
        tcp_ops_def raincall_tcp_open_def raincall_strdup_def ping_client_def new_state_def raincall_close_def
        ping_state_simps)
  then obtain L' s' where c: "?c = Some (L', s', 1)" by blast
  obtain R where "rc_installed s' = Some R" "rc_states ping_state R = None"
    using connect_replaces_installed_state[OF raincall_host.axioms(2)[OF ping_host.raincall_host_axioms] ping_state_inv c] by blast
  then show ?thesis using c by (intro exI[of _ L'] exI[of _ s'] exI[of _ R]) (auto simp: ping_state_simps split: if_splits)
qed

end
