(* ===== verification/RespParser.thy ===== *)
theory RespParser
  imports Util
begin

text \<open>
  The RESP reader of \<^verbatim>\<open>src/src/resp_parser.c\<close>, which turns the reply captured from a command
  back into callbacks. A position in the reply buffer is the suffix of the buffer from there
  to its end, the terminator excluded: the empty suffix is a pointer to the terminating NUL.
  The reader is written for replies Redis itself produced and checks little: following a
  missing line end, running past the terminator or using a length that did not parse is
  undefined in C and is the outcome \<open>Wrong\<close> here. Lengths below -1, which no reply contains,
  are \<open>Wrong\<close> as well. The recursion through the aggregate callbacks is bounded by fuel, the
  nesting depth; \<open>Diverge\<close> is running out of it, and the call reply theory shows that
  the length of the buffer is enough.
\<close>

section \<open>Outcomes and positions\<close>

datatype 'a run = Done 'a | Wrong | Diverge

definition strchr :: "string \<Rightarrow> char \<Rightarrow> string option" where
  "strchr s ch =
    (case dropWhile (\<lambda>x. x \<noteq> ch \<and> x \<noteq> NUL) s of
       [] \<Rightarrow> None
     | x # xs \<Rightarrow> if x = ch then Some (x # xs) else None)"

definition advance :: "nat \<Rightarrow> string \<Rightarrow> string option" where
  "advance n s = (if n \<le> length s then Some (drop n s) else None)"

text \<open>The conversion of a \<^verbatim>\<open>long long\<close> to \<^verbatim>\<open>size_t\<close>.\<close>

definition to_size_t :: "int \<Rightarrow> nat" where
  "to_size_t x = nat (x mod 18446744073709551616)"

definition MAX_LONG_DOUBLE_CHARS :: nat where
  "MAX_LONG_DOUBLE_CHARS = 5 * 1024"

section \<open>The callbacks\<close>

text \<open>A callback gets the client context and returns it updated. The aggregate callbacks
  receive the parser: the function that parses the next reply into a context, and the current
  location, which they return advanced.\<close>

type_synonym 'c sub_parser = "string \<Rightarrow> 'c \<Rightarrow> (bool \<times> 'c \<times> string) run"
type_synonym 'c leaf_callback = "'c \<Rightarrow> string \<Rightarrow> nat \<Rightarrow> 'c"
type_synonym 'c string_callback = "'c \<Rightarrow> string \<Rightarrow> nat \<Rightarrow> string \<Rightarrow> nat \<Rightarrow> 'c"
type_synonym 'c aggregate_callback =
  "'c sub_parser \<Rightarrow> string \<Rightarrow> 'c \<Rightarrow> nat \<Rightarrow> string \<Rightarrow> ('c \<times> string) run"

record ('c, 'd) ReplyParserCallbacks =
  null_array_callback :: "'c leaf_callback"
  null_bulk_string_callback :: "'c leaf_callback"
  bulk_string_callback :: "'c string_callback"
  error_callback :: "'c string_callback"
  simple_str_callback :: "'c string_callback"
  long_callback :: "'c \<Rightarrow> int \<Rightarrow> string \<Rightarrow> nat \<Rightarrow> 'c"
  array_callback :: "'c aggregate_callback"
  set_callback :: "'c aggregate_callback"
  map_callback :: "'c aggregate_callback"
  bool_callback :: "'c \<Rightarrow> bool \<Rightarrow> string \<Rightarrow> nat \<Rightarrow> 'c"
  double_callback :: "'c \<Rightarrow> 'd \<Rightarrow> string \<Rightarrow> nat \<Rightarrow> 'c"
  big_number_callback :: "'c string_callback"
  verbatim_string_callback :: "'c \<Rightarrow> string \<Rightarrow> string \<Rightarrow> nat \<Rightarrow> string \<Rightarrow> nat \<Rightarrow> 'c"
  attribute_callback :: "'c aggregate_callback"
  null_callback :: "'c leaf_callback"
  error_cb :: "'c \<Rightarrow> 'c"

section \<open>The parsers\<close>

text \<open>Every parser starts the same way: \<open>p\<close> is the line end found behind the type byte, the
  location moves behind it, and the text of the line is what lies between.\<close>

definition line_end :: "string \<Rightarrow> (string \<times> string \<times> string) option" where
  "line_end proto =
    (case strchr (tl proto) CR of
       None \<Rightarrow> None
     | Some p \<Rightarrow>
         (case advance 2 p of
            None \<Rightarrow> None
          | Some cur \<Rightarrow> Some (take (length proto - length p - 1) (tl proto), p, cur)))"

definition parseBulk :: "('c, 'd) ReplyParserCallbacks \<Rightarrow> 'c sub_parser" where
  "parseBulk cb proto ctx =
    (case line_end proto of
       None \<Rightarrow> Wrong
     | Some (line, p, cur) \<Rightarrow>
         (case string2ll line of
            None \<Rightarrow> Wrong
          | Some bulklen \<Rightarrow>
              if bulklen = -1 then
                Done (True, null_bulk_string_callback cb ctx proto (length proto - length cur), cur)
              else if bulklen < 0 then Wrong
              else
                (case advance (nat bulklen) cur of
                   None \<Rightarrow> Wrong
                 | Some q \<Rightarrow>
                     (case advance 2 q of
                        None \<Rightarrow> Wrong
                      | Some q \<Rightarrow>
                          Done (True, bulk_string_callback cb ctx cur (nat bulklen) proto
                                        (length proto - length q), q)))))"

definition parseSimpleString :: "('c, 'd) ReplyParserCallbacks \<Rightarrow> 'c sub_parser" where
  "parseSimpleString cb proto ctx =
    (case line_end proto of
       None \<Rightarrow> Wrong
     | Some (line, p, cur) \<Rightarrow>
         Done (True, simple_str_callback cb ctx (tl proto) (length proto - length p - 1) proto
                       (length proto - length cur), cur))"

definition parseError :: "('c, 'd) ReplyParserCallbacks \<Rightarrow> 'c sub_parser" where
  "parseError cb proto ctx =
    (case line_end proto of
       None \<Rightarrow> Wrong
     | Some (line, p, cur) \<Rightarrow>
         Done (True, error_callback cb ctx (tl proto) (length proto - length p - 1) proto
                       (length proto - length cur), cur))"

definition parseLong :: "('c, 'd) ReplyParserCallbacks \<Rightarrow> 'c sub_parser" where
  "parseLong cb proto ctx =
    (case line_end proto of
       None \<Rightarrow> Wrong
     | Some (line, p, cur) \<Rightarrow>
         (case string2ll line of
            None \<Rightarrow> Wrong
          | Some val \<Rightarrow>
              Done (True, long_callback cb ctx val proto (length proto - length cur), cur)))"

text \<open>The aggregate parsers differ in the callback they hand the length to.\<close>

definition run_aggregate ::
  "'c aggregate_callback \<Rightarrow> 'c sub_parser \<Rightarrow> string \<Rightarrow> 'c \<Rightarrow> int \<Rightarrow> string \<Rightarrow> (bool \<times> 'c \<times> string) run" where
  "run_aggregate callback parser cur ctx len proto =
    (case callback parser cur ctx (to_size_t len) proto of
       Done (ctx, cur) \<Rightarrow> Done (True, ctx, cur)
     | Wrong \<Rightarrow> Wrong
     | Diverge \<Rightarrow> Diverge)"

definition parseAttributes :: "('c, 'd) ReplyParserCallbacks \<Rightarrow> 'c sub_parser \<Rightarrow> 'c sub_parser" where
  "parseAttributes cb parser proto ctx =
    (case line_end proto of
       None \<Rightarrow> Wrong
     | Some (line, p, cur) \<Rightarrow>
         (case string2ll line of
            None \<Rightarrow> Wrong
          | Some len \<Rightarrow> run_aggregate (attribute_callback cb) parser cur ctx len proto))"

definition parseVerbatimString :: "('c, 'd) ReplyParserCallbacks \<Rightarrow> 'c sub_parser" where
  "parseVerbatimString cb proto ctx =
    (case line_end proto of
       None \<Rightarrow> Wrong
     | Some (line, p, cur) \<Rightarrow>
         (case string2ll line of
            None \<Rightarrow> Wrong
          | Some bulklen \<Rightarrow>
              if bulklen < 0 then Wrong
              else
                (case advance (nat bulklen) cur of
                   None \<Rightarrow> Wrong
                 | Some q \<Rightarrow>
                     (case (advance 2 q, advance 4 cur) of
                        (Some q, Some str) \<Rightarrow>
                          Done (True, verbatim_string_callback cb ctx cur str
                                        (to_size_t (bulklen - 4)) proto (length proto - length q), q)
                      | _ \<Rightarrow> Wrong))))"

definition parseBigNumber :: "('c, 'd) ReplyParserCallbacks \<Rightarrow> 'c sub_parser" where
  "parseBigNumber cb proto ctx =
    (case line_end proto of
       None \<Rightarrow> Wrong
     | Some (line, p, cur) \<Rightarrow>
         Done (True, big_number_callback cb ctx (tl proto) (length proto - length p - 1) proto
                       (length proto - length cur), cur))"

definition parseNull :: "('c, 'd) ReplyParserCallbacks \<Rightarrow> 'c sub_parser" where
  "parseNull cb proto ctx =
    (case line_end proto of
       None \<Rightarrow> Wrong
     | Some (line, p, cur) \<Rightarrow>
         Done (True, null_callback cb ctx proto (length proto - length cur), cur))"

text \<open>\<^verbatim>\<open>fast_float_strtod\<close> on the bytes of the line is a parameter.\<close>

definition parseDouble :: "(string \<Rightarrow> 'd::zero) \<Rightarrow> ('c, 'd) ReplyParserCallbacks \<Rightarrow> 'c sub_parser" where
  "parseDouble strtod cb proto ctx =
    (case line_end proto of
       None \<Rightarrow> Wrong
     | Some (line, p, cur) \<Rightarrow>
         (let d = (if length line \<le> MAX_LONG_DOUBLE_CHARS then strtod line else 0)
          in Done (True, double_callback cb ctx d proto (length proto - length cur), cur)))"

definition parseBool :: "('c, 'd) ReplyParserCallbacks \<Rightarrow> 'c sub_parser" where
  "parseBool cb proto ctx =
    (case line_end proto of
       None \<Rightarrow> Wrong
     | Some (line, p, cur) \<Rightarrow>
         Done (True, bool_callback cb ctx (tl proto \<noteq> [] \<and> hd (tl proto) = CHR ''t'') proto
                       (length proto - length cur), cur))"

definition parseArray :: "('c, 'd) ReplyParserCallbacks \<Rightarrow> 'c sub_parser \<Rightarrow> 'c sub_parser" where
  "parseArray cb parser proto ctx =
    (case line_end proto of
       None \<Rightarrow> Wrong
     | Some (line, p, cur) \<Rightarrow>
         (case string2ll line of
            None \<Rightarrow> Wrong
          | Some len \<Rightarrow>
              if len = -1 then
                Done (True, null_array_callback cb ctx proto (length proto - length cur), cur)
              else run_aggregate (array_callback cb) parser cur ctx len proto))"

definition parseSet :: "('c, 'd) ReplyParserCallbacks \<Rightarrow> 'c sub_parser \<Rightarrow> 'c sub_parser" where
  "parseSet cb parser proto ctx =
    (case line_end proto of
       None \<Rightarrow> Wrong
     | Some (line, p, cur) \<Rightarrow>
         (case string2ll line of
            None \<Rightarrow> Wrong
          | Some len \<Rightarrow> run_aggregate (set_callback cb) parser cur ctx len proto))"

definition parseMap :: "('c, 'd) ReplyParserCallbacks \<Rightarrow> 'c sub_parser \<Rightarrow> 'c sub_parser" where
  "parseMap cb parser proto ctx =
    (case line_end proto of
       None \<Rightarrow> Wrong
     | Some (line, p, cur) \<Rightarrow>
         (case string2ll line of
            None \<Rightarrow> Wrong
          | Some len \<Rightarrow> run_aggregate (map_callback cb) parser cur ctx len proto))"

fun parseReply ::
  "nat \<Rightarrow> (string \<Rightarrow> 'd::zero) \<Rightarrow> ('c, 'd) ReplyParserCallbacks \<Rightarrow> 'c sub_parser" where
  "parseReply 0 strtod cb loc ctx = Diverge"
| "parseReply (Suc fuel) strtod cb loc ctx =
    (let parser = parseReply fuel strtod cb;
         ch = (if loc = [] then NUL else hd loc)
     in if ch = CHR ''$'' then parseBulk cb loc ctx
        else if ch = CHR ''+'' then parseSimpleString cb loc ctx
        else if ch = CHR ''-'' then parseError cb loc ctx
        else if ch = CHR '':'' then parseLong cb loc ctx
        else if ch = CHR ''*'' then parseArray cb parser loc ctx
        else if ch = CHR ''~'' then parseSet cb parser loc ctx
        else if ch = CHR ''%'' then parseMap cb parser loc ctx
        else if ch = CHR ''#'' then parseBool cb loc ctx
        else if ch = CHR '','' then parseDouble strtod cb loc ctx
        else if ch = CHR ''_'' then parseNull cb loc ctx
        else if ch = CHR ''('' then parseBigNumber cb loc ctx
        else if ch = CHR ''='' then parseVerbatimString cb loc ctx
        else if ch = CHR ''|'' then parseAttributes cb parser loc ctx
        else Done (False, error_cb cb ctx, loc))"

section \<open>Lemmas\<close>

lemma dropWhile_line:
  assumes "CR \<notin> set s" "NUL \<notin> set s"
  shows "dropWhile (\<lambda>x. x \<noteq> CR \<and> x \<noteq> NUL) (s @ CR # rest) = CR # rest"
  using assms by (induction s) auto

lemma strchr_line:
  assumes "CR \<notin> set s" "NUL \<notin> set s"
  shows "strchr (s @ CR # rest) CR = Some (CR # rest)"
  using dropWhile_line[OF assms] by (simp add: strchr_def)

lemma line_end_line:
  assumes "CR \<notin> set s" "NUL \<notin> set s"
  shows "line_end (ch # s @ CR # LF # rest) = Some (s, CR # LF # rest, rest)"
  using assms by (simp add: line_end_def strchr_line advance_def)

lemma strchr_suffix: "strchr s ch = Some p \<Longrightarrow> length p \<le> length s \<and> p \<noteq> []"
  unfolding strchr_def by (auto simp: length_dropWhile_le split: list.splits if_splits)

lemma line_end_shorter: "line_end proto = Some (line, p, cur) \<Longrightarrow> length cur < length proto"
  by (auto simp: line_end_def advance_def dest!: strchr_suffix split: option.splits if_splits)

lemma to_size_t_eq [simp]: "0 \<le> x \<Longrightarrow> x \<le> LLONG_MAX \<Longrightarrow> to_size_t x = nat x"
  by (simp add: to_size_t_def)

lemma to_size_t_of_nat [simp]: "int n \<le> LLONG_MAX \<Longrightarrow> to_size_t (int n) = n"
  by simp

end
