(* ===== verification/CallReplyModel.thy ===== *)
theory CallReplyModel
  imports RespParser
begin

text \<open>
  The call reply object of \<^verbatim>\<open>src/src/call_reply.c\<close>: the captured protocol text of a reply,
  parsed on first use into a tree whose strings point into that text. The callbacks handed to
  the RESP reader, the lazy parse, the accessors and the release of the tree are modelled one
  by one. The specification side is a datatype of RESP values with its wire encoding and the
  relation \<open>represents\<close> between a value and the tree that stands for it.
\<close>

section \<open>Data\<close>

abbreviation REPLY_UNKNOWN :: int where "REPLY_UNKNOWN \<equiv> -1"
abbreviation REPLY_STRING :: int where "REPLY_STRING \<equiv> 0"
abbreviation REPLY_ERROR :: int where "REPLY_ERROR \<equiv> 1"
abbreviation REPLY_INTEGER :: int where "REPLY_INTEGER \<equiv> 2"
abbreviation REPLY_ARRAY :: int where "REPLY_ARRAY \<equiv> 3"
abbreviation REPLY_NULL :: int where "REPLY_NULL \<equiv> 4"
abbreviation REPLY_MAP :: int where "REPLY_MAP \<equiv> 5"
abbreviation REPLY_SET :: int where "REPLY_SET \<equiv> 6"
abbreviation REPLY_BOOL :: int where "REPLY_BOOL \<equiv> 7"
abbreviation REPLY_DOUBLE :: int where "REPLY_DOUBLE \<equiv> 8"
abbreviation REPLY_BIG_NUMBER :: int where "REPLY_BIG_NUMBER \<equiv> 9"
abbreviation REPLY_VERBATIM_STRING :: int where "REPLY_VERBATIM_STRING \<equiv> 10"
abbreviation REPLY_ATTRIBUTE :: int where "REPLY_ATTRIBUTE \<equiv> 11"
abbreviation REPLY_PROMISE :: int where "REPLY_PROMISE \<equiv> 12"

datatype reply_flag = REPLY_FLAG_ROOT | REPLY_FLAG_PARSED | REPLY_FLAG_RESP3

text \<open>\<open>cr_proto\<close>, \<open>ValStr\<close> and \<open>ValVerbatim\<close> hold pointers into the protocol buffer, that is
  suffixes of it; the union \<^verbatim>\<open>val\<close> is a datatype with the member that was stored last.\<close>

datatype ('p, 'd) CallReply =
  CallReply (private_data: 'p) (original_proto: "string option") (cr_proto: string)
    (cr_proto_len: nat) (cr_type: int) (cr_flags: "reply_flag set") (cr_len: nat)
    (cr_val: "('p, 'd) reply_val") (deferred_error_list: "string list option")
    (cr_attribute: "('p, 'd) CallReply option")
and ('p, 'd) reply_val =
    ValNone
  | ValStr string
  | ValVerbatim string string
  | ValLL int
  | ValD 'd
  | ValArray "('p, 'd) CallReply list"

text \<open>Assignments to the fields.\<close>

definition set_private :: "'p \<Rightarrow> ('p, 'd) CallReply \<Rightarrow> ('p, 'd) CallReply" where
  "set_private pd r = CallReply pd (original_proto r) (cr_proto r) (cr_proto_len r) (cr_type r)
     (cr_flags r) (cr_len r) (cr_val r) (deferred_error_list r) (cr_attribute r)"

definition set_proto :: "string \<Rightarrow> nat \<Rightarrow> ('p, 'd) CallReply \<Rightarrow> ('p, 'd) CallReply" where
  "set_proto p n r = CallReply (private_data r) (original_proto r) p n (cr_type r)
     (cr_flags r) (cr_len r) (cr_val r) (deferred_error_list r) (cr_attribute r)"

definition set_type :: "int \<Rightarrow> ('p, 'd) CallReply \<Rightarrow> ('p, 'd) CallReply" where
  "set_type t r = CallReply (private_data r) (original_proto r) (cr_proto r) (cr_proto_len r) t
     (cr_flags r) (cr_len r) (cr_val r) (deferred_error_list r) (cr_attribute r)"

definition add_flags :: "reply_flag set \<Rightarrow> ('p, 'd) CallReply \<Rightarrow> ('p, 'd) CallReply" where
  "add_flags fl r = CallReply (private_data r) (original_proto r) (cr_proto r) (cr_proto_len r)
     (cr_type r) (cr_flags r \<union> fl) (cr_len r) (cr_val r) (deferred_error_list r) (cr_attribute r)"

definition set_len :: "nat \<Rightarrow> ('p, 'd) CallReply \<Rightarrow> ('p, 'd) CallReply" where
  "set_len n r = CallReply (private_data r) (original_proto r) (cr_proto r) (cr_proto_len r)
     (cr_type r) (cr_flags r) n (cr_val r) (deferred_error_list r) (cr_attribute r)"

definition set_val :: "('p, 'd) reply_val \<Rightarrow> ('p, 'd) CallReply \<Rightarrow> ('p, 'd) CallReply" where
  "set_val v r = CallReply (private_data r) (original_proto r) (cr_proto r) (cr_proto_len r)
     (cr_type r) (cr_flags r) (cr_len r) v (deferred_error_list r) (cr_attribute r)"

definition set_attribute :: "('p, 'd) CallReply option \<Rightarrow> ('p, 'd) CallReply \<Rightarrow> ('p, 'd) CallReply" where
  "set_attribute a r = CallReply (private_data r) (original_proto r) (cr_proto r) (cr_proto_len r)
     (cr_type r) (cr_flags r) (cr_len r) (cr_val r) (deferred_error_list r) a"

lemmas reply_setters [simp] =
  set_private_def set_proto_def set_type_def add_flags_def set_len_def set_val_def set_attribute_def

text \<open>A reply in memory cleared by \<^verbatim>\<open>zcalloc\<close>; \<open>nul\<close> is the null private data.\<close>

definition zero_reply :: "'p \<Rightarrow> ('p, 'd) CallReply" where
  "zero_reply nul = CallReply nul None [] 0 0 {} 0 ValNone None None"

section \<open>The parser callbacks\<close>

definition callReplySetSharedData ::
  "('p, 'd) CallReply \<Rightarrow> int \<Rightarrow> string \<Rightarrow> nat \<Rightarrow> reply_flag set \<Rightarrow> ('p, 'd) CallReply" where
  "callReplySetSharedData rep ty proto proto_len extra_flags =
     add_flags extra_flags (set_proto proto proto_len (set_type ty rep))"

definition callReplyNull :: "('p, 'd) CallReply leaf_callback" where
  "callReplyNull rep proto proto_len =
     callReplySetSharedData rep REPLY_NULL proto proto_len {REPLY_FLAG_RESP3}"

definition callReplyNullBulkString :: "('p, 'd) CallReply leaf_callback" where
  "callReplyNullBulkString rep proto proto_len =
     callReplySetSharedData rep REPLY_NULL proto proto_len {}"

definition callReplyNullArray :: "('p, 'd) CallReply leaf_callback" where
  "callReplyNullArray rep proto proto_len =
     callReplySetSharedData rep REPLY_NULL proto proto_len {}"

definition callReplyBulkString :: "('p, 'd) CallReply string_callback" where
  "callReplyBulkString rep str len proto proto_len =
     set_val (ValStr str) (set_len len (callReplySetSharedData rep REPLY_STRING proto proto_len {}))"

definition callReplyError :: "('p, 'd) CallReply string_callback" where
  "callReplyError rep str len proto proto_len =
     set_val (ValStr str) (set_len len (callReplySetSharedData rep REPLY_ERROR proto proto_len {}))"

definition callReplySimpleStr :: "('p, 'd) CallReply string_callback" where
  "callReplySimpleStr rep str len proto proto_len =
     set_val (ValStr str) (set_len len (callReplySetSharedData rep REPLY_STRING proto proto_len {}))"

definition callReplyLong :: "('p, 'd) CallReply \<Rightarrow> int \<Rightarrow> string \<Rightarrow> nat \<Rightarrow> ('p, 'd) CallReply" where
  "callReplyLong rep val proto proto_len =
     set_val (ValLL val) (callReplySetSharedData rep REPLY_INTEGER proto proto_len {})"

definition callReplyDouble :: "('p, 'd) CallReply \<Rightarrow> 'd \<Rightarrow> string \<Rightarrow> nat \<Rightarrow> ('p, 'd) CallReply" where
  "callReplyDouble rep val proto proto_len =
     set_val (ValD val) (callReplySetSharedData rep REPLY_DOUBLE proto proto_len {REPLY_FLAG_RESP3})"

definition callReplyVerbatimString ::
  "('p, 'd) CallReply \<Rightarrow> string \<Rightarrow> string \<Rightarrow> nat \<Rightarrow> string \<Rightarrow> nat \<Rightarrow> ('p, 'd) CallReply" where
  "callReplyVerbatimString rep format str len proto proto_len =
     set_val (ValVerbatim str format) (set_len len
       (callReplySetSharedData rep REPLY_VERBATIM_STRING proto proto_len {REPLY_FLAG_RESP3}))"

definition callReplyBigNumber :: "('p, 'd) CallReply string_callback" where
  "callReplyBigNumber rep str len proto proto_len =
     set_val (ValStr str) (set_len len
       (callReplySetSharedData rep REPLY_BIG_NUMBER proto proto_len {REPLY_FLAG_RESP3}))"

definition callReplyBool :: "('p, 'd) CallReply \<Rightarrow> bool \<Rightarrow> string \<Rightarrow> nat \<Rightarrow> ('p, 'd) CallReply" where
  "callReplyBool rep val proto proto_len =
     set_val (ValLL (if val then 1 else 0))
       (callReplySetSharedData rep REPLY_BOOL proto proto_len {REPLY_FLAG_RESP3})"

text \<open>The two nested loops of \<open>callReplyParseCollection\<close> visit the elements in index order.\<close>

fun parse_elements ::
  "'p \<Rightarrow> ('p, 'd) CallReply sub_parser \<Rightarrow> nat \<Rightarrow> string \<Rightarrow> ('p, 'd) CallReply \<Rightarrow>
   ('p, 'd) CallReply list \<Rightarrow> (('p, 'd) CallReply \<times> ('p, 'd) CallReply list \<times> string) run" where
  "parse_elements nul parser 0 loc rep done = Done (rep, done, loc)"
| "parse_elements nul parser (Suc n) loc rep done =
    (case parser loc (set_private (private_data rep) (zero_reply nul)) of
       Done (ok, e, loc) \<Rightarrow>
         (let e = add_flags {REPLY_FLAG_PARSED} e;
              rep = (if REPLY_FLAG_RESP3 \<in> cr_flags e then add_flags {REPLY_FLAG_RESP3} rep else rep)
          in parse_elements nul parser n loc rep (done @ [e]))
     | Wrong \<Rightarrow> Wrong
     | Diverge \<Rightarrow> Diverge)"

text \<open>\<^verbatim>\<open>sizeof(CallReply)\<close>; the product passed to \<^verbatim>\<open>zcalloc\<close> must not wrap around.\<close>

definition sizeof_CallReply :: nat where "sizeof_CallReply = 80"

definition callReplyParseCollection ::
  "'p \<Rightarrow> ('p, 'd) CallReply sub_parser \<Rightarrow> string \<Rightarrow> ('p, 'd) CallReply \<Rightarrow> nat \<Rightarrow> string \<Rightarrow> nat \<Rightarrow>
   (('p, 'd) CallReply \<times> string) run" where
  "callReplyParseCollection nul parser cur rep len proto elements_per_entry =
    (if elements_per_entry * len * sizeof_CallReply \<ge> 18446744073709551616 then Wrong
     else
       (case parse_elements nul parser (len * elements_per_entry) cur (set_len len rep) [] of
          Done (rep, arr, cur) \<Rightarrow>
            Done (set_proto proto (length proto - length cur) (set_val (ValArray arr) rep), cur)
        | Wrong \<Rightarrow> Wrong
        | Diverge \<Rightarrow> Diverge))"

definition callReplyAttribute :: "'p \<Rightarrow> ('p, 'd) CallReply aggregate_callback" where
  "callReplyAttribute nul parser cur rep len proto =
    (case callReplyParseCollection nul parser cur
            (set_type REPLY_ATTRIBUTE (set_len len (zero_reply nul))) len proto 2 of
       Done (att, cur) \<Rightarrow>
         (let att = set_private (private_data rep) (add_flags {REPLY_FLAG_PARSED, REPLY_FLAG_RESP3} att);
              rep = set_attribute (Some att) rep
          in case parser cur rep of
               Done (ok, rep, cur) \<Rightarrow>
                 Done (add_flags {REPLY_FLAG_RESP3} (set_proto proto (length proto - length cur) rep), cur)
             | Wrong \<Rightarrow> Wrong
             | Diverge \<Rightarrow> Diverge)
     | Wrong \<Rightarrow> Wrong
     | Diverge \<Rightarrow> Diverge)"

definition callReplyArray :: "'p \<Rightarrow> ('p, 'd) CallReply aggregate_callback" where
  "callReplyArray nul parser cur rep len proto =
     callReplyParseCollection nul parser cur (set_type REPLY_ARRAY rep) len proto 1"

definition callReplySet :: "'p \<Rightarrow> ('p, 'd) CallReply aggregate_callback" where
  "callReplySet nul parser cur rep len proto =
    (case callReplyParseCollection nul parser cur (set_type REPLY_SET rep) len proto 1 of
       Done (rep, cur) \<Rightarrow> Done (add_flags {REPLY_FLAG_RESP3} rep, cur)
     | Wrong \<Rightarrow> Wrong
     | Diverge \<Rightarrow> Diverge)"

definition callReplyMap :: "'p \<Rightarrow> ('p, 'd) CallReply aggregate_callback" where
  "callReplyMap nul parser cur rep len proto =
    (case callReplyParseCollection nul parser cur (set_type REPLY_MAP rep) len proto 2 of
       Done (rep, cur) \<Rightarrow> Done (add_flags {REPLY_FLAG_RESP3} rep, cur)
     | Wrong \<Rightarrow> Wrong
     | Diverge \<Rightarrow> Diverge)"

definition callReplyParseError :: "('p, 'd) CallReply \<Rightarrow> ('p, 'd) CallReply" where
  "callReplyParseError rep = set_type REPLY_UNKNOWN rep"

definition DefaultParserCallbacks :: "'p \<Rightarrow> (('p, 'd) CallReply, 'd) ReplyParserCallbacks" where
  "DefaultParserCallbacks nul = \<lparr>
     null_array_callback = callReplyNullArray,
     null_bulk_string_callback = callReplyNullBulkString,
     bulk_string_callback = callReplyBulkString,
     error_callback = callReplyError,
     simple_str_callback = callReplySimpleStr,
     long_callback = callReplyLong,
     array_callback = callReplyArray nul,
     set_callback = callReplySet nul,
     map_callback = callReplyMap nul,
     bool_callback = callReplyBool,
     double_callback = callReplyDouble,
     big_number_callback = callReplyBigNumber,
     verbatim_string_callback = callReplyVerbatimString,
     attribute_callback = callReplyAttribute nul,
     null_callback = callReplyNull,
     error_cb = callReplyParseError\<rparr>"

section \<open>Creation and parsing\<close>

text \<open>\<open>mem\<close> is what the fresh allocation held: \<^verbatim>\<open>zmalloc\<close> does not clear it.\<close>

definition callReplyCreate ::
  "('p, 'd) CallReply \<Rightarrow> string \<Rightarrow> string list option \<Rightarrow> 'p \<Rightarrow> ('p, 'd) CallReply" where
  "callReplyCreate mem reply errs priv =
     CallReply priv (Some reply) reply (length reply) (cr_type mem) {REPLY_FLAG_ROOT} (cr_len mem)
       (cr_val mem) errs None"

text \<open>\<^verbatim>\<open>sdsnew\<close> copies up to the first NUL.\<close>

definition callReplyCreateError :: "('p, 'd) CallReply \<Rightarrow> string \<Rightarrow> 'p \<Rightarrow> ('p, 'd) CallReply" where
  "callReplyCreateError mem reply priv =
    (let err_buff = (if reply = [] \<or> hd reply \<noteq> CHR ''-'' then ''-ERR '' @ reply @ CRLF else reply)
     in callReplyCreate mem err_buff (Some [c_str err_buff]) priv)"

definition callReplyParse :: "(string \<Rightarrow> 'd::zero) \<Rightarrow> 'p \<Rightarrow> ('p, 'd) CallReply \<Rightarrow> ('p, 'd) CallReply run" where
  "callReplyParse strtod nul rep =
    (if REPLY_FLAG_PARSED \<in> cr_flags rep then Done rep
     else
       (case parseReply (Suc (length (cr_proto rep))) strtod (DefaultParserCallbacks nul) (cr_proto rep) rep of
          Done (ok, rep, cur) \<Rightarrow> Done (add_flags {REPLY_FLAG_PARSED} rep)
        | Wrong \<Rightarrow> Wrong
        | Diverge \<Rightarrow> Diverge))"

section \<open>Accessors\<close>

text \<open>Each accessor parses first, so it returns the reply as well. \<open>with_parsed\<close> is that common
  shape.\<close>

definition with_parsed ::
  "(string \<Rightarrow> 'd::zero) \<Rightarrow> 'p \<Rightarrow> ('p, 'd) CallReply \<Rightarrow> (('p, 'd) CallReply \<Rightarrow> 'a) \<Rightarrow>
   (('p, 'd) CallReply \<times> 'a) run" where
  "with_parsed strtod nul rep f =
    (case callReplyParse strtod nul rep of
       Done rep \<Rightarrow> Done (rep, f rep) | Wrong \<Rightarrow> Wrong | Diverge \<Rightarrow> Diverge)"

text \<open>The member \<^verbatim>\<open>str\<close> of the union.\<close>

definition val_str :: "('p, 'd) reply_val \<Rightarrow> string" where
  "val_str v = (case v of ValStr s \<Rightarrow> s | ValVerbatim s f \<Rightarrow> s | _ \<Rightarrow> [])"

definition val_ll :: "('p, 'd) reply_val \<Rightarrow> int" where
  "val_ll v = (case v of ValLL x \<Rightarrow> x | _ \<Rightarrow> 0)"

definition val_array :: "('p, 'd) reply_val \<Rightarrow> ('p, 'd) CallReply list" where
  "val_array v = (case v of ValArray rs \<Rightarrow> rs | _ \<Rightarrow> [])"

definition callReplyType ::
  "(string \<Rightarrow> 'd::zero) \<Rightarrow> 'p \<Rightarrow> ('p, 'd) CallReply option \<Rightarrow> (('p, 'd) CallReply option \<times> int) run" where
  "callReplyType strtod nul rep =
    (case rep of
       None \<Rightarrow> Done (None, REPLY_UNKNOWN)
     | Some rep \<Rightarrow>
         (case callReplyParse strtod nul rep of
            Done rep \<Rightarrow> Done (Some rep, cr_type rep) | Wrong \<Rightarrow> Wrong | Diverge \<Rightarrow> Diverge))"

text \<open>The result pairs the pointer and the length, NULL as None.\<close>

definition callReplyGetString where
  "callReplyGetString strtod nul rep = with_parsed strtod nul rep (\<lambda>rep.
     if cr_type rep \<noteq> REPLY_STRING \<and> cr_type rep \<noteq> REPLY_ERROR then None
     else Some (val_str (cr_val rep), cr_len rep))"

definition callReplyGetLongLong where
  "callReplyGetLongLong strtod nul rep = with_parsed strtod nul rep (\<lambda>rep.
     if cr_type rep \<noteq> REPLY_INTEGER then LLONG_MIN else val_ll (cr_val rep))"

definition callReplyGetDouble ::
  "(string \<Rightarrow> 'd::ring_1) \<Rightarrow> 'p \<Rightarrow> ('p, 'd) CallReply \<Rightarrow> (('p, 'd) CallReply \<times> 'd) run" where
  "callReplyGetDouble strtod nul rep = with_parsed strtod nul rep (\<lambda>rep.
     if cr_type rep \<noteq> REPLY_DOUBLE then of_int LLONG_MIN
     else (case cr_val rep of ValD d \<Rightarrow> d | _ \<Rightarrow> 0))"

definition callReplyGetBool where
  "callReplyGetBool strtod nul rep = with_parsed strtod nul rep (\<lambda>rep.
     if cr_type rep \<noteq> REPLY_BOOL then - 2147483648 else val_ll (cr_val rep))"

definition callReplyGetLen where
  "callReplyGetLen strtod nul rep = with_parsed strtod nul rep (\<lambda>rep.
     if cr_type rep \<in> {REPLY_STRING, REPLY_ERROR, REPLY_ARRAY, REPLY_SET, REPLY_MAP, REPLY_ATTRIBUTE}
     then cr_len rep else 0)"

definition callReplyGetCollectionElement ::
  "('p, 'd) CallReply \<Rightarrow> nat \<Rightarrow> nat \<Rightarrow> ('p, 'd) CallReply option" where
  "callReplyGetCollectionElement rep idx elements_per_entry =
    (if idx \<ge> cr_len rep * elements_per_entry then None
     else Some (val_array (cr_val rep) ! idx))"

definition callReplyGetArrayElement where
  "callReplyGetArrayElement strtod nul rep idx = with_parsed strtod nul rep (\<lambda>rep.
     if cr_type rep \<noteq> REPLY_ARRAY then None else callReplyGetCollectionElement rep idx 1)"

definition callReplyGetSetElement where
  "callReplyGetSetElement strtod nul rep idx = with_parsed strtod nul rep (\<lambda>rep.
     if cr_type rep \<noteq> REPLY_SET then None else callReplyGetCollectionElement rep idx 1)"

text \<open>None is the result \<^verbatim>\<open>C_ERR\<close>, otherwise the key and the value are returned.\<close>

definition callReplyGetMapElementInternal where
  "callReplyGetMapElementInternal strtod nul rep idx ty = with_parsed strtod nul rep (\<lambda>rep.
     if cr_type rep \<noteq> ty then None
     else if idx \<ge> cr_len rep then None
     else Some (callReplyGetCollectionElement rep (idx * 2) 2,
                callReplyGetCollectionElement rep (idx * 2 + 1) 2))"

definition callReplyGetMapElement where
  "callReplyGetMapElement strtod nul rep idx =
     callReplyGetMapElementInternal strtod nul rep idx REPLY_MAP"

definition callReplyGetAttribute :: "('p, 'd) CallReply \<Rightarrow> ('p, 'd) CallReply option" where
  "callReplyGetAttribute rep = cr_attribute rep"

definition callReplyGetAttributeElement where
  "callReplyGetAttributeElement strtod nul rep idx =
     callReplyGetMapElementInternal strtod nul rep idx REPLY_MAP"

definition callReplyGetBigNumber where
  "callReplyGetBigNumber strtod nul rep = with_parsed strtod nul rep (\<lambda>rep.
     if cr_type rep \<noteq> REPLY_BIG_NUMBER then None else Some (val_str (cr_val rep), cr_len rep))"

definition callReplyGetVerbatim where
  "callReplyGetVerbatim strtod nul rep = with_parsed strtod nul rep (\<lambda>rep.
     if cr_type rep \<noteq> REPLY_VERBATIM_STRING then None
     else Some (val_str (cr_val rep), cr_len rep,
                case cr_val rep of ValVerbatim s f \<Rightarrow> f | _ \<Rightarrow> []))"

definition callReplyGetProto :: "('p, 'd) CallReply \<Rightarrow> string \<times> nat" where
  "callReplyGetProto rep = (cr_proto rep, cr_proto_len rep)"

definition callReplyIsResp3 :: "('p, 'd) CallReply \<Rightarrow> bool" where
  "callReplyIsResp3 rep \<longleftrightarrow> REPLY_FLAG_RESP3 \<in> cr_flags rep"

section \<open>Release\<close>

text \<open>The release walks the tree by type and length. Its model is the number of blocks it hands
  to \<^verbatim>\<open>zfree\<close>; a walk that would leave the element array is None.\<close>

fun sum_frees :: "nat option list \<Rightarrow> nat option" where
  "sum_frees [] = Some 0"
| "sum_frees (x # xs) =
    (case (x, sum_frees xs) of (Some a, Some b) \<Rightarrow> Some (a + b) | _ \<Rightarrow> None)"

definition freed_items :: "('p, 'd) CallReply \<Rightarrow> nat" where
  "freed_items rep =
    (if cr_type rep = REPLY_ARRAY \<or> cr_type rep = REPLY_SET then cr_len rep
     else if cr_type rep = REPLY_MAP \<or> cr_type rep = REPLY_ATTRIBUTE then cr_len rep * 2
     else 0)"

lemma val_array_size:
  "r \<in> set (val_array (cr_val rep)) \<Longrightarrow> size r < size (rep :: ('p, 'd) CallReply)"
  by (cases rep) (auto simp: val_array_def less_Suc_eq_le dest!: size_list_estimation'[where f = size, OF _ order_refl]
      split: reply_val.splits)

lemma attribute_size: "cr_attribute rep = Some a \<Longrightarrow> size a < size (rep :: ('p, 'd) CallReply)"
  by (cases rep) auto

function freeCallReplyInternal :: "('p, 'd) CallReply \<Rightarrow> nat option" where
  "freeCallReplyInternal rep =
    (let arr = val_array (cr_val rep);
         own = (if cr_type rep \<in> {REPLY_ARRAY, REPLY_SET, REPLY_MAP, REPLY_ATTRIBUTE} then
                  (if freed_items rep \<le> length arr
                   then map_option Suc (sum_frees (take (freed_items rep) (map freeCallReplyInternal arr)))
                   else None)
                else Some 0);
         att = (case cr_attribute rep of
                  None \<Rightarrow> Some 0
                | Some a \<Rightarrow> map_option Suc (freeCallReplyInternal a))
     in sum_frees [own, att])"
  by pat_completeness auto
termination
  by (relation "measure size") (auto intro: val_array_size attribute_size)

declare freeCallReplyInternal.simps [simp del]

text \<open>The blocks released by \<open>freeCallReply\<close>: the tree, the protocol buffer, the list of deferred
  errors and the root itself. A reply that is not a root is left alone.\<close>

definition freeCallReply :: "('p, 'd) CallReply \<Rightarrow> nat option" where
  "freeCallReply rep =
    (if REPLY_FLAG_ROOT \<notin> cr_flags rep then Some 0
     else if REPLY_FLAG_PARSED \<in> cr_flags rep \<and> cr_type rep = REPLY_PROMISE then Some 1
     else
       sum_frees
         [if REPLY_FLAG_PARSED \<in> cr_flags rep then freeCallReplyInternal rep else Some 0,
          Some (case original_proto rep of None \<Rightarrow> 0 | Some _ \<Rightarrow> 1),
          Some (case deferred_error_list rep of None \<Rightarrow> 0 | Some _ \<Rightarrow> 1),
          Some 1])"

end
