(* ===== verification/RespValue.thy ===== *)
theory RespValue
  imports RespParser
begin

text \<open>
  The specification of the reply protocol: RESP values, their wire encoding and the side
  conditions under which the encoding is unambiguous. Doubles are an abstract type with a
  printer \<open>d2s\<close> and a reader \<open>strtod\<close>; a value is well formed only if the reader recovers
  each of its doubles from its printed text. Maps and attributes list keys and values
  alternately.
\<close>

datatype 'd resp =
    RNullBulk
  | RNullArray
  | RNull
  | RBulk string
  | RSimple string
  | RError string
  | RInt int
  | RDouble 'd
  | RBool bool
  | RBig string
  | RVerb string string
  | RArray "'d resp list"
  | RSet "'d resp list"
  | RMap "'d resp list"
  | RAttr "'d resp list" "'d resp"

fun encode :: "('d \<Rightarrow> string) \<Rightarrow> 'd resp \<Rightarrow> string" where
  "encode d2s RNullBulk = ''$-1'' @ CRLF"
| "encode d2s RNullArray = ''*-1'' @ CRLF"
| "encode d2s RNull = ''_'' @ CRLF"
| "encode d2s (RBulk s) = ''$'' @ dec (length s) @ CRLF @ s @ CRLF"
| "encode d2s (RSimple s) = ''+'' @ s @ CRLF"
| "encode d2s (RError s) = ''-'' @ s @ CRLF"
| "encode d2s (RInt x) = '':'' @ dec_int x @ CRLF"
| "encode d2s (RDouble d) = '','' @ d2s d @ CRLF"
| "encode d2s (RBool b) = (if b then ''#t'' else ''#f'') @ CRLF"
| "encode d2s (RBig s) = ''('' @ s @ CRLF"
| "encode d2s (RVerb fmt s) = ''='' @ dec (length s + 4) @ CRLF @ fmt @ '':'' @ s @ CRLF"
| "encode d2s (RArray vs) = ''*'' @ dec (length vs) @ CRLF @ concat (map (encode d2s) vs)"
| "encode d2s (RSet vs) = ''~'' @ dec (length vs) @ CRLF @ concat (map (encode d2s) vs)"
| "encode d2s (RMap vs) = ''%'' @ dec (length vs div 2) @ CRLF @ concat (map (encode d2s) vs)"
| "encode d2s (RAttr kvs v) =
     ''|'' @ dec (length kvs div 2) @ CRLF @ concat (map (encode d2s) kvs) @ encode d2s v"

definition line_ok :: "string \<Rightarrow> bool" where
  "line_ok s \<longleftrightarrow> CR \<notin> set s \<and> NUL \<notin> set s"

definition is_attr :: "'d resp \<Rightarrow> bool" where
  "is_attr v = (case v of RAttr _ _ \<Rightarrow> True | _ \<Rightarrow> False)"

text \<open>The largest number of elements whose array of \<^verbatim>\<open>CallReply\<close> objects has a size below
  \<^verbatim>\<open>2 ^ 64\<close> bytes.\<close>

definition max_elements :: nat where "max_elements = 230584300921369395"

fun wf_resp :: "('d \<Rightarrow> string) \<Rightarrow> (string \<Rightarrow> 'd) \<Rightarrow> 'd resp \<Rightarrow> bool" where
  "wf_resp d2s strtod (RBulk s) \<longleftrightarrow> int (length s) \<le> LLONG_MAX"
| "wf_resp d2s strtod (RSimple s) \<longleftrightarrow> line_ok s"
| "wf_resp d2s strtod (RError s) \<longleftrightarrow> line_ok s"
| "wf_resp d2s strtod (RInt x) \<longleftrightarrow> LLONG_MIN \<le> x \<and> x \<le> LLONG_MAX"
| "wf_resp d2s strtod (RDouble d) \<longleftrightarrow>
     line_ok (d2s d) \<and> length (d2s d) \<le> MAX_LONG_DOUBLE_CHARS \<and> strtod (d2s d) = d"
| "wf_resp d2s strtod (RBig s) \<longleftrightarrow> line_ok s"
| "wf_resp d2s strtod (RVerb fmt s) \<longleftrightarrow> length fmt = 3 \<and> int (length s + 4) \<le> LLONG_MAX"
| "wf_resp d2s strtod (RArray vs) \<longleftrightarrow>
     length vs \<le> max_elements \<and> list_all (wf_resp d2s strtod) vs"
| "wf_resp d2s strtod (RSet vs) \<longleftrightarrow>
     length vs \<le> max_elements \<and> list_all (wf_resp d2s strtod) vs"
| "wf_resp d2s strtod (RMap vs) \<longleftrightarrow>
     even (length vs) \<and> length vs \<le> max_elements \<and> list_all (wf_resp d2s strtod) vs"
| "wf_resp d2s strtod (RAttr kvs v) \<longleftrightarrow>
     even (length kvs) \<and> length kvs \<le> max_elements \<and> list_all (wf_resp d2s strtod) kvs \<and>
     \<not> is_attr v \<and> wf_resp d2s strtod v"
| "wf_resp d2s strtod _ \<longleftrightarrow> True"

text \<open>A value that cannot be expressed in RESP2.\<close>

fun has_resp3 :: "'d resp \<Rightarrow> bool" where
  "has_resp3 (RArray vs) = list_ex has_resp3 vs"
| "has_resp3 RNullBulk = False"
| "has_resp3 RNullArray = False"
| "has_resp3 (RBulk s) = False"
| "has_resp3 (RSimple s) = False"
| "has_resp3 (RError s) = False"
| "has_resp3 (RInt x) = False"
| "has_resp3 _ = True"

text \<open>The number of heap blocks the tree of a value needs: one per aggregate, and a header and
  an array per attribute.\<close>

fun blocks :: "'d resp \<Rightarrow> nat" where
  "blocks (RArray vs) = Suc (sum_list (map blocks vs))"
| "blocks (RSet vs) = Suc (sum_list (map blocks vs))"
| "blocks (RMap vs) = Suc (sum_list (map blocks vs))"
| "blocks (RAttr kvs v) = 2 + sum_list (map blocks kvs) + blocks v"
| "blocks _ = 0"

lemma encode_not_Nil [simp]: "encode d2s v \<noteq> []"
  by (cases v) auto

lemma encode_member_length:
  "v \<in> set vs \<Longrightarrow> length (encode d2s v) \<le> length (concat (map (encode d2s) vs))"
  by (induction vs) auto

end
