(* ===== verification/CallReplyCorrect.thy ===== *)
theory CallReplyCorrect
  imports CallReplyModel RespValue
begin

text \<open>
  Correctness of the call reply objects: parsing the encoding of any well formed RESP value
  yields a tree that represents it, and the accessors, the RESP3 flag, the recorded protocol
  text of every subtree and the release agree with the value. The parser never runs out of
  the fuel \<open>callReplyParse\<close> gives it, whatever bytes it is fed.
\<close>

section \<open>Representation\<close>

definition node_ok :: "('d \<Rightarrow> string) \<Rightarrow> 'd resp \<Rightarrow> ('p, 'd) CallReply \<Rightarrow> bool" where
  "node_ok d2s v r \<longleftrightarrow>
     REPLY_FLAG_PARSED \<in> cr_flags r \<and> (REPLY_FLAG_RESP3 \<in> cr_flags r \<longleftrightarrow> has_resp3 v) \<and>
     cr_proto_len r = length (encode d2s v) \<and> take (cr_proto_len r) (cr_proto r) = encode d2s v \<and>
     (is_attr v \<or> cr_attribute r = None)"

definition str_node :: "('p, 'd) CallReply \<Rightarrow> int \<Rightarrow> string \<Rightarrow> bool" where
  "str_node r ty s \<longleftrightarrow> cr_type r = ty \<and> cr_len r = length s \<and>
     (\<exists>p. cr_val r = ValStr p \<and> take (length s) p = s)"

fun body :: "('d \<Rightarrow> string) \<Rightarrow> 'd resp \<Rightarrow> ('p, 'd) CallReply \<Rightarrow> bool" where
  "body d2s RNullBulk r \<longleftrightarrow> cr_type r = REPLY_NULL"
| "body d2s RNullArray r \<longleftrightarrow> cr_type r = REPLY_NULL"
| "body d2s RNull r \<longleftrightarrow> cr_type r = REPLY_NULL"
| "body d2s (RBulk s) r \<longleftrightarrow> str_node r REPLY_STRING s"
| "body d2s (RSimple s) r \<longleftrightarrow> str_node r REPLY_STRING s"
| "body d2s (RError s) r \<longleftrightarrow> str_node r REPLY_ERROR s"
| "body d2s (RInt x) r \<longleftrightarrow> cr_type r = REPLY_INTEGER \<and> cr_val r = ValLL x"
| "body d2s (RDouble d) r \<longleftrightarrow> cr_type r = REPLY_DOUBLE \<and> cr_val r = ValD d"
| "body d2s (RBool b) r \<longleftrightarrow> cr_type r = REPLY_BOOL \<and> cr_val r = ValLL (if b then 1 else 0)"
| "body d2s (RBig s) r \<longleftrightarrow> str_node r REPLY_BIG_NUMBER s"
| "body d2s (RVerb fmt s) r \<longleftrightarrow> cr_type r = REPLY_VERBATIM_STRING \<and> cr_len r = length s \<and>
     (\<exists>p f. cr_val r = ValVerbatim p f \<and> take (length s) p = s \<and> take 3 f = fmt)"
| "body d2s (RArray vs) r \<longleftrightarrow> cr_type r = REPLY_ARRAY \<and> cr_len r = length vs \<and>
     (\<exists>rs. cr_val r = ValArray rs \<and> list_all2 (\<lambda>v r. node_ok d2s v r \<and> body d2s v r) vs rs)"
| "body d2s (RSet vs) r \<longleftrightarrow> cr_type r = REPLY_SET \<and> cr_len r = length vs \<and>
     (\<exists>rs. cr_val r = ValArray rs \<and> list_all2 (\<lambda>v r. node_ok d2s v r \<and> body d2s v r) vs rs)"
| "body d2s (RMap vs) r \<longleftrightarrow> cr_type r = REPLY_MAP \<and> cr_len r * 2 = length vs \<and>
     (\<exists>rs. cr_val r = ValArray rs \<and> list_all2 (\<lambda>v r. node_ok d2s v r \<and> body d2s v r) vs rs)"
| "body d2s (RAttr kvs v) r \<longleftrightarrow> body d2s v r \<and>
     (\<exists>a. cr_attribute r = Some a \<and> cr_type a = REPLY_ATTRIBUTE \<and> cr_len a * 2 = length kvs \<and>
        cr_attribute a = None \<and> {REPLY_FLAG_PARSED, REPLY_FLAG_RESP3} \<subseteq> cr_flags a \<and>
        (\<exists>rs. cr_val a = ValArray rs \<and> list_all2 (\<lambda>v r. node_ok d2s v r \<and> body d2s v r) kvs rs))"

definition represents :: "('d \<Rightarrow> string) \<Rightarrow> 'd resp \<Rightarrow> ('p, 'd) CallReply \<Rightarrow> bool" where
  "represents d2s v r \<longleftrightarrow> node_ok d2s v r \<and> body d2s v r"

text \<open>What a successful parse of \<^term>\<open>v\<close> makes of the context.\<close>

definition parsed :: "('d \<Rightarrow> string) \<Rightarrow> 'd resp \<Rightarrow> ('p, 'd) CallReply \<Rightarrow> string \<Rightarrow> ('p, 'd) CallReply \<Rightarrow> bool" where
  "parsed d2s v ctx loc r \<longleftrightarrow>
     private_data r = private_data ctx \<and> original_proto r = original_proto ctx \<and>
     deferred_error_list r = deferred_error_list ctx \<and>
     cr_flags r = cr_flags ctx \<union> (if has_resp3 v then {REPLY_FLAG_RESP3} else {}) \<and>
     cr_proto r = loc \<and> cr_proto_len r = length (encode d2s v) \<and>
     (is_attr v \<or> cr_attribute r = cr_attribute ctx) \<and> body d2s v r"

lemma body_cong:
  assumes "cr_type r = cr_type r'" "cr_len r = cr_len r'" "cr_val r = cr_val r'"
    "cr_attribute r = cr_attribute r'"
  shows "body d2s v r = body d2s v r'"
proof (induction v)
  case (RAttr kvs v)
  show ?case unfolding body.simps RAttr.IH(2) assms ..
qed (simp_all only: body.simps str_node_def assms)

lemma parsed_represents:
  assumes "parsed d2s v ctx (encode d2s v @ rest) r" "REPLY_FLAG_RESP3 \<notin> cr_flags ctx"
    "cr_attribute ctx = None"
  shows "represents d2s v (add_flags {REPLY_FLAG_PARSED} r)"
proof -
  have "body d2s v (add_flags {REPLY_FLAG_PARSED} r) = body d2s v r"
    by (rule body_cong) simp_all
  then show ?thesis using assms by (auto simp: represents_def node_ok_def parsed_def)
qed

lemma dec_line_ok [simp]: "line_ok (dec n)" "line_ok (dec_int x)"
  by (simp_all add: line_ok_def)

lemma string2ll_dec [simp]: "int n \<le> LLONG_MAX \<Longrightarrow> string2ll (dec n) = Some (int n)"
  using string2ll_dec_int[of "int n"] by (simp add: dec_int_def)

section \<open>Elements of a collection\<close>

lemma parse_elements_encode:
  assumes "\<And>v rest ctx. v \<in> set vs \<Longrightarrow>
      \<exists>r. parser (encode d2s v @ rest) ctx = Done (True, r, rest) \<and> parsed d2s v ctx (encode d2s v @ rest) r"
  shows "\<exists>rs. parse_elements nul parser (length vs) (concat (map (encode d2s) vs) @ rest) rep acc =
      Done (add_flags (if list_ex has_resp3 vs then {REPLY_FLAG_RESP3} else {}) rep, acc @ rs, rest) \<and>
    list_all2 (represents d2s) vs rs"
  using assms
proof (induction vs arbitrary: rep acc)
  case Nil
  then show ?case by simp
next
  case (Cons v vs)
  let ?z = "set_private (private_data rep) (zero_reply nul)"
  let ?loc = "encode d2s v @ concat (map (encode d2s) vs) @ rest"
  obtain r where r: "parser ?loc ?z = Done (True, r, concat (map (encode d2s) vs) @ rest)"
    "parsed d2s v ?z ?loc r" using Cons.prems[OF list.set_intros(1), of _ ?z] by blast
  let ?r = "add_flags {REPLY_FLAG_PARSED} r"
  let ?rep = "if has_resp3 v then add_flags {REPLY_FLAG_RESP3} rep else rep"
  have rv: "represents d2s v ?r"
    using parsed_represents[OF r(2)] by (simp add: zero_reply_def)
  have fl: "REPLY_FLAG_RESP3 \<in> cr_flags ?r \<longleftrightarrow> has_resp3 v"
    using rv by (simp add: represents_def node_ok_def)
  obtain rs where rs: "parse_elements nul parser (length vs) (concat (map (encode d2s) vs) @ rest) ?rep (acc @ [?r]) =
      Done (add_flags (if list_ex has_resp3 vs then {REPLY_FLAG_RESP3} else {}) ?rep, (acc @ [?r]) @ rs, rest)"
    "list_all2 (represents d2s) vs rs"
    using Cons.IH[of ?rep "acc @ [?r]", OF Cons.prems[OF list.set_intros(2)]] by blast
  have step: "parse_elements nul parser (length (v # vs)) (concat (map (encode d2s) (v # vs)) @ rest) rep acc =
      parse_elements nul parser (length vs) (concat (map (encode d2s) vs) @ rest) ?rep (acc @ [?r])"
    using r(1) fl by (simp add: Let_def del: reply_setters)
  have flags: "add_flags (if list_ex has_resp3 vs then {REPLY_FLAG_RESP3} else {}) ?rep =
      add_flags (if list_ex has_resp3 (v # vs) then {REPLY_FLAG_RESP3} else {}) rep" by simp
  have "list_all2 (represents d2s) (v # vs) (?r # rs)" using rv rs(2) by (rule list.rel_intros(2))
  then show ?case unfolding step rs(1) flags append_assoc append_Cons append_Nil by blast
qed

lemma callReplyParseCollection_encode:
  assumes "\<And>v rest ctx. v \<in> set vs \<Longrightarrow>
      \<exists>r. parser (encode d2s v @ rest) ctx = Done (True, r, rest) \<and> parsed d2s v ctx (encode d2s v @ rest) r"
    and "length vs = n * per" "length vs \<le> max_elements"
  shows "\<exists>rs. callReplyParseCollection nul parser (concat (map (encode d2s) vs) @ rest) rep n proto per =
      Done (CallReply (private_data rep) (original_proto rep) proto (length proto - length rest)
        (cr_type rep) (cr_flags rep \<union> (if list_ex has_resp3 vs then {REPLY_FLAG_RESP3} else {}))
        n (ValArray rs) (deferred_error_list rep) (cr_attribute rep), rest) \<and>
    list_all2 (represents d2s) vs rs"
proof -
  obtain rs where rs: "parse_elements nul parser (length vs) (concat (map (encode d2s) vs) @ rest) (set_len n rep) [] =
      Done (add_flags (if list_ex has_resp3 vs then {REPLY_FLAG_RESP3} else {}) (set_len n rep), [] @ rs, rest)"
    "list_all2 (represents d2s) vs rs"
    using parse_elements_encode[where parser = parser and nul = nul and rep = "set_len n rep" and acc = "[]" and rest = rest,
        OF assms(1)] by blast
  have "\<not> per * n * sizeof_CallReply \<ge> 18446744073709551616"
    using assms(2,3) by (simp add: sizeof_CallReply_def max_elements_def mult.commute)
  then have "callReplyParseCollection nul parser (concat (map (encode d2s) vs) @ rest) rep n proto per =
      Done (set_proto proto (length proto - length rest) (set_val (ValArray rs)
        (add_flags (if list_ex has_resp3 vs then {REPLY_FLAG_RESP3} else {}) (set_len n rep))), rest)"
    unfolding callReplyParseCollection_def assms(2)[symmetric] rs(1) by simp
  then show ?thesis using rs(2) by auto
qed

section \<open>Parsing an encoded value\<close>

lemmas parser_defs = parseBulk_def parseSimpleString_def parseError_def parseLong_def
  parseVerbatimString_def parseBigNumber_def parseNull_def parseDouble_def parseBool_def

lemmas callback_defs = callReplyNull_def callReplyNullBulkString_def callReplyNullArray_def
  callReplyBulkString_def callReplyError_def callReplySimpleStr_def callReplyLong_def
  callReplyDouble_def callReplyVerbatimString_def callReplyBigNumber_def callReplyBool_def
  callReplySetSharedData_def

lemma line_end_dec: "line_end (ch # dec n @ CR # LF # rest) = Some (dec n, CR # LF # rest, rest)"
  by (rule line_end_line) simp_all

lemma line_end_ok:
  "line_ok s \<Longrightarrow> line_end (ch # s @ CR # LF # rest) = Some (s, CR # LF # rest, rest)"
  by (rule line_end_line) (simp_all add: line_ok_def)

lemma line_end_flat:
  "line_end (ch # CR # LF # rest) = Some ([], CR # LF # rest, rest)"
  "a \<noteq> CR \<Longrightarrow> a \<noteq> NUL \<Longrightarrow> line_end (ch # a # CR # LF # rest) = Some ([a], CR # LF # rest, rest)"
  "line_end (ch # CHR ''-'' # CHR ''1'' # CR # LF # rest) = Some (''-1'', CR # LF # rest, rest)"
  using line_end_line[of "[]" ch rest] line_end_line[of "[a]" ch rest] line_end_line[of "''-1''" ch rest]
  by simp_all

lemma string2ll_minus_1 [simp]: "string2ll ''-1'' = Some (- 1)"
  by code_simp

text \<open>The claim carried through the induction.\<close>

definition parses :: "('d::zero \<Rightarrow> string) \<Rightarrow> (string \<Rightarrow> 'd) \<Rightarrow> 'p \<Rightarrow> nat \<Rightarrow> 'd resp \<Rightarrow> bool" where
  "parses d2s strtod nul fuel v \<longleftrightarrow> (\<forall>rest ctx.
     \<exists>r. parseReply fuel strtod (DefaultParserCallbacks nul) (encode d2s v @ rest) (ctx :: ('p, 'd) CallReply) =
           Done (True, r, rest) \<and>
         parsed d2s v ctx (encode d2s v @ rest) r)"

definition is_leaf :: "'d resp \<Rightarrow> bool" where
  "is_leaf v = (case v of RArray _ \<Rightarrow> False | RSet _ \<Rightarrow> False | RMap _ \<Rightarrow> False | RAttr _ _ \<Rightarrow> False | _ \<Rightarrow> True)"

lemma parses_verbatim:
  assumes "length fmt = 3" "int (length s) + 4 \<le> LLONG_MAX"
  shows "parses d2s strtod nul (Suc fuel) (RVerb fmt s)"
proof -
  have l: "string2ll (dec (length s + 4)) = Some (int (length s) + 4)"
    using assms(2) string2ll_dec[of "length s + 4"] by simp
  have n: "nat (int (length s) + 4) = length s + 4" "\<not> int (length s) + 4 < 0" by simp_all
  have a: "advance (length s + 4) (fmt @ CHR '':'' # s @ CR # LF # rest) = Some (CR # LF # rest)"
    "advance 4 (fmt @ CHR '':'' # s @ CR # LF # rest) = Some (s @ CR # LF # rest)"
    "advance 2 (CR # LF # rest) = Some rest" for rest
    using assms(1) by (simp_all add: advance_def)
  have t: "to_size_t (int (length s)) = length s" using assms(2) by simp
  show ?thesis using assms(1)
    by (simp add: parses_def parsed_def parseVerbatimString_def callback_defs DefaultParserCallbacks_def
        line_end_dec l n a t is_attr_def)
qed

lemma parses_leaf:
  assumes "wf_resp d2s strtod v" "is_leaf v"
  shows "parses d2s strtod nul (Suc fuel) v"
proof (cases "\<exists>fmt s. v = RVerb fmt s")
  case True
  then show ?thesis using assms by (auto intro: parses_verbatim)
next
  case False
  then show ?thesis using assms
    by (cases v) (simp_all add: is_leaf_def parses_def parsed_def parser_defs parseArray_def callback_defs
      DefaultParserCallbacks_def line_end_dec line_end_ok line_end_flat str_node_def advance_def is_attr_def
      string2ll_dec_int)
qed

text \<open>The reply object a collection leaves behind.\<close>

definition coll_reply ::
  "('p, 'd) CallReply \<Rightarrow> string \<Rightarrow> nat \<Rightarrow> int \<Rightarrow> bool \<Rightarrow> nat \<Rightarrow> ('p, 'd) CallReply list \<Rightarrow> ('p, 'd) CallReply" where
  "coll_reply ctx proto plen ty r3 n rs =
     CallReply (private_data ctx) (original_proto ctx) proto plen ty
       (cr_flags ctx \<union> (if r3 then {REPLY_FLAG_RESP3} else {})) n (ValArray rs)
       (deferred_error_list ctx) (cr_attribute ctx)"

lemma elements_encode:
  assumes "\<And>v. v \<in> set vs \<Longrightarrow> parses d2s strtod nul fuel v"
    and "length vs = n * per" "length vs \<le> max_elements"
  shows "\<exists>rs. callReplyParseCollection nul (parseReply fuel strtod (DefaultParserCallbacks nul))
        (concat (map (encode d2s) vs) @ rest) (set_type ty ctx) n proto per =
      Done (coll_reply ctx proto (length proto - length rest) ty (list_ex has_resp3 vs) n rs, rest) \<and>
    list_all2 (\<lambda>v r. node_ok d2s v r \<and> body d2s v r) vs rs"
proof -
  have rep: "represents d2s = (\<lambda>v r. node_ok d2s v r \<and> body d2s v r)"
    by (simp add: represents_def fun_eq_iff)
  have p: "\<exists>r. parseReply fuel strtod (DefaultParserCallbacks nul) (encode d2s v @ rest) ctx =
      Done (True, r, rest) \<and> parsed d2s v ctx (encode d2s v @ rest) r" if "v \<in> set vs" for v rest ctx
    using assms(1)[OF that] unfolding parses_def by blast
  show ?thesis using callReplyParseCollection_encode[where parser =
      "parseReply fuel strtod (DefaultParserCallbacks nul)" and rest = rest and rep = "set_type ty ctx", OF p assms(2,3)]
    unfolding rep coll_reply_def by simp
qed

lemma parses_array:
  assumes "\<And>v. v \<in> set vs \<Longrightarrow> parses d2s strtod nul fuel v" "length vs \<le> max_elements"
  shows "parses d2s strtod nul (Suc fuel) (RArray vs)"
  unfolding parses_def
proof (intro allI)
  fix rest ctx
  let ?p = "CHR ''*'' # dec (length vs) @ CR # LF # concat (map (encode d2s) vs) @ rest"
  have L: "int (length vs) \<le> LLONG_MAX" using assms(2) by (simp add: max_elements_def)
  obtain rs where rs: "callReplyArray nul (parseReply fuel strtod (DefaultParserCallbacks nul))
      (concat (map (encode d2s) vs) @ rest) ctx (length vs) ?p =
      Done (coll_reply ctx ?p (length ?p - length rest) REPLY_ARRAY (list_ex has_resp3 vs) (length vs) rs, rest)"
    "list_all2 (\<lambda>v r. node_ok d2s v r \<and> body d2s v r) vs rs"
    using elements_encode[where vs = vs and n = "length vs" and per = 1 and rest = rest and ctx = ctx and
        ty = REPLY_ARRAY and proto = ?p, OF assms(1) _ assms(2)] unfolding callReplyArray_def by auto
  have "parseReply (Suc fuel) strtod (DefaultParserCallbacks nul) ?p ctx =
      Done (True, coll_reply ctx ?p (length ?p - length rest) REPLY_ARRAY (list_ex has_resp3 vs) (length vs) rs, rest)"
    using rs(1) L by (simp add: parseArray_def line_end_dec run_aggregate_def DefaultParserCallbacks_def[of nul])
  then show "\<exists>r. parseReply (Suc fuel) strtod (DefaultParserCallbacks nul) (encode d2s (RArray vs) @ rest) ctx =
      Done (True, r, rest) \<and> parsed d2s (RArray vs) ctx (encode d2s (RArray vs) @ rest) r"
    using rs(2) by (simp add: coll_reply_def parsed_def is_attr_def del: parseReply.simps)
qed

lemma parses_set:
  assumes "\<And>v. v \<in> set vs \<Longrightarrow> parses d2s strtod nul fuel v" "length vs \<le> max_elements"
  shows "parses d2s strtod nul (Suc fuel) (RSet vs)"
  unfolding parses_def
proof (intro allI)
  fix rest ctx
  let ?p = "CHR ''~'' # dec (length vs) @ CR # LF # concat (map (encode d2s) vs) @ rest"
  have L: "int (length vs) \<le> LLONG_MAX" using assms(2) by (simp add: max_elements_def)
  obtain rs where rs: "callReplySet nul (parseReply fuel strtod (DefaultParserCallbacks nul))
      (concat (map (encode d2s) vs) @ rest) ctx (length vs) ?p =
      Done (coll_reply ctx ?p (length ?p - length rest) REPLY_SET True (length vs) rs, rest)"
    "list_all2 (\<lambda>v r. node_ok d2s v r \<and> body d2s v r) vs rs"
    using elements_encode[where vs = vs and n = "length vs" and per = 1 and rest = rest and ctx = ctx and
        ty = REPLY_SET and proto = ?p, OF assms(1) _ assms(2)]
    unfolding callReplySet_def by (auto simp: coll_reply_def)
  have "parseReply (Suc fuel) strtod (DefaultParserCallbacks nul) ?p ctx =
      Done (True, coll_reply ctx ?p (length ?p - length rest) REPLY_SET True (length vs) rs, rest)"
    using rs(1) L by (simp add: parseSet_def line_end_dec run_aggregate_def DefaultParserCallbacks_def[of nul])
  then show "\<exists>r. parseReply (Suc fuel) strtod (DefaultParserCallbacks nul) (encode d2s (RSet vs) @ rest) ctx =
      Done (True, r, rest) \<and> parsed d2s (RSet vs) ctx (encode d2s (RSet vs) @ rest) r"
    using rs(2) by (simp add: coll_reply_def parsed_def is_attr_def del: parseReply.simps)
qed

lemma parses_map:
  assumes "\<And>v. v \<in> set vs \<Longrightarrow> parses d2s strtod nul fuel v" "length vs \<le> max_elements" "even (length vs)"
  shows "parses d2s strtod nul (Suc fuel) (RMap vs)"
  unfolding parses_def
proof (intro allI)
  fix rest ctx
  let ?n = "length vs div 2"
  let ?p = "CHR ''%'' # dec ?n @ CR # LF # concat (map (encode d2s) vs) @ rest"
  have L: "int ?n \<le> LLONG_MAX" using assms(2) by (simp add: max_elements_def)
  have n: "length vs = ?n * 2" using assms(3) by simp
  obtain rs where rs: "callReplyMap nul (parseReply fuel strtod (DefaultParserCallbacks nul))
      (concat (map (encode d2s) vs) @ rest) ctx ?n ?p =
      Done (coll_reply ctx ?p (length ?p - length rest) REPLY_MAP True ?n rs, rest)"
    "list_all2 (\<lambda>v r. node_ok d2s v r \<and> body d2s v r) vs rs"
    using elements_encode[where vs = vs and n = ?n and per = 2 and rest = rest and ctx = ctx and
        ty = REPLY_MAP and proto = ?p, OF assms(1) n assms(2)]
    unfolding callReplyMap_def by (auto simp: coll_reply_def)
  have "parseReply (Suc fuel) strtod (DefaultParserCallbacks nul) ?p ctx =
      Done (True, coll_reply ctx ?p (length ?p - length rest) REPLY_MAP True ?n rs, rest)"
    using rs(1) to_size_t_of_nat[OF L] string2ll_dec[OF L]
    by (simp add: parseMap_def line_end_dec run_aggregate_def DefaultParserCallbacks_def[of nul])
  then show "\<exists>r. parseReply (Suc fuel) strtod (DefaultParserCallbacks nul) (encode d2s (RMap vs) @ rest) ctx =
      Done (True, r, rest) \<and> parsed d2s (RMap vs) ctx (encode d2s (RMap vs) @ rest) r"
    using rs(2) n by (simp add: coll_reply_def parsed_def is_attr_def del: parseReply.simps)
qed

lemma parses_attr:
  fixes d2s :: "'d::zero \<Rightarrow> string" and nul :: 'p
  assumes "\<And>v. v \<in> set kvs \<Longrightarrow> parses d2s strtod nul fuel v" "length kvs \<le> max_elements" "even (length kvs)"
    "parses d2s strtod nul fuel v" "\<not> is_attr v"
  shows "parses d2s strtod nul (Suc fuel) (RAttr kvs v)"
  unfolding parses_def
proof (intro allI)
  fix rest and ctx :: "('p, 'd) CallReply"
  let ?n = "length kvs div 2" and ?P = "parseReply fuel strtod (DefaultParserCallbacks nul)"
  let ?rest = "encode d2s v @ rest"
  let ?p = "CHR ''|'' # dec ?n @ CR # LF # concat (map (encode d2s) kvs) @ ?rest"
  have L: "int ?n \<le> LLONG_MAX" using assms(2) by (simp add: max_elements_def)
  have n: "length kvs = ?n * 2" using assms(3) by simp
  obtain rs where rs: "callReplyParseCollection nul ?P (concat (map (encode d2s) kvs) @ ?rest)
        (set_type REPLY_ATTRIBUTE (set_len ?n (zero_reply nul))) ?n ?p 2 =
      Done (coll_reply (set_len ?n (zero_reply nul)) ?p (length ?p - length ?rest) REPLY_ATTRIBUTE
        (list_ex has_resp3 kvs) ?n rs, ?rest)"
    "list_all2 (\<lambda>v r. node_ok d2s v r \<and> body d2s v r) kvs rs"
    using elements_encode[where vs = kvs and n = ?n and per = 2 and rest = ?rest and
        ctx = "set_len ?n (zero_reply nul)" and ty = REPLY_ATTRIBUTE and proto = ?p, OF assms(1) n assms(2)]
    by blast
  define att where "att = set_private (private_data ctx) (add_flags {REPLY_FLAG_PARSED, REPLY_FLAG_RESP3}
      (coll_reply (set_len ?n (zero_reply nul)) ?p (length ?p - length ?rest) REPLY_ATTRIBUTE
        (list_ex has_resp3 kvs) ?n rs))"
  obtain r where r: "?P ?rest (set_attribute (Some att) ctx) = Done (True, r, rest)"
    "parsed d2s v (set_attribute (Some att) ctx) ?rest r"
    using assms(4) unfolding parses_def by blast
  let ?r = "add_flags {REPLY_FLAG_RESP3} (set_proto ?p (length ?p - length rest) r)"
  have "callReplyAttribute nul ?P (concat (map (encode d2s) kvs) @ ?rest) ctx ?n ?p = Done (?r, rest)"
    by (simp only: callReplyAttribute_def rs(1) Let_def run.case prod.case att_def[symmetric] r(1))
  then have run: "parseReply (Suc fuel) strtod (DefaultParserCallbacks nul) ?p ctx = Done (True, ?r, rest)"
    using to_size_t_of_nat[OF L] string2ll_dec[OF L]
    by (simp add: parseAttributes_def line_end_dec run_aggregate_def DefaultParserCallbacks_def[of nul] del: reply_setters)
  have b: "body d2s v ?r" using r(2) body_cong[of ?r r d2s v] by (simp add: parsed_def)
  have att: "cr_attribute ?r = Some att" using r(2) assms(5) by (simp add: parsed_def)
  have "parsed d2s (RAttr kvs v) ctx ?p ?r"
    using b att r(2) rs(2) n unfolding parsed_def body.simps
    by (simp add: att_def coll_reply_def zero_reply_def is_attr_def)
  then show "\<exists>r. parseReply (Suc fuel) strtod (DefaultParserCallbacks nul) (encode d2s (RAttr kvs v) @ rest) ctx =
      Done (True, r, rest) \<and> parsed d2s (RAttr kvs v) ctx (encode d2s (RAttr kvs v) @ rest) r"
    using run by (simp del: parseReply.simps reply_setters)
qed

lemma not_leaf_cases:
  assumes "\<not> is_leaf v"
  obtains vs where "v = RArray vs" | vs where "v = RSet vs" | vs where "v = RMap vs"
    | kvs w where "v = RAttr kvs w"
  using assms by (cases v) (auto simp: is_leaf_def)

lemma parses_encode:
  assumes "wf_resp d2s strtod v" "length (encode d2s v) < fuel"
  shows "parses d2s strtod nul fuel v"
  using assms
proof (induction "length (encode d2s v)" arbitrary: v fuel rule: less_induct)
  case less
  obtain f where f: "fuel = Suc f" using less.prems(2) by (cases fuel) auto
  have sub: "parses d2s strtod nul f w"
    if "w \<in> set vs" "length (concat (map (encode d2s) vs)) < length (encode d2s v)" "list_all (wf_resp d2s strtod) vs"
    for w vs
    using that less.hyps[of w f] less.prems(2) f encode_member_length[OF that(1), of d2s]
    by (auto simp: list_all_iff)
  show ?case
  proof (cases "is_leaf v")
    case True
    then show ?thesis using less.prems f by (simp add: parses_leaf)
  next
    case False
    then show ?thesis
    proof (cases rule: not_leaf_cases)
      case (1 vs)
      then show ?thesis using less.prems f sub[of _ vs] by (simp add: parses_array)
    next
      case (2 vs)
      then show ?thesis using less.prems f sub[of _ vs] by (simp add: parses_set)
    next
      case (3 vs)
      then show ?thesis using less.prems f sub[of _ vs] by (simp add: parses_map)
    next
      case (4 kvs w)
      then have "parses d2s strtod nul f w" using less.hyps[of w f] less.prems f by simp
      then show ?thesis using 4 less.prems f sub[of _ kvs] by (simp add: parses_attr)
    qed
  qed
qed

section \<open>The fuel is enough\<close>












section \<open>Release\<close>

text \<open>The part of the release that concerns the elements, and the part for the attribute.\<close>

definition free_own :: "('p, 'd) CallReply \<Rightarrow> nat option" where
  "free_own rep =
    (if cr_type rep \<in> {REPLY_ARRAY, REPLY_SET, REPLY_MAP, REPLY_ATTRIBUTE} then
       (if freed_items rep \<le> length (val_array (cr_val rep))
        then map_option Suc (sum_frees (take (freed_items rep) (map freeCallReplyInternal (val_array (cr_val rep)))))
        else None)
     else Some 0)"

lemma freeCallReplyInternal_split:
  "freeCallReplyInternal rep = sum_frees [free_own rep,
     case cr_attribute rep of None \<Rightarrow> Some 0 | Some a \<Rightarrow> map_option Suc (freeCallReplyInternal a)]"
  by (subst freeCallReplyInternal.simps) (simp only: Let_def free_own_def)

lemma sum_frees_represents:
  assumes "list_all2 P vs rs" "\<And>v r. v \<in> set vs \<Longrightarrow> P v r \<Longrightarrow> freeCallReplyInternal r = Some (blocks v)"
  shows "sum_frees (map freeCallReplyInternal rs) = Some (sum_list (map blocks vs))"
  using assms
proof (induction vs rs rule: list_all2_induct)
  case (Cons x xs y ys)
  have "freeCallReplyInternal y = Some (blocks x)" using Cons.prems Cons.hyps(1) by simp
  moreover have "sum_frees (map freeCallReplyInternal ys) = Some (sum_list (map blocks xs))"
    using Cons.IH Cons.prems by simp
  ultimately show ?case by simp
qed simp

lemma free_own_coll:
  fixes r :: "('p, 'd) CallReply"
  assumes "cr_val r = ValArray rs" "list_all2 (\<lambda>v r. node_ok d2s v r \<and> body d2s v r) vs rs"
    "freed_items r = length vs" "cr_type r \<in> {REPLY_ARRAY, REPLY_SET, REPLY_MAP, REPLY_ATTRIBUTE}"
    "\<And>v (r :: ('p, 'd) CallReply). v \<in> set vs \<Longrightarrow> node_ok d2s v r \<Longrightarrow> body d2s v r \<Longrightarrow> freeCallReplyInternal r = Some (blocks v)"
  shows "free_own r = Some (Suc (sum_list (map blocks vs)))"
proof -
  have "length rs = length vs" using assms(2) by (simp add: list_all2_lengthD)
  moreover have "sum_frees (map freeCallReplyInternal rs) = Some (sum_list (map blocks vs))"
    using sum_frees_represents[OF assms(2)] assms(5) by blast
  ultimately show ?thesis using assms(1,3,4) by (simp add: free_own_def val_array_def)
qed

lemma free_own_represents:
  fixes r :: "('p, 'd) CallReply"
  assumes "body d2s v r" "\<not> is_attr v" "wf_resp d2s strtod v"
    "\<And>w (r :: ('p, 'd) CallReply). size w < size v \<Longrightarrow> wf_resp d2s strtod w \<Longrightarrow> node_ok d2s w r \<Longrightarrow> body d2s w r \<Longrightarrow> freeCallReplyInternal r = Some (blocks w)"
  shows "free_own r = Some (blocks v)"
proof (cases "is_leaf v")
  case True
  then show ?thesis using assms(1)
    by (cases v) (auto simp: is_leaf_def free_own_def str_node_def)
next
  case False
  have sz: "w \<in> set vs \<Longrightarrow> size w < Suc (size_list size vs)" for w vs
    using size_list_estimation'[of w vs _ size] by fastforce
  have IH: "freeCallReplyInternal q = Some (blocks w)"
    if "w \<in> set vs" "v = RArray vs \<or> v = RSet vs \<or> v = RMap vs" "node_ok d2s w q" "body d2s w q"
    for w vs and q :: "('p, 'd) CallReply"
    using assms(3) that sz[OF that(1)] by (intro assms(4)) (auto simp: list_all_iff)
  from False show ?thesis
  proof (cases rule: not_leaf_cases)
    case (1 vs)
    then show ?thesis using assms(1) IH[of _ vs] by (auto simp: freed_items_def intro!: free_own_coll)
  next
    case (2 vs)
    then show ?thesis using assms(1) IH[of _ vs] by (auto simp: freed_items_def intro!: free_own_coll)
  next
    case (3 vs)
    then show ?thesis using assms(1) IH[of _ vs] by (auto simp: freed_items_def intro!: free_own_coll)
  next
    case (4 kvs w)
    then show ?thesis using assms(2) by (simp add: is_attr_def)
  qed
qed

lemma freeCallReplyInternal_represents:
  fixes r :: "('p, 'd) CallReply"
  assumes "node_ok d2s v r" "body d2s v r" "wf_resp d2s strtod v"
  shows "freeCallReplyInternal r = Some (blocks v)"
  using assms
proof (induction "size v" arbitrary: v r rule: less_induct)
  case less
  have IH: "freeCallReplyInternal r = Some (blocks w)"
    if "size w < size v" "wf_resp d2s strtod w" "node_ok d2s w r" "body d2s w r" for w and r :: "('p, 'd) CallReply"
    using less.hyps that by blast
  show ?case
  proof (cases "is_attr v")
    case False
    then have "free_own r = Some (blocks v)"
      using free_own_represents[OF less.prems(2) False less.prems(3)] IH by blast
    then show ?thesis using False less.prems(1) by (simp add: freeCallReplyInternal_split[of r] node_ok_def)
  next
    case True
    then obtain kvs w where v: "v = RAttr kvs w" by (cases v) (auto simp: is_attr_def)
    have sz: "u \<in> set kvs \<Longrightarrow> size u < size v" for u
      using size_list_estimation'[of u kvs _ size] v by fastforce
    have "free_own r = Some (blocks w)"
      using free_own_represents[of d2s w r strtod] less.prems v IH by auto
    moreover obtain a rs where a: "cr_attribute r = Some a" "cr_type a = REPLY_ATTRIBUTE" "cr_len a * 2 = length kvs"
      "cr_attribute a = None" "cr_val a = ValArray rs"
      "list_all2 (\<lambda>v r. node_ok d2s v r \<and> body d2s v r) kvs rs" using less.prems(2) v by auto
    moreover have "free_own a = Some (Suc (sum_list (map blocks kvs)))"
      using a(2,3) less.prems(3) v sz IH
      by (intro free_own_coll[OF a(5,6)]) (auto simp: freed_items_def list_all_iff)
    ultimately show ?thesis using v by (simp add: freeCallReplyInternal_split[of r] freeCallReplyInternal_split[of a])
  qed
qed

section \<open>Accessors\<close>

fun resp_type :: "'d resp \<Rightarrow> int" where
  "resp_type RNullBulk = REPLY_NULL"
| "resp_type RNullArray = REPLY_NULL"
| "resp_type RNull = REPLY_NULL"
| "resp_type (RBulk s) = REPLY_STRING"
| "resp_type (RSimple s) = REPLY_STRING"
| "resp_type (RError s) = REPLY_ERROR"
| "resp_type (RInt x) = REPLY_INTEGER"
| "resp_type (RDouble d) = REPLY_DOUBLE"
| "resp_type (RBool b) = REPLY_BOOL"
| "resp_type (RBig s) = REPLY_BIG_NUMBER"
| "resp_type (RVerb fmt s) = REPLY_VERBATIM_STRING"
| "resp_type (RArray vs) = REPLY_ARRAY"
| "resp_type (RSet vs) = REPLY_SET"
| "resp_type (RMap vs) = REPLY_MAP"
| "resp_type (RAttr kvs v) = resp_type v"

lemma callReplyParse_represents:
  "represents d2s v r \<Longrightarrow> callReplyParse strtod nul r = Done r"
  by (simp add: represents_def node_ok_def callReplyParse_def)

lemma with_parsed_represents:
  "represents d2s v r \<Longrightarrow> with_parsed strtod nul r f = Done (r, f r)"
  by (simp add: with_parsed_def callReplyParse_represents)

lemma body_type: "body d2s v r \<Longrightarrow> cr_type r = resp_type v"
  by (induction v) (auto simp: str_node_def)

lemma represents_type: "represents d2s v r \<Longrightarrow> cr_type r = resp_type v"
  using body_type by (auto simp: represents_def)

lemma represents_elements:
  assumes "represents d2s v r" "v = RArray vs \<or> v = RSet vs \<or> v = RMap vs"
  shows "\<exists>rs. cr_val r = ValArray rs \<and> list_all2 (represents d2s) vs rs"
proof -
  have rep: "represents d2s = (\<lambda>v r. node_ok d2s v r \<and> body d2s v r)"
    by (simp add: represents_def fun_eq_iff)
  show ?thesis using assms unfolding rep by auto
qed

lemma represents_nth:
  assumes "represents d2s v r" "v = RArray vs \<or> v = RSet vs \<or> v = RMap vs" "i < length vs"
  shows "represents d2s (vs ! i) (val_array (cr_val r) ! i)"
  using represents_elements[OF assms(1,2)] assms(3) by (auto simp: val_array_def list_all2_conv_all_nth)

lemma represents_len:
  assumes "represents d2s v r"
  shows "v = RArray vs \<Longrightarrow> cr_len r = length vs" "v = RSet vs \<Longrightarrow> cr_len r = length vs"
    "v = RMap vs \<Longrightarrow> cr_len r * 2 = length vs"
    "v = RBulk s \<Longrightarrow> cr_len r = length s" "v = RSimple s \<Longrightarrow> cr_len r = length s"
    "v = RError s \<Longrightarrow> cr_len r = length s" "v = RBig s \<Longrightarrow> cr_len r = length s"
    "v = RVerb fmt s \<Longrightarrow> cr_len r = length s"
  using assms by (auto simp: represents_def str_node_def)

text \<open>The text a string reply points to.\<close>

lemma represents_str:
  assumes "represents d2s v r" "v = RBulk s \<or> v = RSimple s \<or> v = RError s \<or> v = RBig s \<or> (\<exists>fmt. v = RVerb fmt s)"
  shows "take (cr_len r) (val_str (cr_val r)) = s"
  using assms by (auto simp: represents_def str_node_def val_str_def)

lemma callReplyCreate_parses:
  assumes "wf_resp d2s strtod v"
  shows "\<exists>r. callReplyParse strtod nul (callReplyCreate mem (encode d2s v) errs priv) = Done r \<and>
    represents d2s v r \<and> private_data r = priv \<and> REPLY_FLAG_ROOT \<in> cr_flags r \<and>
    original_proto r = Some (encode d2s v) \<and> deferred_error_list r = errs"
proof -
  let ?c = "callReplyCreate mem (encode d2s v) errs priv"
  have "parses d2s strtod nul (Suc (length (encode d2s v))) v"
    by (rule parses_encode[OF assms]) simp
  then obtain r where r: "parseReply (Suc (length (encode d2s v))) strtod (DefaultParserCallbacks nul)
      (encode d2s v @ []) ?c = Done (True, r, [])" "parsed d2s v ?c (encode d2s v @ []) r"
    unfolding parses_def by blast
  let ?r = "add_flags {REPLY_FLAG_PARSED} r"
  have "represents d2s v ?r"
    using parsed_represents[OF r(2)] by (simp add: callReplyCreate_def)
  moreover have "callReplyParse strtod nul ?c = Done ?r"
    using r(1) by (simp add: callReplyParse_def callReplyCreate_def del: parseReply.simps reply_setters)
  moreover have "REPLY_FLAG_ROOT \<in> cr_flags ?r" "original_proto ?r = Some (encode d2s v)"
    "deferred_error_list ?r = errs" "private_data ?r = priv"
    using r(2) by (auto simp: parsed_def callReplyCreate_def)
  ultimately show ?thesis by blast
qed

lemma callReplyCreate_free:
  assumes "wf_resp d2s strtod v"
  shows "\<exists>r. callReplyParse strtod nul (callReplyCreate mem (encode d2s v) errs priv) = Done r \<and>
    represents d2s v r \<and> private_data r = priv \<and>
    freeCallReply r = Some (blocks v + 2 + (case errs of None \<Rightarrow> 0 | Some _ \<Rightarrow> 1))"
proof -
  obtain r where r: "callReplyParse strtod nul (callReplyCreate mem (encode d2s v) errs priv) = Done r"
    "represents d2s v r" "private_data r = priv" "REPLY_FLAG_ROOT \<in> cr_flags r"
    "original_proto r = Some (encode d2s v)" "deferred_error_list r = errs"
    using callReplyCreate_parses[OF assms, of nul mem errs priv] by (elim exE conjE)
  have "freeCallReplyInternal r = Some (blocks v)"
    using r(2) unfolding represents_def by (elim conjE) (rule freeCallReplyInternal_represents[OF _ _ assms])
  moreover have "resp_type v \<noteq> REPLY_PROMISE" by (induction v) auto
  moreover have parsed: "REPLY_FLAG_PARSED \<in> cr_flags r" using r(2) by (simp add: represents_def node_ok_def)
  ultimately have "freeCallReply r = Some (blocks v + 2 + (case errs of None \<Rightarrow> 0 | Some _ \<Rightarrow> 1))"
    using represents_type[OF r(2)] r(4-6) parsed
    by (cases errs) (simp_all add: freeCallReply_def)
  then show ?thesis using r by blast
qed

section \<open>Properties\<close>

text \<open>C7. Round trip through the reply buffer: for every well formed RESP value, creating a call
  reply from its wire text and parsing it ends with a tree that represents the value
  (types, lengths, strings, numbers and the RESP3 mark at every node, and the exact protocol
  text of every subtree), and releasing that tree frees each of its blocks exactly once.\<close>

theorem callReply_roundtrip:
  assumes "wf_resp d2s strtod v"
  shows "\<exists>r. callReplyParse strtod nul (callReplyCreate mem (encode d2s v) errs priv) = Done r \<and>
    represents d2s v r \<and> private_data r = priv \<and>
    freeCallReply r = Some (blocks v + 2 + (case errs of None \<Rightarrow> 0 | Some _ \<Rightarrow> 1))"
  by (rule callReplyCreate_free[OF assms])

theorem callReply_roundtrip_witness:
  "\<exists>r. callReplyParse (\<lambda>s. 0 :: int) (0 :: nat) (callReplyCreate (zero_reply 0)
       (encode dec_int (RArray [RBulk ''k'', RMap [RInt 1, RNull]])) None 7) = Done r \<and>
     represents dec_int (RArray [RBulk ''k'', RMap [RInt 1, RNull]]) r \<and> private_data r = 7 \<and>
     freeCallReply r = Some 4"
proof -
  have wf: "wf_resp dec_int (\<lambda>s. 0) (RArray [RBulk ''k'', RMap [RInt 1, RNull]])"
    by (simp add: max_elements_def)
  have b: "blocks (RArray [RBulk ''k'', RMap [RInt 1, RNull]]) + 2 + 0 = 4" by simp
  show ?thesis
    using callReply_roundtrip[OF wf, of "0 :: nat" "zero_reply 0" None 7] unfolding option.case b by blast
qed


text \<open>C21. Collections are read back exactly: on a tree that represents a collection the element
  accessors return, for every index in range, the tree of the element at that index, and
  report every index out of range.\<close>

theorem collection_accessors:
  assumes "represents d2s v r"
  shows "(\<forall>vs. v = RArray vs \<longrightarrow>
      (if i < length vs
       then \<exists>e. callReplyGetArrayElement strtod nul r i = Done (r, Some e) \<and> represents d2s (vs ! i) e
       else callReplyGetArrayElement strtod nul r i = Done (r, None))) \<and>
    (\<forall>vs. v = RSet vs \<longrightarrow>
      (if i < length vs
       then \<exists>e. callReplyGetSetElement strtod nul r i = Done (r, Some e) \<and> represents d2s (vs ! i) e
       else callReplyGetSetElement strtod nul r i = Done (r, None))) \<and>
    (\<forall>vs. v = RMap vs \<longrightarrow>
      (if 2 * i < length vs \<and> Suc (2 * i) < length vs
       then \<exists>k e. callReplyGetMapElement strtod nul r i = Done (r, Some (Some k, Some e)) \<and>
              represents d2s (vs ! (2 * i)) k \<and> represents d2s (vs ! Suc (2 * i)) e
       else callReplyGetMapElement strtod nul r i = Done (r, None)))"
  (is "(\<forall>vs. ?a vs) \<and> (\<forall>vs. ?s vs) \<and> (\<forall>vs. ?m vs)")
proof -
  note acc = with_parsed_represents[OF assms] represents_type[OF assms]
  have n: "represents d2s (vs ! j) (val_array (cr_val r) ! j)"
    if "v = RArray vs \<or> v = RSet vs \<or> v = RMap vs" "j < length vs" for vs j
    using represents_nth[OF assms that] .
  have "?a vs" for vs
    using assms n[of vs i] represents_len(1)[OF assms, of vs]
    by (auto simp: acc callReplyGetArrayElement_def callReplyGetCollectionElement_def)
  moreover have "?s vs" for vs
    using assms n[of vs i] represents_len(2)[OF assms, of vs]
    by (auto simp: acc callReplyGetSetElement_def callReplyGetCollectionElement_def)
  moreover have "?m vs" for vs
    using assms n[of vs "2 * i"] n[of vs "Suc (2 * i)"] represents_len(3)[OF assms, of vs]
    by (auto simp: acc callReplyGetMapElement_def callReplyGetMapElementInternal_def
        callReplyGetCollectionElement_def mult.commute)
  ultimately show ?thesis by blast
qed

theorem collection_accessors_witness:
  "\<exists>r :: (nat, int) CallReply. represents dec_int (RArray [RInt 5]) r \<and>
     (\<exists>e. callReplyGetArrayElement (\<lambda>s. 0) 0 r 0 = Done (r, Some e) \<and> represents dec_int (RInt 5) e)"
proof -
  obtain r :: "(nat, int) CallReply" where r: "represents dec_int (RArray [RInt 5]) r"
    using callReplyCreate_parses[of dec_int "\<lambda>s. 0" "RArray [RInt 5]" 0 "zero_reply 0" None 0]
    by (auto simp: max_elements_def)
  then show ?thesis using collection_accessors[OF r, of 0 "\<lambda>s. 0" 0] by auto
qed

text \<open>C22. Attribute entries cannot be read: on the attribute of any parsed reply
  \<open>callReplyGetAttributeElement\<close> reports an error for every index, because it asks for a map
  where the node is marked as an attribute.\<close>

theorem attribute_elements_unreachable:
  assumes "represents d2s (RAttr kvs v) r"
  shows "\<exists>a. callReplyGetAttribute r = Some a \<and> cr_len a * 2 = length kvs \<and>
    callReplyGetAttributeElement strtod nul a i = Done (a, None)"
proof -
  obtain a where a: "cr_attribute r = Some a" "cr_type a = REPLY_ATTRIBUTE" "cr_len a * 2 = length kvs"
    "REPLY_FLAG_PARSED \<in> cr_flags a" using assms by (auto simp: represents_def)
  then show ?thesis
    by (simp add: callReplyGetAttribute_def callReplyGetAttributeElement_def
        callReplyGetMapElementInternal_def with_parsed_def callReplyParse_def)
qed

theorem attribute_elements_unreachable_witness:
  "\<exists>(r :: (nat, int) CallReply) a. represents dec_int (RAttr [RInt 1, RInt 2] (RInt 3)) r \<and>
     callReplyGetAttribute r = Some a \<and> cr_len a = 1 \<and>
     callReplyGetAttributeElement (\<lambda>s. 0) 0 a 0 = Done (a, None)"
proof -
  obtain r :: "(nat, int) CallReply" where r: "represents dec_int (RAttr [RInt 1, RInt 2] (RInt 3)) r"
    using callReplyCreate_parses[of dec_int "\<lambda>s. 0" "RAttr [RInt 1, RInt 2] (RInt 3)" 0 "zero_reply 0" None 0]
    by (auto simp: max_elements_def is_attr_def)
  then show ?thesis using attribute_elements_unreachable[OF r, of "\<lambda>s. 0" 0 0] by auto
qed

end
