(* ===== verification/Networking.thy ===== *)
theory Networking
  imports Util
begin

text \<open>
  The reply side of \<^verbatim>\<open>src/src/networking.c\<close>: how the bytes of a reply reach the output
  buffers of a client. A client owns a static buffer and, behind it, a list of reply blocks;
  a block may be a NULL placeholder left by \<open>addReplyDeferredLen\<close> and filled later by
  \<open>setDeferredReply\<close>. The abstraction \<open>client_output\<close> is the byte sequence the peer
  will see; the refinement results show that every \<open>addReply\<close> function appends exactly
  its protocol text to it, whatever the chunking, and that the deferred functions fill
  their hole in place.

  The environment record carries what lives outside this file: the usable size the allocator
  grants, the verdict of \<open>checkClientOutputBufferLimits\<close>, the state of the replication
  buffers and whether a push message has to be postponed. Payloads are plain bytes: the
  copy-avoidance payloads (\<open>BULK_STR_REF\<close>) are only built for connected clients by
  \<open>isCopyAvoidPreferred\<close> and are not modelled; encoded buffers they leave behind are.
\<close>

section \<open>Data\<close>

datatype client_flag =
    CLIENT_SLAVE | CLIENT_MASTER | CLIENT_MONITOR | CLIENT_MULTI | CLIENT_BLOCKED
  | CLIENT_CLOSE_AFTER_REPLY | CLIENT_SCRIPT | CLIENT_CLOSE_ASAP | CLIENT_MASTER_FORCE_REPLY
  | CLIENT_PENDING_WRITE | CLIENT_REPLY_OFF | CLIENT_REPLY_SKIP | CLIENT_MODULE
  | CLIENT_DENY_BLOCKING | CLIENT_PUSHING | CLIENT_ASM_MIGRATING

text \<open>A reply block: \<^verbatim>\<open>used\<close> is the length of \<open>blk_buf\<close>, the bytes written so far.\<close>

record clientReplyBlock =
  blk_size :: nat
  blk_encoded :: bool
  blk_buf :: string

record client =
  cl_flags :: "client_flag set"
  cl_io_close_asap :: bool
  cl_main_thread :: bool
  cl_conn :: bool
  cl_resp :: nat
  cl_replstate :: nat
  cl_stream_on_ack :: bool
  cl_buf :: string
  cl_buf_usable_size :: nat
  cl_buf_encoded :: bool
  cl_buf_peak :: nat
  cl_reply :: "clientReplyBlock option list"
  cl_reply_bytes :: nat
  cl_reply_bytes_shared :: nat
  cl_net_output_bytes :: nat
  cl_deferred_errors :: "string list option"
  cl_pending_push :: "clientReplyBlock option list"

record net_env =
  zmalloc_usable :: "nat \<Rightarrow> nat"
  over_obuf_limits :: "client \<Rightarrow> bool"
  slave_has_pending :: "client \<Rightarrow> bool"
  postpone_push :: bool

definition PROTO_REPLY_CHUNK_BYTES :: nat where
  "PROTO_REPLY_CHUNK_BYTES = 16 * 1024"

text \<open>\<^verbatim>\<open>sizeof(clientReplyBlock)\<close> and \<^verbatim>\<open>sizeof(payloadHeader)\<close>.\<close>

definition sizeof_block :: nat where "sizeof_block = 24"
definition sizeof_header :: nat where "sizeof_header = 9"

section \<open>Permission to write\<close>

definition clientTypeIsSlave :: "client \<Rightarrow> bool" where
  "clientTypeIsSlave c \<longleftrightarrow> CLIENT_SLAVE \<in> cl_flags c \<and>
     CLIENT_MONITOR \<notin> cl_flags c \<and> CLIENT_ASM_MIGRATING \<notin> cl_flags c"

definition clientHasPendingReplies :: "net_env \<Rightarrow> client \<Rightarrow> bool" where
  "clientHasPendingReplies env c =
    (if clientTypeIsSlave c then slave_has_pending env c
     else cl_buf c \<noteq> [] \<or> cl_reply c \<noteq> [])"

definition freeClientAsync :: "client \<Rightarrow> client" where
  "freeClientAsync c =
    (if \<not> cl_main_thread c then c\<lparr>cl_io_close_asap := True\<rparr>
     else if CLIENT_CLOSE_ASAP \<in> cl_flags c \<or> CLIENT_SCRIPT \<in> cl_flags c then c
     else c\<lparr>cl_flags := insert CLIENT_CLOSE_ASAP (cl_flags c)\<rparr>)"

definition putClientInPendingWriteQueue :: "client \<Rightarrow> client" where
  "putClientInPendingWriteQueue c =
    (if CLIENT_PENDING_WRITE \<notin> cl_flags c \<and>
        (cl_replstate c = 0 \<or> cl_replstate c = 12 \<or> (cl_replstate c = 9 \<and> \<not> cl_stream_on_ack c))
     then c\<lparr>cl_flags := insert CLIENT_PENDING_WRITE (cl_flags c)\<rparr>
     else c)"

definition prepareClientToWrite :: "net_env \<Rightarrow> client \<Rightarrow> bool \<times> client" where
  "prepareClientToWrite env c =
    (if CLIENT_SCRIPT \<in> cl_flags c \<or> CLIENT_MODULE \<in> cl_flags c then (True, c)
     else if CLIENT_CLOSE_ASAP \<in> cl_flags c then (False, c)
     else if (CLIENT_REPLY_OFF \<in> cl_flags c \<or> CLIENT_REPLY_SKIP \<in> cl_flags c) \<and>
             CLIENT_PUSHING \<notin> cl_flags c then (False, c)
     else if CLIENT_MASTER \<in> cl_flags c \<and> CLIENT_MASTER_FORCE_REPLY \<notin> cl_flags c then (False, c)
     else if \<not> cl_conn c then (False, c)
     else (True, if cl_main_thread c \<and> \<not> clientHasPendingReplies env c
                 then putClientInPendingWriteQueue c else c))"

definition closeClientOnOutputBufferLimitReached :: "net_env \<Rightarrow> client \<Rightarrow> client" where
  "closeClientOnOutputBufferLimitReached env c =
    (if \<not> cl_conn c then c
     else if (cl_reply_bytes c = 0 \<and> cl_reply_bytes_shared c = 0 \<and> \<not> clientTypeIsSlave c) \<or>
             CLIENT_CLOSE_ASAP \<in> cl_flags c then c
     else if over_obuf_limits env c then freeClientAsync c
     else c)"

section \<open>Low level writes\<close>

text \<open>The packed header of a chunk in an encoded buffer: the payload length as eight little
  endian bytes, then the payload type (\<open>PLAIN_REPLY\<close> is 0).\<close>

fun le_bytes :: "nat \<Rightarrow> nat \<Rightarrow> string" where
  "le_bytes 0 n = []"
| "le_bytes (Suc k) n = char_of (n mod 256) # le_bytes k (n div 256)"

definition payload_header :: "nat \<Rightarrow> string" where
  "payload_header len = le_bytes 8 len @ [char_of (0::nat)]"

definition tryAddPayload :: "string \<Rightarrow> nat \<Rightarrow> string \<Rightarrow> string option" where
  "tryAddPayload b sz payload =
    (if length b + sizeof_header + length payload > sz then None
     else Some (b @ payload_header (length payload) @ payload))"

definition addReplyPayloadToList ::
  "net_env \<Rightarrow> client \<Rightarrow> clientReplyBlock option list \<Rightarrow> string \<Rightarrow>
   client \<times> clientReplyBlock option list" where
  "addReplyPayloadToList env c reply_list payload =
    (let tail = (if reply_list = [] then None else last reply_list);
         (finished, reply_list, payload) =
           (case tail of
              None \<Rightarrow> (False, reply_list, payload)
            | Some t \<Rightarrow>
                if blk_encoded t then
                  (case tryAddPayload (blk_buf t) (blk_size t) payload of
                     Some b \<Rightarrow> (True, butlast reply_list @ [Some (t\<lparr>blk_buf := b\<rparr>)], payload)
                   | None \<Rightarrow> (False, reply_list, payload))
                else
                  (let avail = blk_size t - length (blk_buf t);
                       copy = (if avail \<ge> length payload then length payload else avail)
                   in (False,
                       butlast reply_list @ [Some (t\<lparr>blk_buf := blk_buf t @ take copy payload\<rparr>)],
                       drop copy payload)))
     in if finished \<or> payload = [] then (c, reply_list)
        else
          (let sz = (if length payload < PROTO_REPLY_CHUNK_BYTES
                       then PROTO_REPLY_CHUNK_BYTES else length payload);
               usable_size = zmalloc_usable env (sz + sizeof_block);
               tail = \<lparr>blk_size = usable_size - sizeof_block, blk_encoded = False,
                       blk_buf = payload\<rparr>
           in (closeClientOnOutputBufferLimitReached env
                 (c\<lparr>cl_reply_bytes := cl_reply_bytes c + blk_size tail\<rparr>),
               reply_list @ [Some tail])))"

definition addReplyPayloadToBuffer :: "client \<Rightarrow> string \<Rightarrow> nat \<times> client" where
  "addReplyPayloadToBuffer c payload =
    (if cl_reply c \<noteq> [] then (0, c)
     else
       (let available = cl_buf_usable_size c - length (cl_buf c);
            reply_len = min available (length payload);
            peak = (\<lambda>c. c\<lparr>cl_buf_peak := max (cl_buf_peak c) (length (cl_buf c))\<rparr>)
        in if cl_buf_encoded c then
             (case tryAddPayload (cl_buf c) (cl_buf_usable_size c) payload of
                None \<Rightarrow> (0, c)
              | Some b \<Rightarrow> (length payload, peak (c\<lparr>cl_buf := b\<rparr>)))
           else (reply_len, peak (c\<lparr>cl_buf := cl_buf c @ take reply_len payload\<rparr>))))"

definition addReplyToBufferOrList :: "net_env \<Rightarrow> client \<Rightarrow> string \<Rightarrow> client" where
  "addReplyToBufferOrList env c s =
    (if CLIENT_CLOSE_AFTER_REPLY \<in> cl_flags c then c
     else if clientTypeIsSlave c then freeClientAsync c
     else
       (let c = c\<lparr>cl_net_output_bytes := cl_net_output_bytes c + length s\<rparr>
        in if CLIENT_PUSHING \<in> cl_flags c \<and> postpone_push env then
             (case addReplyPayloadToList env c (cl_pending_push c) s of
                (c', l) \<Rightarrow> c'\<lparr>cl_pending_push := l\<rparr>)
           else
             (case addReplyPayloadToBuffer c s of
                (reply_len, c1) \<Rightarrow>
                  if length s > reply_len then
                    (case addReplyPayloadToList env c1 (cl_reply c1) (drop reply_len s) of
                       (c2, l) \<Rightarrow> c2\<lparr>cl_reply := l\<rparr>)
                  else c1)))"

definition addReplyProto :: "net_env \<Rightarrow> client \<Rightarrow> string \<Rightarrow> client" where
  "addReplyProto env c s =
    (case prepareClientToWrite env c of
       (ok, c) \<Rightarrow> if ok then addReplyToBufferOrList env c s else c)"

section \<open>The abstraction\<close>

text \<open>What the peer will read: the static buffer, then the blocks; a placeholder that is not
  filled yet contributes nothing.\<close>

definition blocks_output :: "clientReplyBlock option list \<Rightarrow> string" where
  "blocks_output bs = concat (map (\<lambda>b. case b of None \<Rightarrow> [] | Some t \<Rightarrow> blk_buf t) bs)"

definition client_output :: "client \<Rightarrow> string" where
  "client_output c = cl_buf c @ blocks_output (cl_reply c)"

definition wf_block :: "clientReplyBlock option \<Rightarrow> bool" where
  "wf_block b \<longleftrightarrow> (case b of None \<Rightarrow> True
     | Some t \<Rightarrow> \<not> blk_encoded t \<and> length (blk_buf t) \<le> blk_size t)"

definition wf_client :: "client \<Rightarrow> bool" where
  "wf_client c \<longleftrightarrow> \<not> cl_buf_encoded c \<and> length (cl_buf c) \<le> cl_buf_usable_size c \<and>
     list_all wf_block (cl_reply c)"

text \<open>A client whose replies are accepted and stored: not closing after this reply, not a
  replica, not postponing a push, and allowed by \<open>prepareClientToWrite\<close> in every state
  its replies can lead to (a connected client is never closed for its buffer size).\<close>

definition accepts_reply :: "net_env \<Rightarrow> client \<Rightarrow> bool" where
  "accepts_reply env c \<longleftrightarrow>
     CLIENT_CLOSE_AFTER_REPLY \<notin> cl_flags c \<and> \<not> clientTypeIsSlave c \<and>
     \<not> (CLIENT_PUSHING \<in> cl_flags c \<and> postpone_push env) \<and>
     (CLIENT_SCRIPT \<in> cl_flags c \<or> CLIENT_MODULE \<in> cl_flags c \<or>
      (cl_conn c \<and> CLIENT_CLOSE_ASAP \<notin> cl_flags c \<and>
       CLIENT_REPLY_OFF \<notin> cl_flags c \<and> CLIENT_REPLY_SKIP \<notin> cl_flags c \<and>
       CLIENT_MASTER \<notin> cl_flags c \<and> (\<forall>c. \<not> over_obuf_limits env c)))"

text \<open>The allocator grants at least what was asked for.\<close>

definition wf_env :: "net_env \<Rightarrow> bool" where
  "wf_env env \<longleftrightarrow> (\<forall>n. n \<le> zmalloc_usable env n)"

definition sink_ok :: "net_env \<Rightarrow> client \<Rightarrow> bool" where
  "sink_ok env c \<longleftrightarrow> wf_env env \<and> wf_client c \<and> accepts_reply env c"

section \<open>The interface: an append-only sink\<close>

locale reply_sink =
  fixes put :: "'c \<Rightarrow> string \<Rightarrow> 'c"
    and out :: "'c \<Rightarrow> string"
    and ok :: "'c \<Rightarrow> bool"
  assumes out_put: "ok c \<Longrightarrow> out (put c s) = out c @ s"
    and ok_put: "ok c \<Longrightarrow> ok (put c s)"
begin

lemma ok_fold: "ok c \<Longrightarrow> ok (fold (\<lambda>s c. put c s) ss c)"
  by (induction ss arbitrary: c) (auto simp: ok_put)

lemma out_fold: "ok c \<Longrightarrow> out (fold (\<lambda>s c. put c s) ss c) = out c @ concat ss"
  by (induction ss arbitrary: c) (auto simp: ok_put out_put)

end

section \<open>The low level writes form a sink\<close>

lemma blocks_output_append [simp]: "blocks_output (xs @ ys) = blocks_output xs @ blocks_output ys"
  by (simp add: blocks_output_def)

lemma blocks_output_simps [simp]:
  "blocks_output [] = []" "blocks_output (None # bs) = blocks_output bs"
  "blocks_output (Some t # bs) = blk_buf t @ blocks_output bs"
  by (simp_all add: blocks_output_def)

lemma freeClientAsync_frame [simp]:
  "cl_buf (freeClientAsync c) = cl_buf c" "cl_reply (freeClientAsync c) = cl_reply c"
  "cl_resp (freeClientAsync c) = cl_resp c" "cl_conn (freeClientAsync c) = cl_conn c"
  "cl_buf_encoded (freeClientAsync c) = cl_buf_encoded c"
  "cl_buf_usable_size (freeClientAsync c) = cl_buf_usable_size c"
  "cl_deferred_errors (freeClientAsync c) = cl_deferred_errors c"
  "cl_flags (freeClientAsync c) \<subseteq> insert CLIENT_CLOSE_ASAP (cl_flags c)"
  "cl_flags c \<subseteq> cl_flags (freeClientAsync c)"
  by (auto simp: freeClientAsync_def)

lemma closeClient_frame [simp]:
  "cl_buf (closeClientOnOutputBufferLimitReached env c) = cl_buf c"
  "cl_reply (closeClientOnOutputBufferLimitReached env c) = cl_reply c"
  "cl_resp (closeClientOnOutputBufferLimitReached env c) = cl_resp c"
  "cl_conn (closeClientOnOutputBufferLimitReached env c) = cl_conn c"
  "cl_buf_encoded (closeClientOnOutputBufferLimitReached env c) = cl_buf_encoded c"
  "cl_buf_usable_size (closeClientOnOutputBufferLimitReached env c) = cl_buf_usable_size c"
  "cl_deferred_errors (closeClientOnOutputBufferLimitReached env c) = cl_deferred_errors c"
  by (auto simp: closeClientOnOutputBufferLimitReached_def)

lemma closeClient_accepts:
  assumes "accepts_reply env c"
  shows "accepts_reply env (closeClientOnOutputBufferLimitReached env c)"
  using assms
  by (auto simp: accepts_reply_def closeClientOnOutputBufferLimitReached_def freeClientAsync_def
      clientTypeIsSlave_def)

lemma addReplyPayloadToList_frame:
  assumes "addReplyPayloadToList env c l s = (c', l')"
  shows "cl_buf c' = cl_buf c" "cl_resp c' = cl_resp c" "cl_buf_encoded c' = cl_buf_encoded c"
    "cl_buf_usable_size c' = cl_buf_usable_size c" "cl_deferred_errors c' = cl_deferred_errors c"
    "cl_reply c' = cl_reply c"
  using assms
  by (auto simp: addReplyPayloadToList_def Let_def split: if_splits option.splits prod.splits)

lemma addReplyPayloadToList_accepts:
  assumes "addReplyPayloadToList env c l s = (c', l')" "accepts_reply env c"
  shows "accepts_reply env c'"
proof -
  have "accepts_reply env (c\<lparr>cl_reply_bytes := n\<rparr>)" for n
    using assms(2) by (simp add: accepts_reply_def clientTypeIsSlave_def)
  then show ?thesis using assms closeClient_accepts
    by (auto simp: addReplyPayloadToList_def Let_def split: if_splits option.splits prod.splits)
qed

text \<open>Appending a payload to a list of plain blocks: fill the tail, open one new block.\<close>

lemma addReplyPayloadToList_output:
  assumes "addReplyPayloadToList env c l s = (c', l')" "list_all wf_block l" "wf_env env"
  shows "blocks_output l' = blocks_output l @ s \<and> list_all wf_block l'"
proof -
  have big: "length s \<le> zmalloc_usable env ((if length s < PROTO_REPLY_CHUNK_BYTES
      then PROTO_REPLY_CHUNK_BYTES else length s) + sizeof_block) - sizeof_block" for s :: string
  proof -
    have "(if length s < PROTO_REPLY_CHUNK_BYTES then PROTO_REPLY_CHUNK_BYTES else length s) +
        sizeof_block \<le> zmalloc_usable env ((if length s < PROTO_REPLY_CHUNK_BYTES
        then PROTO_REPLY_CHUNK_BYTES else length s) + sizeof_block)"
      using assms(3) by (simp add: wf_env_def)
    then show ?thesis by (auto split: if_splits)
  qed
  show ?thesis
  proof (cases "l = [] \<or> last l = None")
    case True
    then show ?thesis using assms(1,2) big[of s]
      by (auto simp: addReplyPayloadToList_def Let_def wf_block_def split: if_splits)
  next
    case False
    then obtain b t where l: "l = b @ [Some t]"
      by (metis append_butlast_last_id not_Some_eq)
    have t: "\<not> blk_encoded t" "length (blk_buf t) \<le> blk_size t"
      using assms(2) l by (auto simp: wf_block_def)
    show ?thesis using assms(1,2) l t big[of "drop (blk_size t - length (blk_buf t)) s"]
      by (auto simp: addReplyPayloadToList_def Let_def wf_block_def split: if_splits)
  qed
qed

lemma addReplyPayloadToBuffer_output:
  assumes "addReplyPayloadToBuffer c s = (n, c')" "wf_client c"
  shows "n \<le> length s" "client_output c' = client_output c @ take n s" "wf_client c'"
    "cl_reply c' = cl_reply c" "cl_flags c' = cl_flags c" "cl_conn c' = cl_conn c"
    "cl_resp c' = cl_resp c" "cl_deferred_errors c' = cl_deferred_errors c"
  using assms
  by (auto simp: addReplyPayloadToBuffer_def Let_def wf_client_def client_output_def
      split: if_splits)

lemma addReplyPayloadToList_wf:
  assumes "addReplyPayloadToList env c (cl_reply c) s = (c', l')" "wf_client c" "wf_env env"
  shows "wf_client (c'\<lparr>cl_reply := l'\<rparr>) \<and>
    client_output (c'\<lparr>cl_reply := l'\<rparr>) = client_output c @ s"
  using addReplyPayloadToList_output[OF assms(1) _ assms(3)] addReplyPayloadToList_frame[OF assms(1)]
    assms(2)
  by (simp add: wf_client_def client_output_def)

lemma accepts_reply_cong:
  assumes "cl_flags c' = cl_flags c" "cl_conn c' = cl_conn c"
  shows "accepts_reply env c' = accepts_reply env c"
  using assms by (simp add: accepts_reply_def clientTypeIsSlave_def)

lemma addReplyToBufferOrList_sink:
  assumes "sink_ok env c"
  shows "client_output (addReplyToBufferOrList env c s) = client_output c @ s \<and>
    sink_ok env (addReplyToBufferOrList env c s)"
proof -
  let ?c = "c\<lparr>cl_net_output_bytes := cl_net_output_bytes c + length s\<rparr>"
  have ok: "wf_env env" "wf_client ?c" "accepts_reply env ?c" "client_output ?c = client_output c"
    using assms accepts_reply_cong[of ?c c env]
    by (simp_all add: sink_ok_def wf_client_def client_output_def)
  obtain n c1 where b: "addReplyPayloadToBuffer ?c s = (n, c1)" by fastforce
  note B = addReplyPayloadToBuffer_output[OF b ok(2)]
  have a1: "accepts_reply env c1" using accepts_reply_cong[OF B(5,6)] ok(3) by simp
  obtain c2 l where l: "addReplyPayloadToList env c1 (cl_reply c1) (drop n s) = (c2, l)" by fastforce
  note L = addReplyPayloadToList_wf[OF l B(3) ok(1)]
  have "accepts_reply env (c2\<lparr>cl_reply := l\<rparr>)"
    using addReplyPayloadToList_accepts[OF l a1] accepts_reply_cong[of "c2\<lparr>cl_reply := l\<rparr>" c2 env]
    by simp
  moreover have "addReplyToBufferOrList env c s =
      (if length s > n then c2\<lparr>cl_reply := l\<rparr> else c1)"
    using assms b l by (auto simp: addReplyToBufferOrList_def sink_ok_def accepts_reply_def Let_def)
  ultimately show ?thesis using B L a1 ok by (auto simp: sink_ok_def)
qed

lemma addReplyToBufferOrList_resp [simp]: "cl_resp (addReplyToBufferOrList env c s) = cl_resp c"
proof -
  obtain n c1 where b: "addReplyPayloadToBuffer
      (c\<lparr>cl_net_output_bytes := cl_net_output_bytes c + length s\<rparr>) s = (n, c1)" by fastforce
  have "cl_resp c1 = cl_resp c"
    using b by (auto simp: addReplyPayloadToBuffer_def Let_def split: if_splits option.splits)
  then show ?thesis using b
    by (auto simp: addReplyToBufferOrList_def Let_def dest: addReplyPayloadToList_frame split: prod.splits)
qed

lemma prepareClientToWrite_sink:
  assumes "sink_ok env c"
  obtains c' where "prepareClientToWrite env c = (True, c')" "sink_ok env c'"
    "client_output c' = client_output c" "cl_resp c' = cl_resp c"
    "cl_deferred_errors c' = cl_deferred_errors c"
proof
  let ?p = "prepareClientToWrite env c"
  show "?p = (True, snd ?p)"
    using assms by (auto simp: prepareClientToWrite_def sink_ok_def accepts_reply_def)
  show "sink_ok env (snd ?p)" "client_output (snd ?p) = client_output c" "cl_resp (snd ?p) = cl_resp c"
    "cl_deferred_errors (snd ?p) = cl_deferred_errors c"
    using assms
    by (auto simp: prepareClientToWrite_def sink_ok_def accepts_reply_def wf_client_def
        client_output_def putClientInPendingWriteQueue_def clientTypeIsSlave_def)
qed

lemma prepareClientToWrite_resp [simp]: "cl_resp (snd (prepareClientToWrite env c)) = cl_resp c"
  by (simp add: prepareClientToWrite_def putClientInPendingWriteQueue_def)

lemma addReplyProto_sink:
  assumes "sink_ok env c"
  shows "client_output (addReplyProto env c s) = client_output c @ s \<and>
    sink_ok env (addReplyProto env c s)"
proof -
  obtain c' where c': "prepareClientToWrite env c = (True, c')" "sink_ok env c'"
    "client_output c' = client_output c" using prepareClientToWrite_sink[OF assms] by blast
  then show ?thesis using addReplyToBufferOrList_sink[of env c' s] by (simp add: addReplyProto_def)
qed

lemma addReplyProto_resp [simp]: "cl_resp (addReplyProto env c s) = cl_resp c"
  by (simp add: addReplyProto_def case_prod_beta)

interpretation raw_sink: reply_sink "addReplyToBufferOrList env" client_output "sink_ok env" for env
  by unfold_locales (simp_all add: addReplyToBufferOrList_sink)

interpretation proto_sink: reply_sink "addReplyProto env" client_output "sink_ok env" for env
  by unfold_locales (simp_all add: addReplyProto_sink)

lemmas sink_simps [simp] = raw_sink.out_put raw_sink.ok_put proto_sink.out_put proto_sink.ok_put

section \<open>Error and status replies\<close>

text \<open>\<^verbatim>\<open>sdstrim\<close> and \<^verbatim>\<open>sdsmapchars\<close> of \<^verbatim>\<open>src/src/sds.c\<close>. The set is searched with
  \<^verbatim>\<open>strchr\<close>, which also finds the terminator, so NUL bytes are trimmed too; the backward
  scan stops at the first byte kept, so a string of set bytes only becomes empty.\<close>

definition in_cset :: "string \<Rightarrow> char \<Rightarrow> bool" where
  "in_cset cset ch \<longleftrightarrow> ch \<in> set cset \<or> ch = NUL"

definition sdstrim :: "string \<Rightarrow> string \<Rightarrow> string" where
  "sdstrim s cset = rev (dropWhile (in_cset cset) (rev (dropWhile (in_cset cset) s)))"

definition sdsmapchars :: "string \<Rightarrow> string \<Rightarrow> string \<Rightarrow> string" where
  "sdsmapchars s from to = map (mapchar from to) s"

definition addReplyErrorLength :: "net_env \<Rightarrow> client \<Rightarrow> string \<Rightarrow> client" where
  "addReplyErrorLength env c s =
    (let c = (if s = [] \<or> hd s \<noteq> CHR ''-'' then addReplyProto env c ''-ERR '' else c);
         c = addReplyProto env c s
     in addReplyProto env c CRLF)"

text \<open>The part of \<open>afterErrorReply\<close> that touches the client: a module client collects the
  error; for the others it only updates statistics and the log.\<close>

definition afterErrorReply :: "client \<Rightarrow> string \<Rightarrow> client" where
  "afterErrorReply c s =
    (if CLIENT_MODULE \<in> cl_flags c then
       c\<lparr>cl_deferred_errors :=
           Some ((case cl_deferred_errors c of None \<Rightarrow> [] | Some es \<Rightarrow> es) @ [s])\<rparr>
     else c)"

definition addReplyError :: "net_env \<Rightarrow> client \<Rightarrow> string \<Rightarrow> client" where
  "addReplyError env c err = afterErrorReply (addReplyErrorLength env c err) err"

text \<open>\<open>addReplyErrorFormat\<close> on the text the format expands to.\<close>

definition addReplyErrorFormat :: "net_env \<Rightarrow> client \<Rightarrow> string \<Rightarrow> client" where
  "addReplyErrorFormat env c s =
    (let s = sdstrim s CRLF; s = sdsmapchars s CRLF ''  ''
     in afterErrorReply (addReplyErrorLength env c s) s)"

definition addReplyStatusLength :: "net_env \<Rightarrow> client \<Rightarrow> string \<Rightarrow> client" where
  "addReplyStatusLength env c s =
     addReplyProto env (addReplyProto env (addReplyProto env c ''+'') s) CRLF"

section \<open>Integers and aggregate headers\<close>

definition OBJ_SHARED_BULKHDR_LEN :: int where
  "OBJ_SHARED_BULKHDR_LEN = 32"

text \<open>The shared header objects built by \<open>createSharedObjects\<close>, cut at the length
  \<^verbatim>\<open>OBJ_SHARED_HDR_STRLEN\<close> gives.\<close>

definition shared_hdr :: "char \<Rightarrow> int \<Rightarrow> string" where
  "shared_hdr prefix j = prefix # dec (nat j) @ CRLF"

definition OBJ_SHARED_HDR_STRLEN :: "int \<Rightarrow> nat" where
  "OBJ_SHARED_HDR_STRLEN len = (if len < 10 then 4 else 5)"

text \<open>The 128 byte stack buffer of the two functions below.\<close>

definition print_prefixed :: "int \<Rightarrow> char \<Rightarrow> string" where
  "print_prefixed ll prefix =
    (case ll2string (replicate 127 NUL) 127 ll of
       (len, b) \<Rightarrow>
         take (len + 3) ((prefix # b)[len + 1 := CR, len + 2 := LF]))"

definition addReplyLongLongSharedHdr :: "net_env \<Rightarrow> client \<Rightarrow> int \<Rightarrow> char \<Rightarrow> client" where
  "addReplyLongLongSharedHdr env c ll prefix =
    (if ll < OBJ_SHARED_BULKHDR_LEN \<and> ll \<ge> 0 then
       addReplyToBufferOrList env c (take (OBJ_SHARED_HDR_STRLEN ll) (shared_hdr prefix ll))
     else addReplyToBufferOrList env c (print_prefixed ll prefix))"

definition addReplyLongLongWithPrefix :: "net_env \<Rightarrow> client \<Rightarrow> int \<Rightarrow> char \<Rightarrow> client" where
  "addReplyLongLongWithPrefix env c ll prefix =
    (let opt_hdr = (ll < OBJ_SHARED_BULKHDR_LEN \<and> ll \<ge> 0);
         hdr = take (OBJ_SHARED_HDR_STRLEN ll) (shared_hdr prefix ll)
     in if prefix = CHR ''*'' \<and> opt_hdr then addReplyToBufferOrList env c hdr
        else if prefix = CHR ''$'' \<and> opt_hdr then addReplyToBufferOrList env c hdr
        else if prefix = CHR ''%'' \<and> opt_hdr then addReplyToBufferOrList env c hdr
        else if prefix = CHR ''~'' \<and> opt_hdr then addReplyToBufferOrList env c hdr
        else addReplyToBufferOrList env c (print_prefixed ll prefix))"

definition addReplyLongLong :: "net_env \<Rightarrow> client \<Rightarrow> int \<Rightarrow> client" where
  "addReplyLongLong env c ll =
    (if ll = 0 then addReplyProto env c ('':0'' @ CRLF)
     else if ll = 1 then addReplyProto env c ('':1'' @ CRLF)
     else
       (case prepareClientToWrite env c of
          (ok, c) \<Rightarrow> if ok then addReplyLongLongWithPrefix env c ll (CHR '':'') else c))"

definition addReplyAggregateLen :: "net_env \<Rightarrow> client \<Rightarrow> nat \<Rightarrow> char \<Rightarrow> client" where
  "addReplyAggregateLen env c len prefix =
    (case prepareClientToWrite env c of
       (ok, c) \<Rightarrow> if ok then addReplyLongLongWithPrefix env c (int len) prefix else c)"

definition addReplyArrayLen :: "net_env \<Rightarrow> client \<Rightarrow> nat \<Rightarrow> client" where
  "addReplyArrayLen env c len =
    (case prepareClientToWrite env c of
       (ok, c) \<Rightarrow> if ok then addReplyLongLongSharedHdr env c (int len) (CHR ''*'') else c)"

definition addReplyMapLen :: "net_env \<Rightarrow> client \<Rightarrow> nat \<Rightarrow> client" where
  "addReplyMapLen env c len =
    (if cl_resp c = 2 then addReplyAggregateLen env c (len * 2) (CHR ''*'')
     else addReplyAggregateLen env c len (CHR ''%''))"

definition addReplySetLen :: "net_env \<Rightarrow> client \<Rightarrow> nat \<Rightarrow> client" where
  "addReplySetLen env c len =
     addReplyAggregateLen env c len (if cl_resp c = 2 then CHR ''*'' else CHR ''~'')"

section \<open>Scalars\<close>

definition addReplyNull :: "net_env \<Rightarrow> client \<Rightarrow> client" where
  "addReplyNull env c =
    (if cl_resp c = 2 then addReplyProto env c (''$-1'' @ CRLF)
     else addReplyProto env c (''_'' @ CRLF))"

definition addReplyBool :: "net_env \<Rightarrow> client \<Rightarrow> bool \<Rightarrow> client" where
  "addReplyBool env c b =
    (if cl_resp c = 2 then addReplyProto env c ((if b then '':1'' else '':0'') @ CRLF)
     else addReplyProto env c ((if b then ''#t'' else ''#f'') @ CRLF))"

definition addReplyNullArray :: "net_env \<Rightarrow> client \<Rightarrow> client" where
  "addReplyNullArray env c =
    (if cl_resp c = 2 then addReplyProto env c (''*-1'' @ CRLF)
     else addReplyProto env c (''_'' @ CRLF))"

definition addReplyBulkCBuffer :: "net_env \<Rightarrow> client \<Rightarrow> string \<Rightarrow> client" where
  "addReplyBulkCBuffer env c p =
    (case prepareClientToWrite env c of
       (ok, c) \<Rightarrow>
         if ok then
           (let c = addReplyLongLongSharedHdr env c (int (length p)) (CHR ''$'');
                c = addReplyToBufferOrList env c p
            in addReplyToBufferOrList env c CRLF)
         else c)"

definition addReplyBigNum :: "net_env \<Rightarrow> client \<Rightarrow> string \<Rightarrow> client" where
  "addReplyBigNum env c num =
    (if cl_resp c = 2 then addReplyBulkCBuffer env c num
     else addReplyProto env (addReplyProto env (addReplyProto env c ''('') num) CRLF)"

text \<open>Three characters of the extension, padded with blanks.\<close>

definition verbatim_ext :: "string \<Rightarrow> string" where
  "verbatim_ext ext = take 3 (takeWhile (\<lambda>ch. ch \<noteq> NUL) ext @ ''   '')"

definition addReplyVerbatim :: "net_env \<Rightarrow> client \<Rightarrow> string \<Rightarrow> string \<Rightarrow> client" where
  "addReplyVerbatim env c s ext =
    (if cl_resp c = 2 then addReplyBulkCBuffer env c s
     else
       (let c = addReplyProto env c (''='' @ dec (length s + 4) @ CRLF @ verbatim_ext ext @ '':'');
            c = addReplyProto env c s
        in addReplyProto env c CRLF))"

text \<open>\<open>addReplyDouble\<close>; the printer \<^verbatim>\<open>d2string\<close> of IEEE doubles is a parameter. The RESP2
  branch assembles the bulk header backwards in the seven bytes it reserved.\<close>

fun double_hdr_digits :: "string \<Rightarrow> nat \<Rightarrow> nat \<Rightarrow> nat \<Rightarrow> string" where
  "double_hdr_digits dbuf start i val =
    (if val \<noteq> 0 \<and> i > 0
     then double_hdr_digits (dbuf[start + i := ''0123456789'' ! (val mod 10)]) start (i - 1) (val div 10)
     else dbuf)"

declare double_hdr_digits.simps [simp del]

definition addReplyDouble :: "('d \<Rightarrow> string) \<Rightarrow> net_env \<Rightarrow> client \<Rightarrow> 'd \<Rightarrow> client" where
  "addReplyDouble d2string env c d =
    (if cl_resp c = 3 then addReplyProto env c ('','' @ d2string d @ CRLF)
     else
       (let txt = d2string d; dlen = length txt; digits = digits10 (of_nat dlen);
            start = 4 - digits;
            hdr = (replicate 7 NUL)[start := CHR ''$''];
            hdr = double_hdr_digits hdr start digits dlen;
            hdr = hdr[5 := CR, 6 := LF]
        in addReplyProto env c (drop start (hdr @ txt @ CRLF))))"

section \<open>What each reply function emits\<close>

lemma with_prepare_sink:
  assumes "sink_ok env c" "\<And>c'. sink_ok env c' \<Longrightarrow> client_output (f c') = client_output c' @ s \<and> sink_ok env (f c')"
  shows "client_output (case prepareClientToWrite env c of (ok, c) \<Rightarrow> if ok then f c else c) =
      client_output c @ s \<and>
    sink_ok env (case prepareClientToWrite env c of (ok, c) \<Rightarrow> if ok then f c else c)"
proof -
  obtain c' where c': "prepareClientToWrite env c = (True, c')" "sink_ok env c'"
    "client_output c' = client_output c" using prepareClientToWrite_sink[OF assms(1)] by blast
  then show ?thesis using assms(2)[of c'] by simp
qed

lemma with_prepare_resp:
  assumes "\<And>c. cl_resp (f c) = cl_resp c"
  shows "cl_resp (case prepareClientToWrite env c of (ok, c) \<Rightarrow> if ok then f c else c) = cl_resp c"
  using assms by (simp add: case_prod_beta)

lemma print_prefixed_eq:
  assumes "LLONG_MIN \<le> ll" "ll \<le> LLONG_MAX"
  shows "print_prefixed ll prefix = prefix # dec_int ll @ CRLF"
proof -
  have l: "length (dec_int ll) \<le> 20" using length_dec_int(2)[OF assms] .
  then have e: "ll2string (replicate 127 NUL) 127 ll =
      (length (dec_int ll), dec_int ll @ NUL # drop (Suc (length (dec_int ll))) (replicate 127 NUL))"
    using assms by (intro ll2string_eq) auto
  obtain k where "126 - length (dec_int ll) = Suc k"
    using l by (cases "126 - length (dec_int ll)") auto
  then obtain rest where r: "drop (Suc (length (dec_int ll))) (replicate 127 NUL) = NUL # rest"
    by simp
  have "(prefix # dec_int ll @ NUL # NUL # rest)[length (dec_int ll) + 1 := CR, length (dec_int ll) + 2 := LF]
      = prefix # dec_int ll @ CR # LF # rest"
    by (simp add: list_update_append)
  then show ?thesis using e r by (simp add: print_prefixed_def numeral_3_eq_3)
qed

lemma shared_hdr_eq:
  assumes "0 \<le> ll" "ll < OBJ_SHARED_BULKHDR_LEN"
  shows "take (OBJ_SHARED_HDR_STRLEN ll) (shared_hdr prefix ll) = prefix # dec_int ll @ CRLF"
proof (cases "ll < 10")
  case True
  then have "length (dec (nat ll)) = 1" using assms by simp
  then show ?thesis using assms True by (simp add: OBJ_SHARED_HDR_STRLEN_def shared_hdr_def dec_int_def)
next
  case False
  then have "length (dec (nat ll)) = 2"
    using assms length_dec_range[of 1 "nat ll"] by (simp add: OBJ_SHARED_BULKHDR_LEN_def nat_less_iff)
  then show ?thesis using assms False by (simp add: OBJ_SHARED_HDR_STRLEN_def shared_hdr_def dec_int_def)
qed

lemma addReplyLongLongSharedHdr_eq:
  assumes "LLONG_MIN \<le> ll" "ll \<le> LLONG_MAX"
  shows "addReplyLongLongSharedHdr env c ll prefix =
    addReplyToBufferOrList env c (prefix # dec_int ll @ CRLF)"
  using assms by (simp add: addReplyLongLongSharedHdr_def print_prefixed_eq shared_hdr_eq)

lemma addReplyLongLongWithPrefix_eq:
  assumes "LLONG_MIN \<le> ll" "ll \<le> LLONG_MAX"
  shows "addReplyLongLongWithPrefix env c ll prefix =
    addReplyToBufferOrList env c (prefix # dec_int ll @ CRLF)"
  using assms by (auto simp: addReplyLongLongWithPrefix_def print_prefixed_eq shared_hdr_eq Let_def)

lemma addReplyLongLong_out:
  assumes "sink_ok env c" "LLONG_MIN \<le> ll" "ll \<le> LLONG_MAX"
  shows "client_output (addReplyLongLong env c ll) = client_output c @ '':'' @ dec_int ll @ CRLF \<and>
    sink_ok env (addReplyLongLong env c ll)"
proof -
  have "dec_int 0 = ''0''" "dec_int 1 = ''1''" by code_simp+
  moreover have "client_output (case prepareClientToWrite env c of
      (ok, c) \<Rightarrow> if ok then addReplyLongLongWithPrefix env c ll (CHR '':'') else c) =
      client_output c @ '':'' @ dec_int ll @ CRLF \<and>
      sink_ok env (case prepareClientToWrite env c of
      (ok, c) \<Rightarrow> if ok then addReplyLongLongWithPrefix env c ll (CHR '':'') else c)"
    using assms by (intro with_prepare_sink) (auto simp: addReplyLongLongWithPrefix_eq)
  ultimately show ?thesis using assms by (auto simp: addReplyLongLong_def)
qed

lemma addReplyAggregateLen_out:
  assumes "sink_ok env c" "int n \<le> LLONG_MAX"
  shows "client_output (addReplyAggregateLen env c n prefix) = client_output c @ prefix # dec n @ CRLF \<and>
    sink_ok env (addReplyAggregateLen env c n prefix)"
proof -
  have "dec_int (int n) = dec n" by (simp add: dec_int_def)
  then show ?thesis unfolding addReplyAggregateLen_def using assms
    by (intro with_prepare_sink) (auto simp: addReplyLongLongWithPrefix_eq)
qed

lemma addReplyArrayLen_out:
  assumes "sink_ok env c" "int n \<le> LLONG_MAX"
  shows "client_output (addReplyArrayLen env c n) = client_output c @ ''*'' @ dec n @ CRLF \<and>
    sink_ok env (addReplyArrayLen env c n)"
proof -
  have "dec_int (int n) = dec n" by (simp add: dec_int_def)
  then show ?thesis unfolding addReplyArrayLen_def using assms
    by (intro with_prepare_sink) (auto simp: addReplyLongLongSharedHdr_eq)
qed

lemma addReplyBulkCBuffer_out:
  assumes "sink_ok env c" "int (length s) \<le> LLONG_MAX"
  shows "client_output (addReplyBulkCBuffer env c s) =
      client_output c @ ''$'' @ dec (length s) @ CRLF @ s @ CRLF \<and>
    sink_ok env (addReplyBulkCBuffer env c s)"
proof -
  have "dec_int (int (length s)) = dec (length s)" by (simp add: dec_int_def)
  then show ?thesis unfolding addReplyBulkCBuffer_def using assms
    by (intro with_prepare_sink) (auto simp: addReplyLongLongSharedHdr_eq Let_def)
qed

lemma addReply_resp [simp]:
  "cl_resp (addReplyLongLong env c ll) = cl_resp c"
  "cl_resp (addReplyAggregateLen env c n prefix) = cl_resp c"
  "cl_resp (addReplyArrayLen env c n) = cl_resp c"
  "cl_resp (addReplyBulkCBuffer env c s) = cl_resp c"
  "cl_resp (addReplyErrorLength env c s) = cl_resp c"
  "cl_resp (afterErrorReply c s) = cl_resp c"
  "cl_resp (addReplyError env c s) = cl_resp c"
  "cl_resp (addReplyErrorFormat env c s) = cl_resp c"
  "cl_resp (addReplyNull env c) = cl_resp c"
  "cl_resp (addReplyBool env c b) = cl_resp c"
  "cl_resp (addReplyDouble d2s env c d) = cl_resp c"
  by (simp_all add: addReplyLongLong_def addReplyAggregateLen_def addReplyArrayLen_def
      addReplyBulkCBuffer_def case_prod_beta addReplyLongLongWithPrefix_def Let_def
      addReplyLongLongSharedHdr_def addReplyErrorLength_def afterErrorReply_def addReplyError_def
      addReplyErrorFormat_def addReplyNull_def addReplyBool_def addReplyDouble_def)

lemma addReplyNull_out:
  assumes "sink_ok env c"
  shows "client_output (addReplyNull env c) =
      client_output c @ (if cl_resp c = 2 then ''$-1'' else ''_'') @ CRLF \<and>
    sink_ok env (addReplyNull env c)"
  using assms by (simp add: addReplyNull_def)

lemma addReplyBool_out:
  assumes "sink_ok env c"
  shows "client_output (addReplyBool env c b) =
      client_output c @ (if cl_resp c = 2 then (if b then '':1'' else '':0'')
        else (if b then ''#t'' else ''#f'')) @ CRLF \<and>
    sink_ok env (addReplyBool env c b)"
  using assms by (simp add: addReplyBool_def)

lemma afterErrorReply_sink [simp]:
  "client_output (afterErrorReply c s) = client_output c"
  "sink_ok env (afterErrorReply c s) = sink_ok env c"
  by (auto simp: afterErrorReply_def client_output_def sink_ok_def wf_client_def accepts_reply_def
      clientTypeIsSlave_def)

text \<open>The text between the minus sign and the line end of an error reply.\<close>

definition error_line :: "string \<Rightarrow> string" where
  "error_line s = (if s = [] \<or> hd s \<noteq> CHR ''-'' then ''-ERR '' @ s else s)"

lemma addReplyErrorLength_out:
  assumes "sink_ok env c"
  shows "client_output (addReplyErrorLength env c s) = client_output c @ error_line s @ CRLF \<and>
    sink_ok env (addReplyErrorLength env c s)"
  using assms by (simp add: addReplyErrorLength_def error_line_def Let_def)

lemma addReplyError_out:
  assumes "sink_ok env c"
  shows "client_output (addReplyError env c s) = client_output c @ error_line s @ CRLF \<and>
    sink_ok env (addReplyError env c s)"
  using addReplyErrorLength_out[OF assms] by (simp add: addReplyError_def)

definition sanitize :: "string \<Rightarrow> string" where
  "sanitize s = sdsmapchars (sdstrim s CRLF) CRLF ''  ''"

lemma addReplyErrorFormat_out:
  assumes "sink_ok env c"
  shows "client_output (addReplyErrorFormat env c s) =
      client_output c @ error_line (sanitize s) @ CRLF \<and>
    sink_ok env (addReplyErrorFormat env c s)"
  using addReplyErrorLength_out[OF assms] by (simp add: addReplyErrorFormat_def sanitize_def Let_def)

lemma mapchar_crlf: "mapchar CRLF ''  '' ch \<noteq> CR \<and> mapchar CRLF ''  '' ch \<noteq> LF"
  by simp

lemma sanitize_no_newline: "CR \<notin> set (sanitize s) \<and> LF \<notin> set (sanitize s)"
  using mapchar_crlf by (force simp: sanitize_def sdsmapchars_def)

lemma error_line_no_newline:
  "CR \<notin> set (error_line (sanitize s)) \<and> LF \<notin> set (error_line (sanitize s)) \<and>
   hd (error_line (sanitize s)) = CHR ''-'' \<and> error_line (sanitize s) \<noteq> []"
  using sanitize_no_newline[of s] by (auto simp: error_line_def)

lemma double_hdr_digits_eq:
  assumes "length (dec val) = i" "0 < val" "start + i < length dbuf"
  shows "double_hdr_digits dbuf start i val = take (start + 1) dbuf @ dec val @ drop (start + i + 1) dbuf"
  using assms
proof (induction dbuf start i val rule: double_hdr_digits.induct)
  case (1 dbuf start i val)
  have dg: "''0123456789'' ! k = dig k" if "k < 10" for k
  proof -
    have "\<forall>k \<in> set [0..<10]. ''0123456789'' ! k = dig k" by code_simp
    then show ?thesis using that by auto
  qed
  have step: "double_hdr_digits dbuf start i val =
      double_hdr_digits (dbuf[start + i := dig (val mod 10)]) start (i - 1) (val div 10)"
    using "1.prems" dg[of "val mod 10"] by (subst double_hdr_digits.simps) auto
  show ?case
  proof (cases "val < 10")
    case True
    then have "i = 1" using "1.prems"(1) by simp
    then show ?thesis using True "1.prems"(3) unfolding step
      by (subst double_hdr_digits.simps) (simp add: upd_conv_take_nth_drop)
  next
    case False
    then have d: "dec val = dec (val div 10) @ [dig (val mod 10)]" by (simp add: dec_large)
    then have i: "length (dec (val div 10)) = i - 1" "0 < i - 1" "1 < i"
      using "1.prems"(1) length_dec_pos[of "val div 10"] by (auto simp del: length_dec_pos)
    have "double_hdr_digits (dbuf[start + i := dig (val mod 10)]) start (i - 1) (val div 10) =
        take (start + 1) (dbuf[start + i := dig (val mod 10)]) @ dec (val div 10) @
        drop (start + (i - 1) + 1) (dbuf[start + i := dig (val mod 10)])"
      using False "1.prems" i dg[of "val mod 10"] "1.IH" by auto
    also have "drop (start + (i - 1) + 1) (dbuf[start + i := dig (val mod 10)]) =
        dig (val mod 10) # drop (start + i + 1) dbuf"
      using i "1.prems"(3) by (simp add: upd_conv_take_nth_drop)
    also have "take (start + 1) (dbuf[start + i := dig (val mod 10)]) = take (start + 1) dbuf"
      using i by simp
    finally show ?thesis unfolding step using d by simp
  qed
qed

lemma update_after: "length xs = n \<Longrightarrow> (xs @ [a, b])[n := x, Suc n := y] = xs @ [x, y]"
  by (auto simp: list_update_append)

lemma addReplyDouble_out:
  assumes "sink_ok env c" "0 < length (d2s d)" "length (d2s d) < 10000"
  shows "client_output (addReplyDouble d2s env c d) = client_output c @
      (if cl_resp c = 3 then '','' @ d2s d @ CRLF
       else ''$'' @ dec (length (d2s d)) @ CRLF @ d2s d @ CRLF) \<and>
    sink_ok env (addReplyDouble d2s env c d)"
proof -
  let ?n = "length (d2s d)"
  have u: "digits10 (of_nat ?n) = length (dec ?n)"
    using assms(3) by (simp add: digits10_correct unat_of_nat)
  have l4: "length (dec ?n) \<le> 4"
    using length_dec_mono[of ?n 9999] length_dec_range[of 3 9999] assms(3) by simp
  define st where "st = 4 - length (dec ?n)"
  have st: "st + length (dec ?n) = 4" using l4 by (simp add: st_def)
  let ?h = "(replicate 7 NUL)[st := CHR ''$'']"
  have "double_hdr_digits ?h st (length (dec ?n)) ?n =
      take (st + 1) ?h @ dec ?n @ drop (st + length (dec ?n) + 1) ?h"
    using assms(2) st by (intro double_hdr_digits_eq) auto
  also have "take (st + 1) ?h = replicate st NUL @ [CHR ''$'']"
    using st by (simp add: upd_conv_take_nth_drop)
  also have "drop (st + length (dec ?n) + 1) ?h = [NUL, NUL]"
  proof -
    have "drop (st + length (dec ?n) + 1) ?h = drop 5 (replicate 7 NUL)"
      using st by (simp add: drop_update_cancel)
    then show ?thesis by (simp add: numeral_2_eq_2)
  qed
  finally have e: "double_hdr_digits ?h st (length (dec ?n)) ?n =
      replicate st NUL @ CHR ''$'' # dec ?n @ [NUL, NUL]" by simp
  have "(replicate st NUL @ CHR ''$'' # dec ?n @ [NUL, NUL])[5 := CR, 6 := LF] =
      replicate st NUL @ CHR ''$'' # dec ?n @ CRLF"
    using st update_after[of "replicate st NUL @ CHR ''$'' # dec ?n" 5 NUL NUL CR LF] by simp
  then show ?thesis using assms(1) u e st
    by (simp add: addReplyDouble_def Let_def st_def[symmetric])
qed

section \<open>Deferred lengths\<close>

text \<open>A node of the reply list is its index; \<open>addReplyDeferredLen\<close> returns the index of
  the placeholder it appended, or None where the C code returns NULL.\<close>

definition trimReplyUnusedTailSpace :: "net_env \<Rightarrow> client \<Rightarrow> client" where
  "trimReplyUnusedTailSpace env c =
    (if cl_reply c = [] then c
     else case last (cl_reply c) of
       None \<Rightarrow> c
     | Some tail \<Rightarrow>
         if blk_size tail - length (blk_buf tail) > blk_size tail div 4 \<and>
            length (blk_buf tail) < PROTO_REPLY_CHUNK_BYTES \<and> \<not> blk_encoded tail
         then
           (let usable_size = zmalloc_usable env (length (blk_buf tail) + sizeof_block);
                new_size = usable_size - sizeof_block
            in c\<lparr>cl_reply_bytes := cl_reply_bytes c + new_size - blk_size tail,
                 cl_reply := butlast (cl_reply c) @ [Some (tail\<lparr>blk_size := new_size\<rparr>)]\<rparr>)
         else c)"

definition addReplyDeferredLen :: "net_env \<Rightarrow> client \<Rightarrow> nat option \<times> client" where
  "addReplyDeferredLen env c =
    (case prepareClientToWrite env c of
       (ok, c) \<Rightarrow>
         if \<not> ok then (None, c)
         else if clientTypeIsSlave c then (None, freeClientAsync c)
         else (let c = trimReplyUnusedTailSpace env c;
                   c = c\<lparr>cl_reply := cl_reply c @ [None]\<rparr>
               in (Some (length (cl_reply c) - 1), c)))"

definition list_del :: "'a list \<Rightarrow> nat \<Rightarrow> 'a list" where
  "list_del xs i = take i xs @ drop (Suc i) xs"

text \<open>The suffix step: copy as much as fits behind the previous node; the prefix step: put
  the rest in front of the next node; otherwise a block of its own.\<close>

definition setDeferredReply_place :: "net_env \<Rightarrow> client \<Rightarrow> nat \<Rightarrow> string \<Rightarrow> client" where
  "setDeferredReply_place env c ln s =
    (let l = cl_reply c; c = c\<lparr>cl_net_output_bytes := cl_net_output_bytes c + length s\<rparr>;
         fresh =
           (let buf = \<lparr>blk_size = zmalloc_usable env (length s + sizeof_block) - sizeof_block,
                       blk_encoded = False, blk_buf = s\<rparr>
            in closeClientOnOutputBufferLimitReached env
                 (c\<lparr>cl_reply := l[ln := Some buf],
                    cl_reply_bytes := cl_reply_bytes c + blk_size buf\<rparr>))
     in if Suc ln < length l then
          (case l ! Suc ln of
             Some nxt \<Rightarrow>
               if blk_size nxt - length (blk_buf nxt) \<ge> length s \<and>
                  length (blk_buf nxt) < PROTO_REPLY_CHUNK_BYTES * 4 \<and> \<not> blk_encoded nxt
               then c\<lparr>cl_reply := list_del (l[Suc ln := Some (nxt\<lparr>blk_buf := s @ blk_buf nxt\<rparr>)]) ln\<rparr>
               else fresh
           | None \<Rightarrow> fresh)
        else fresh)"

definition setDeferredReply :: "net_env \<Rightarrow> client \<Rightarrow> nat option \<Rightarrow> string \<Rightarrow> client" where
  "setDeferredReply env c node s =
    (case node of
       None \<Rightarrow> c
     | Some ln \<Rightarrow>
         (let l = cl_reply c
          in case (if ln > 0 then l ! (ln - 1) else None) of
               Some prev \<Rightarrow>
                 if length (blk_buf prev) < blk_size prev \<and> \<not> blk_encoded prev then
                   (let len_to_copy = min (blk_size prev - length (blk_buf prev)) (length s);
                        c = c\<lparr>cl_net_output_bytes := cl_net_output_bytes c + len_to_copy,
                              cl_reply := l[ln - 1 := Some (prev\<lparr>blk_buf :=
                                blk_buf prev @ take len_to_copy s\<rparr>)]\<rparr>
                    in if length s = len_to_copy then c\<lparr>cl_reply := list_del (cl_reply c) ln\<rparr>
                       else setDeferredReply_place env c ln (drop len_to_copy s))
                 else setDeferredReply_place env c ln s
             | None \<Rightarrow> setDeferredReply_place env c ln s))"

definition setDeferredAggregateLen :: "net_env \<Rightarrow> client \<Rightarrow> nat option \<Rightarrow> nat \<Rightarrow> char \<Rightarrow> client" where
  "setDeferredAggregateLen env c node len prefix =
    (if node = None then c
     else
       (let hdr = take (OBJ_SHARED_HDR_STRLEN (int len)) (shared_hdr prefix (int len));
            opt_hdr = (int len < OBJ_SHARED_BULKHDR_LEN)
        in if prefix = CHR ''*'' \<and> opt_hdr then setDeferredReply env c node hdr
           else if prefix = CHR ''%'' \<and> opt_hdr then setDeferredReply env c node hdr
           else if prefix = CHR ''~'' \<and> opt_hdr then setDeferredReply env c node hdr
           else setDeferredReply env c node (prefix # dec len @ CRLF)))"

lemma wf_envD: "wf_env env \<Longrightarrow> n \<le> zmalloc_usable env n"
  by (simp add: wf_env_def)

lemma accepts_reply_update [simp]:
  "accepts_reply env (c\<lparr>cl_reply := l\<rparr>) = accepts_reply env c"
  "accepts_reply env (c\<lparr>cl_reply_bytes := n\<rparr>) = accepts_reply env c"
  "accepts_reply env (c\<lparr>cl_net_output_bytes := n\<rparr>) = accepts_reply env c"
  by (rule accepts_reply_cong; simp)+

lemma setDeferredReply_place_out:
  assumes "sink_ok env c" "cl_reply c = xs @ None # ys"
  shows "client_output (setDeferredReply_place env c (length xs) s) =
      cl_buf c @ blocks_output xs @ s @ blocks_output ys \<and>
    sink_ok env (setDeferredReply_place env c (length xs) s)"
proof -
  let ?b = "\<lparr>blk_size = zmalloc_usable env (length s + sizeof_block) - sizeof_block,
      blk_encoded = False, blk_buf = s\<rparr>"
  let ?c = "c\<lparr>cl_net_output_bytes := cl_net_output_bytes c + length s\<rparr>"
  let ?fresh = "closeClientOnOutputBufferLimitReached env
      (?c\<lparr>cl_reply := (cl_reply c)[length xs := Some ?b],
          cl_reply_bytes := cl_reply_bytes c + blk_size ?b\<rparr>)"
  have wf: "wf_client c" "accepts_reply env c" "wf_env env" using assms(1) by (auto simp: sink_ok_def)
  have sz: "length s \<le> blk_size ?b" using wf_envD[OF wf(3), of "length s + sizeof_block"] by simp
  have lwf: "list_all wf_block xs" "list_all wf_block ys" using wf(1) assms(2) by (auto simp: wf_client_def)
  have acc: "accepts_reply env (closeClientOnOutputBufferLimitReached env
      (c\<lparr>cl_net_output_bytes := a, cl_reply := b, cl_reply_bytes := d\<rparr>))"
    "accepts_reply env (c\<lparr>cl_net_output_bytes := a, cl_reply := b\<rparr>)" for a b d
    using wf(2) by (simp_all add: closeClient_accepts)
  have fresh: "client_output ?fresh = cl_buf c @ blocks_output xs @ s @ blocks_output ys \<and>
      sink_ok env ?fresh"
    using assms(2) wf acc sz lwf
    by (simp add: client_output_def sink_ok_def wf_client_def wf_block_def)
  show ?thesis
  proof (cases "\<exists>nxt ys'. ys = Some nxt # ys' \<and> length s \<le> blk_size nxt - length (blk_buf nxt) \<and>
      length (blk_buf nxt) < PROTO_REPLY_CHUNK_BYTES * 4 \<and> \<not> blk_encoded nxt")
    case True
    then obtain nxt ys' where y: "ys = Some nxt # ys'" "length s \<le> blk_size nxt - length (blk_buf nxt)"
      "length (blk_buf nxt) < PROTO_REPLY_CHUNK_BYTES * 4" "\<not> blk_encoded nxt" by blast
    have "setDeferredReply_place env c (length xs) s =
        ?c\<lparr>cl_reply := xs @ Some (nxt\<lparr>blk_buf := s @ blk_buf nxt\<rparr>) # ys'\<rparr>"
      using y assms(2) by (simp add: setDeferredReply_place_def Let_def nth_append list_del_def
          list_update_append)
    then show ?thesis using y wf lwf acc
      by (auto simp: client_output_def sink_ok_def wf_client_def wf_block_def)
  next
    case False
    have "setDeferredReply_place env c (length xs) s = ?fresh"
    proof (cases ys)
      case Nil
      then show ?thesis using assms(2) by (simp add: setDeferredReply_place_def Let_def)
    next
      case (Cons y ys')
      then show ?thesis using assms(2) False
        by (cases y) (auto simp: setDeferredReply_place_def Let_def nth_append)
    qed
    then show ?thesis using fresh by simp
  qed
qed

text \<open>Filling the placeholder between \<open>xs\<close> and \<open>ys\<close>: whichever of the three ways the
  code picks, the text appears exactly at the placeholder.\<close>

lemma setDeferredReply_out:
  assumes "sink_ok env c" "cl_reply c = xs @ None # ys"
  shows "client_output (setDeferredReply env c (Some (length xs)) s) =
      cl_buf c @ blocks_output xs @ s @ blocks_output ys \<and>
    sink_ok env (setDeferredReply env c (Some (length xs)) s)"
proof (cases "\<exists>xs' prev. xs = xs' @ [Some prev] \<and> length (blk_buf prev) < blk_size prev \<and> \<not> blk_encoded prev")
  case True
  then obtain xs' prev where x: "xs = xs' @ [Some prev]" "length (blk_buf prev) < blk_size prev"
    "\<not> blk_encoded prev" by blast
  define n where "n = min (blk_size prev - length (blk_buf prev)) (length s)"
  let ?xs = "xs' @ [Some (prev\<lparr>blk_buf := blk_buf prev @ take n s\<rparr>)]"
  let ?c = "c\<lparr>cl_net_output_bytes := cl_net_output_bytes c + n, cl_reply := ?xs @ None # ys\<rparr>"
  have nle: "n \<le> length s" "length (blk_buf prev) + n \<le> blk_size prev"
    using x(2) by (auto simp: n_def)
  have e: "setDeferredReply env c (Some (length xs)) s =
      (if length s = n then ?c\<lparr>cl_reply := ?xs @ ys\<rparr>
       else setDeferredReply_place env ?c (length ?xs) (drop n s))"
    using x assms(2) by (simp add: setDeferredReply_def Let_def nth_append list_update_append
        list_del_def n_def[symmetric])
  have ok: "sink_ok env ?c" "sink_ok env (?c\<lparr>cl_reply := ?xs @ ys\<rparr>)"
    using assms x nle by (simp_all add: sink_ok_def wf_client_def wf_block_def)
  have r: "client_output (setDeferredReply_place env ?c (length ?xs) (drop n s)) =
      cl_buf ?c @ blocks_output ?xs @ drop n s @ blocks_output ys \<and>
      sink_ok env (setDeferredReply_place env ?c (length ?xs) (drop n s))"
    using setDeferredReply_place_out[OF ok(1), of ?xs ys "drop n s"] by simp
  show ?thesis
  proof (cases "length s = n")
    case True
    then show ?thesis using ok x e by (simp add: client_output_def)
  next
    case False
    have "take n s @ drop n s @ t = s @ t" for t
      by (metis append_assoc append_take_drop_id)
    then show ?thesis using False x e r by simp
  qed
next
  case False
  have "setDeferredReply env c (Some (length xs)) s = setDeferredReply_place env c (length xs) s"
  proof (cases xs rule: rev_cases)
    case Nil
    then show ?thesis by (simp add: setDeferredReply_def)
  next
    case (snoc xs' p)
    then show ?thesis using False assms(2)
      by (cases p) (auto simp: setDeferredReply_def Let_def nth_append)
  qed
  then show ?thesis using setDeferredReply_place_out[OF assms] by simp
qed

lemma trimReplyUnusedTailSpace_sink:
  assumes "sink_ok env c"
  shows "client_output (trimReplyUnusedTailSpace env c) = client_output c"
    "sink_ok env (trimReplyUnusedTailSpace env c)"
    "cl_buf (trimReplyUnusedTailSpace env c) = cl_buf c"
    "cl_resp (trimReplyUnusedTailSpace env c) = cl_resp c"
proof -
  have "client_output (trimReplyUnusedTailSpace env c) = client_output c \<and>
    sink_ok env (trimReplyUnusedTailSpace env c) \<and>
    cl_buf (trimReplyUnusedTailSpace env c) = cl_buf c \<and>
    cl_resp (trimReplyUnusedTailSpace env c) = cl_resp c"
  proof (cases "cl_reply c" rule: rev_cases)
    case Nil
    then show ?thesis using assms by (simp add: trimReplyUnusedTailSpace_def)
  next
    case (snoc xs p)
    show ?thesis
    proof (cases p)
      case None
      then show ?thesis using assms snoc by (simp add: trimReplyUnusedTailSpace_def)
    next
      case (Some t)
      have "length (blk_buf t) \<le> zmalloc_usable env (length (blk_buf t) + sizeof_block) - sizeof_block"
        using assms wf_envD[of env "length (blk_buf t) + sizeof_block"] by (simp add: sink_ok_def)
      then show ?thesis using assms snoc Some
        by (simp add: trimReplyUnusedTailSpace_def Let_def client_output_def sink_ok_def
            wf_client_def wf_block_def)
    qed
  qed
  then show "client_output (trimReplyUnusedTailSpace env c) = client_output c"
    "sink_ok env (trimReplyUnusedTailSpace env c)"
    "cl_buf (trimReplyUnusedTailSpace env c) = cl_buf c"
    "cl_resp (trimReplyUnusedTailSpace env c) = cl_resp c" by simp_all
qed

lemma addReplyDeferredLen_out:
  assumes "sink_ok env c" "addReplyDeferredLen env c = (node, c')"
  shows "\<exists>xs. node = Some (length xs) \<and> cl_reply c' = xs @ [None] \<and>
    client_output c = cl_buf c' @ blocks_output xs \<and> sink_ok env c' \<and> cl_resp c' = cl_resp c"
proof -
  obtain c1 where c1: "prepareClientToWrite env c = (True, c1)" "sink_ok env c1"
    "client_output c1 = client_output c" "cl_resp c1 = cl_resp c"
    using prepareClientToWrite_sink[OF assms(1)] by blast
  let ?t = "trimReplyUnusedTailSpace env c1"
  note T = trimReplyUnusedTailSpace_sink[OF c1(2)]
  have "node = Some (length (cl_reply ?t)) \<and> c' = ?t\<lparr>cl_reply := cl_reply ?t @ [None]\<rparr>"
    using assms(2) c1 by (simp add: addReplyDeferredLen_def sink_ok_def accepts_reply_def Let_def)
  then show ?thesis using T c1
    by (intro exI[of _ "cl_reply ?t"]) (simp add: client_output_def sink_ok_def wf_client_def wf_block_def)
qed

lemma setDeferredAggregateLen_eq:
  assumes "int n \<le> LLONG_MAX"
  shows "setDeferredAggregateLen env c node n prefix = setDeferredReply env c node (prefix # dec n @ CRLF)"
proof -
  have "dec_int (int n) = dec n" by (simp add: dec_int_def)
  moreover have "setDeferredReply env c None s = c" for s by (simp add: setDeferredReply_def)
  ultimately show ?thesis
    by (cases node) (simp_all add: setDeferredAggregateLen_def Let_def shared_hdr_eq)
qed

definition setDeferredArrayLen :: "net_env \<Rightarrow> client \<Rightarrow> nat option \<Rightarrow> nat \<Rightarrow> client" where
  "setDeferredArrayLen env c node len = setDeferredAggregateLen env c node len (CHR ''*'')"

definition setDeferredMapLen :: "net_env \<Rightarrow> client \<Rightarrow> nat option \<Rightarrow> nat \<Rightarrow> client" where
  "setDeferredMapLen env c node len =
    (let prefix = (if cl_resp c = 2 then CHR ''*'' else CHR ''%'');
         len = (if cl_resp c = 2 then len * 2 else len)
     in setDeferredAggregateLen env c node len prefix)"

definition setDeferredSetLen :: "net_env \<Rightarrow> client \<Rightarrow> nat option \<Rightarrow> nat \<Rightarrow> client" where
  "setDeferredSetLen env c node len =
     setDeferredAggregateLen env c node len (if cl_resp c = 2 then CHR ''*'' else CHR ''~'')"

text \<open>Once a placeholder is in the list the static buffer is frozen and every write lands
  behind the placeholder.\<close>

lemma addReplyPayloadToList_suffix:
  assumes "addReplyPayloadToList env c (xs @ None # ys) s = (c', l')"
  shows "\<exists>ys'. l' = xs @ None # ys'"
proof (cases ys rule: rev_cases)
  case Nil
  then show ?thesis using assms by (auto simp: addReplyPayloadToList_def Let_def split: if_splits)
next
  case (snoc zs z)
  then have e: "butlast (xs @ None # ys) = xs @ None # zs" "last (xs @ None # ys) = z"
    by (simp_all add: butlast_append)
  show ?thesis using assms unfolding addReplyPayloadToList_def Let_def e
    by (auto split: if_splits option.splits)
qed

lemma addReplyProto_behind_hole:
  assumes "sink_ok env c" "cl_reply c = xs @ None # ys"
  shows "\<exists>ys'. cl_reply (addReplyProto env c s) = xs @ None # ys' \<and>
    cl_buf (addReplyProto env c s) = cl_buf c"
proof -
  obtain c1 where c1: "prepareClientToWrite env c = (True, c1)" using prepareClientToWrite_sink[OF assms(1)] by blast
  have r: "cl_reply c1 = xs @ None # ys" "cl_buf c1 = cl_buf c"
    using c1 assms(2) by (auto simp: prepareClientToWrite_def putClientInPendingWriteQueue_def split: if_splits)
  let ?c = "c1\<lparr>cl_net_output_bytes := cl_net_output_bytes c1 + length s\<rparr>"
  obtain c2 l where l: "addReplyPayloadToList env ?c (xs @ None # ys) s = (c2, l)" by fastforce
  obtain c3 l3 where l3: "addReplyPayloadToList env ?c (cl_pending_push ?c) s = (c3, l3)" by fastforce
  have b: "addReplyPayloadToBuffer ?c s = (0, ?c)" using r by (simp add: addReplyPayloadToBuffer_def)
  show ?thesis
    using c1 r l l3 b addReplyPayloadToList_frame[OF l] addReplyPayloadToList_frame[OF l3]
      addReplyPayloadToList_suffix[OF l]
    by (auto simp: addReplyProto_def addReplyToBufferOrList_def Let_def)
qed

lemma writes_behind_hole:
  assumes "sink_ok env c" "cl_reply c = xs @ None # ys"
  shows "\<exists>ys'. cl_reply (fold (\<lambda>s c. addReplyProto env c s) ss c) = xs @ None # ys' \<and>
    cl_buf (fold (\<lambda>s c. addReplyProto env c s) ss c) = cl_buf c \<and>
    blocks_output ys' = blocks_output ys @ concat ss \<and>
    sink_ok env (fold (\<lambda>s c. addReplyProto env c s) ss c)"
proof -
  have shape: "\<exists>ys'. cl_reply (fold (\<lambda>s c. addReplyProto env c s) ss c) = xs @ None # ys' \<and>
      cl_buf (fold (\<lambda>s c. addReplyProto env c s) ss c) = cl_buf c" using assms
  proof (induction ss arbitrary: c ys)
    case Nil
    then show ?case by simp
  next
    case (Cons s ss)
    obtain ys1 where y: "cl_reply (addReplyProto env c s) = xs @ None # ys1"
      "cl_buf (addReplyProto env c s) = cl_buf c"
      using addReplyProto_behind_hole[OF Cons.prems] by blast
    show ?case using Cons.IH[of "addReplyProto env c s" ys1] Cons.prems y by auto
  qed
  have "client_output (fold (\<lambda>s c. addReplyProto env c s) ss c) = client_output c @ concat ss"
    "sink_ok env (fold (\<lambda>s c. addReplyProto env c s) ss c)"
    using proto_sink.out_fold[OF assms(1)] proto_sink.ok_fold[OF assms(1)] by auto
  then show ?thesis using shape assms(2) by (auto simp: client_output_def)
qed

lemma fold_addReplyProto_resp [simp]:
  "cl_resp (fold (\<lambda>s c. addReplyProto env c s) ss c) = cl_resp c"
  by (induction ss arbitrary: c) auto

section \<open>Properties\<close>

text \<open>A concrete client and environment for the witnesses: a script client without
  connection, with an eight byte static buffer, and an allocator that grants exactly what is
  asked for.\<close>

definition witness_env :: net_env where
  "witness_env = \<lparr>zmalloc_usable = (\<lambda>n. n), over_obuf_limits = (\<lambda>c. False),
     slave_has_pending = (\<lambda>c. False), postpone_push = False\<rparr>"

definition witness_client :: "nat \<Rightarrow> client" where
  "witness_client resp = \<lparr>cl_flags = {CLIENT_SCRIPT}, cl_io_close_asap = False,
     cl_main_thread = True, cl_conn = False, cl_resp = resp, cl_replstate = 0,
     cl_stream_on_ack = False, cl_buf = [], cl_buf_usable_size = 8, cl_buf_encoded = False,
     cl_buf_peak = 0, cl_reply = [], cl_reply_bytes = 0, cl_reply_bytes_shared = 0,
     cl_net_output_bytes = 0, cl_deferred_errors = None, cl_pending_push = []\<rparr>"

lemma witness_sink [simp]: "sink_ok witness_env (witness_client resp)"
  by (simp add: sink_ok_def wf_env_def wf_client_def accepts_reply_def clientTypeIsSlave_def
      witness_env_def witness_client_def)

lemma witness_client_fields [simp]:
  "client_output (witness_client resp) = []" "cl_resp (witness_client resp) = resp"
  by (simp_all add: witness_client_def client_output_def)

text \<open>C10. Append refinement: on a client that accepts replies, any sequence of protocol
  writes produces exactly the concatenation of the written texts behind what was already
  queued, however the bytes are spread over the static buffer and the reply blocks, and the
  client keeps accepting.\<close>

theorem addReplyProto_refines_append:
  assumes "sink_ok env c"
  shows "client_output (fold (\<lambda>s c. addReplyProto env c s) ss c) = client_output c @ concat ss \<and>
    sink_ok env (fold (\<lambda>s c. addReplyProto env c s) ss c)"
  using proto_sink.out_fold[OF assms] proto_sink.ok_fold[OF assms] by simp

theorem addReplyProto_refines_append_witness:
  "client_output (fold (\<lambda>s c. addReplyProto witness_env c s) [''+hello'', '' world'', CRLF]
     (witness_client 2)) = ''+hello world'' @ CRLF"
  using addReplyProto_refines_append[of witness_env "witness_client 2" "[''+hello'', '' world'', CRLF]"]
  by simp

text \<open>C18. Deferred lengths: reserving a header, writing any protocol text and filling the
  header in afterwards produces the same bytes as writing the header first: for arrays and
  maps alike, in RESP2 and RESP3, whichever of the three places \<open>setDeferredReply\<close> picks.\<close>

theorem deferred_header_in_place:
  assumes "sink_ok env c" "int n * 2 \<le> LLONG_MAX"
  shows "case addReplyDeferredLen env c of (node, c1) \<Rightarrow>
    (let c2 = fold (\<lambda>s c. addReplyProto env c s) ss c1
     in client_output (setDeferredArrayLen env c2 node n) =
          client_output c @ ''*'' @ dec n @ CRLF @ concat ss \<and>
        client_output (setDeferredMapLen env c2 node n) =
          client_output c @ (if cl_resp c = 2 then ''*'' @ dec (n * 2) else ''%'' @ dec n) @ CRLF @ concat ss \<and>
        sink_ok env (setDeferredArrayLen env c2 node n) \<and>
        sink_ok env (setDeferredMapLen env c2 node n))"
proof -
  obtain node c1 where d: "addReplyDeferredLen env c = (node, c1)" by fastforce
  then obtain xs where x: "node = Some (length xs)" "cl_reply c1 = xs @ None # []"
    "client_output c = cl_buf c1 @ blocks_output xs" "sink_ok env c1" "cl_resp c1 = cl_resp c"
    using addReplyDeferredLen_out[OF assms(1) d] by blast
  let ?c2 = "fold (\<lambda>s c. addReplyProto env c s) ss c1"
  obtain ys where y: "cl_reply ?c2 = xs @ None # ys" "cl_buf ?c2 = cl_buf c1"
    "blocks_output ys = concat ss" "sink_ok env ?c2"
    using writes_behind_hole[OF x(4,2), of ss] by auto
  have hole: "client_output (setDeferredReply env ?c2 node s) = client_output c @ s @ concat ss \<and>
      sink_ok env (setDeferredReply env ?c2 node s)" for s
    using setDeferredReply_out[OF y(4,1), of s] x y by simp
  have r: "cl_resp ?c2 = cl_resp c" using x(5) by simp
  show ?thesis using d hole assms(2) r
    by (simp add: setDeferredArrayLen_def setDeferredMapLen_def setDeferredAggregateLen_eq Let_def)
qed

theorem deferred_header_in_place_witness:
  "case addReplyDeferredLen witness_env (witness_client 3) of (node, c1) \<Rightarrow>
     client_output (setDeferredArrayLen witness_env
       (fold (\<lambda>s c. addReplyProto witness_env c s) [''$2'' @ CRLF @ ''ab'' @ CRLF] c1) node 1) =
     ''*1'' @ CRLF @ ''$2'' @ CRLF @ ''ab'' @ CRLF"
proof -
  have "dec 1 = ''1''" by code_simp
  then show ?thesis
    using deferred_header_in_place[of witness_env "witness_client 3" 1 "[''$2'' @ CRLF @ ''ab'' @ CRLF]"]
    by (simp add: case_prod_beta Let_def)
qed

text \<open>C19. No protocol injection through error messages: whatever text an error format expands
  to, the client is sent exactly one error line that starts with a minus sign and contains
  no carriage return or line feed before its end.\<close>

theorem error_reply_is_one_line:
  assumes "sink_ok env c"
  shows "\<exists>line. client_output (addReplyErrorFormat env c s) = client_output c @ ''-'' @ line @ CRLF \<and>
    CR \<notin> set line \<and> LF \<notin> set line"
proof -
  let ?l = "error_line (sanitize s)"
  have l: "?l = CHR ''-'' # tl ?l" using error_line_no_newline[of s] by (metis list.collapse)
  moreover have "CR \<notin> set (tl ?l)" "LF \<notin> set (tl ?l)"
    using error_line_no_newline[of s] list.set_sel(2) by metis+
  ultimately show ?thesis using addReplyErrorFormat_out[OF assms, of s]
    by (intro exI[of _ "tl ?l"]) (metis append_Cons append_Nil)
qed

theorem error_reply_is_one_line_witness:
  "\<exists>line. client_output (addReplyErrorFormat witness_env (witness_client 2)
      (''bad'' @ CRLF @ ''+OK'' @ CRLF)) = ''-'' @ line @ CRLF \<and> CR \<notin> set line \<and> LF \<notin> set line"
  using error_reply_is_one_line[of witness_env "witness_client 2" "''bad'' @ CRLF @ ''+OK'' @ CRLF"]
  by simp

end
