(* ===== verification/RaincallInprocess.thy ===== *)
theory RaincallInprocess
  imports RaincallHost CallReplyCorrect Networking
begin

text \<open>
  The in-process backend of \<^verbatim>\<open>src/src/raincall_inprocess.c\<close>, which runs a command of the
  server on an internal client and converts the captured reply, with the functions of
  \<^verbatim>\<open>src/src/server.c\<close> it uses to find and check the command. What running a command does,
  the module filters, the access control and the flags a script declares are parameters of the
  server environment. Blocks handed over to the internal client leave the ledger: its
  \<^verbatim>\<open>freeClient\<close> releases them.
\<close>

section \<open>Building replies\<close>

abbreviation zfree_alloc :: "allocator option" where "zfree_alloc \<equiv> Some Zmalloc"

definition inprocess_reply_new ::
  "(nat \<Rightarrow> bool) \<Rightarrow> raincall_ReplyType \<Rightarrow> heap \<Rightarrow> 'd::zero raincall_Reply option \<times> heap" where
  "inprocess_reply_new grant ty h =
    (case alloc grant Zmalloc h of
       (ok, h) \<Rightarrow> (if ok then Some (Reply ty None 0 0 0 0 None zfree_alloc) else None, h))"

text \<open>Releasing a reply whose construction failed: the jump to \<^verbatim>\<open>oom\<close>.\<close>

definition inprocess_oom :: "'d raincall_Reply \<Rightarrow> heap \<Rightarrow> ('d raincall_Reply option \<times> heap) run" where
  "inprocess_oom r h = (case raincall_reply_free (Some r) h of None \<Rightarrow> Wrong | Some h \<Rightarrow> Done (None, h))"

definition raincall_reply_string ::
  "(nat \<Rightarrow> bool) \<Rightarrow> raincall_ReplyType \<Rightarrow> string \<Rightarrow> heap \<Rightarrow> ('d::zero raincall_Reply option \<times> heap) run" where
  "raincall_reply_string grant ty s h =
    (case (inprocess_reply_new grant ty h :: 'd raincall_Reply option \<times> heap) of
       (None, h) \<Rightarrow> Done (None, h)
     | (Some reply, h) \<Rightarrow>
         (case alloc grant Zmalloc h of
            (False, h) \<Rightarrow> inprocess_oom reply h
          | (True, h) \<Rightarrow> Done (Some (Reply ty (Some s) (length s) 0 0 0 None zfree_alloc), h)))"

definition raincall_reply_error ::
  "(nat \<Rightarrow> bool) \<Rightarrow> string \<Rightarrow> heap \<Rightarrow> ('d::zero raincall_Reply option \<times> heap) run" where
  "raincall_reply_error grant s h = raincall_reply_string grant RAINCALL_REPLY_ERROR (c_str s) h"

section \<open>The deny list\<close>

definition raincall_command_is :: "string \<Rightarrow> string \<Rightarrow> bool" where
  "raincall_command_is arg cmd \<longleftrightarrow> length arg = length cmd \<and> strncaseeq arg cmd (length arg)"

definition denied_names :: "string list" where
  "denied_names = [''EVAL'', ''EVALSHA'', ''SCRIPT'', ''FUNCTION'', ''FCALL'', ''FCALL_RO'', ''MULTI'',
     ''EXEC'', ''WATCH'', ''DISCARD'', ''UNWATCH'', ''SUBSCRIBE'', ''PSUBSCRIBE'', ''SSUBSCRIBE'',
     ''BLPOP'', ''BRPOP'', ''BRPOPLPUSH'', ''BZPOPMIN'', ''BZPOPMAX'', ''XREAD'', ''CLIENT'',
     ''CONFIG'', ''SHUTDOWN'', ''DEBUG'', ''MODULE'', ''AUTH'', ''SELECT'']"

definition raincall_command_is_denylisted :: "string list \<Rightarrow> bool" where
  "raincall_command_is_denylisted argv \<longleftrightarrow>
     (length (argv ! 0) \<ge> 5 \<and> strncaseeq (argv ! 0) ''RAIN.'' 5) \<or>
     list_ex (raincall_command_is (argv ! 0)) denied_names"

section \<open>Arguments and captured output\<close>

text \<open>The objects created so far and whether all could be created.\<close>

fun create_objects :: "(nat \<Rightarrow> bool) \<Rightarrow> string list \<Rightarrow> heap \<Rightarrow> bool \<times> nat \<times> heap" where
  "create_objects grant [] h = (True, 0, h)"
| "create_objects grant (a # as) h =
    (case alloc grant Zmalloc h of
       (False, h) \<Rightarrow> (False, 0, h)
     | (True, h) \<Rightarrow> (case create_objects grant as h of (ok, n, h) \<Rightarrow> (ok, Suc n, h)))"

definition raincall_create_argv :: "(nat \<Rightarrow> bool) \<Rightarrow> string list \<Rightarrow> heap \<Rightarrow> string list option \<times> heap" where
  "raincall_create_argv grant argv h =
    (case alloc grant Zmalloc h of
       (False, h) \<Rightarrow> (None, h)
     | (True, h) \<Rightarrow>
         (case create_objects grant argv h of
            (False, n, h) \<Rightarrow> (None, release Zmalloc ((release Zmalloc ^^ n) h))
          | (True, n, h) \<Rightarrow> (Some argv, h)))"

text \<open>A block list with a placeholder in it would be read through NULL.\<close>

definition raincall_capture_reply ::
  "(unit, 'd) CallReply \<Rightarrow> client \<Rightarrow> ((unit, 'd) CallReply \<times> client) run" where
  "raincall_capture_reply mem c =
    (if None \<in> set (cl_reply c) then Wrong
     else Done (callReplyCreate mem (cl_buf c @ concat (map (blk_buf \<circ> the) (cl_reply c)))
                  (cl_deferred_errors c) (),
                c\<lparr>cl_buf := [], cl_reply := [], cl_deferred_errors := None\<rparr>))"

section \<open>Converting a call reply\<close>

definition raincall_reply_type_from_call_reply :: "int \<Rightarrow> raincall_ReplyType" where
  "raincall_reply_type_from_call_reply type =
    (if type = REPLY_STRING then RAINCALL_REPLY_STRING
     else if type = REPLY_ERROR then RAINCALL_REPLY_ERROR
     else if type = REPLY_INTEGER then RAINCALL_REPLY_INTEGER
     else if type = REPLY_ARRAY then RAINCALL_REPLY_ARRAY
     else if type = REPLY_NULL then RAINCALL_REPLY_NIL
     else if type = REPLY_MAP then RAINCALL_REPLY_MAP
     else if type = REPLY_SET then RAINCALL_REPLY_SET
     else if type = REPLY_BOOL then RAINCALL_REPLY_BOOL
     else if type = REPLY_DOUBLE then RAINCALL_REPLY_DOUBLE
     else if type = REPLY_BIG_NUMBER then RAINCALL_REPLY_BIGNUM
     else if type = REPLY_VERBATIM_STRING then RAINCALL_REPLY_VERB
     else if type = REPLY_ATTRIBUTE then RAINCALL_REPLY_ATTR
     else RAINCALL_REPLY_ERROR)"

definition run_bind :: "'a run \<Rightarrow> ('a \<Rightarrow> 'b run) \<Rightarrow> 'b run" where
  "run_bind r f = (case r of Done x \<Rightarrow> f x | Wrong \<Rightarrow> Wrong | Diverge \<Rightarrow> Diverge)"

lemma run_bind_simps [simp]:
  "run_bind (Done x) f = f x" "run_bind Wrong f = Wrong" "run_bind Diverge f = Diverge"
  by (simp_all add: run_bind_def)

text \<open>The string branches: the copy is made only for a non-empty string.\<close>

definition copy_string ::
  "(nat \<Rightarrow> bool) \<Rightarrow> raincall_ReplyType \<Rightarrow> (string \<times> nat) option \<Rightarrow> heap \<Rightarrow>
   ('d::zero raincall_Reply option \<times> heap) run" where
  "copy_string grant ty s h =
    (let dst = Reply ty None 0 0 0 0 None zfree_alloc
     in case s of
          None \<Rightarrow> Done (Some dst, h)
        | Some (p, len) \<Rightarrow>
            if len = 0 then Done (Some dst, h)
            else
              (case alloc grant Zmalloc h of
                 (False, h) \<Rightarrow> inprocess_oom dst h
               | (True, h) \<Rightarrow>
                   if length p < len then Wrong
                   else Done (Some (Reply ty (Some (take len p)) len 0 0 0 None zfree_alloc), h)))"

type_synonym 'd converted = "('d raincall_Reply option \<times> heap) run"

text \<open>The loops over the elements. \<open>conv\<close> converts one element; the result tells whether the loop
  ran to its end and lists the entries it stored.\<close>

fun array_children ::
  "(('p, 'd) CallReply option \<Rightarrow> heap \<Rightarrow> 'd converted) \<Rightarrow> (nat \<Rightarrow> (('p, 'd) CallReply option) run) \<Rightarrow>
   nat \<Rightarrow> nat \<Rightarrow> heap \<Rightarrow> (bool \<times> 'd raincall_Reply option list \<times> heap) run" where
  "array_children conv get i 0 h = Done (True, [], h)"
| "array_children conv get i (Suc n) h =
    run_bind (get i) (\<lambda>child.
    run_bind (conv child h) (\<lambda>(r, h).
      if r = None then Done (False, [None], h)
      else run_bind (array_children conv get (Suc i) n h) (\<lambda>(ok, rs, h). Done (ok, r # rs, h))))"

fun map_children ::
  "(('p, 'd) CallReply option \<Rightarrow> heap \<Rightarrow> 'd converted) \<Rightarrow>
   (nat \<Rightarrow> ((('p, 'd) CallReply option \<times> ('p, 'd) CallReply option) option) run) \<Rightarrow>
   nat \<Rightarrow> nat \<Rightarrow> heap \<Rightarrow> (bool \<times> 'd raincall_Reply option list \<times> heap) run" where
  "map_children conv get i 0 h = Done (True, [], h)"
| "map_children conv get i (Suc n) h =
    run_bind (get i) (\<lambda>kv.
      case kv of
        None \<Rightarrow> Done (False, [], h)
      | Some (key, value) \<Rightarrow>
          run_bind (conv key h) (\<lambda>(a, h).
          run_bind (conv value h) (\<lambda>(b, h).
            if a = None \<or> b = None then Done (False, [a, b], h)
            else run_bind (map_children conv get (Suc i) n h) (\<lambda>(ok, rs, h). Done (ok, a # b # rs, h)))))"

text \<open>Allocating the element array and filling it with \<open>loop\<close>.\<close>

definition fill_elements ::
  "(nat \<Rightarrow> bool) \<Rightarrow> raincall_ReplyType \<Rightarrow> nat \<Rightarrow>
   (heap \<Rightarrow> (bool \<times> 'd::zero raincall_Reply option list \<times> heap) run) \<Rightarrow> heap \<Rightarrow> 'd converted" where
  "fill_elements grant ty n loop h =
    (if n = 0 then Done (Some (Reply ty None 0 0 0 0 None zfree_alloc), h)
     else
       (case alloc grant Zmalloc h of
          (False, h) \<Rightarrow> inprocess_oom (Reply ty None 0 0 0 n None zfree_alloc) h
        | (True, h) \<Rightarrow>
            run_bind (loop h) (\<lambda>(ok, rs, h).
              let dst = Reply ty None 0 0 0 n (Some (rs @ replicate (n - length rs) None)) zfree_alloc
              in if ok then Done (Some dst, h) else inprocess_oom dst h)))"

text \<open>Elements are created with their parsed mark set, so reading them does not change them and
  only the root is threaded. Fuel bounds the nesting.\<close>

fun raincall_reply_from_call_reply ::
  "nat \<Rightarrow> (string \<Rightarrow> 'd::ring_1) \<Rightarrow> 'p \<Rightarrow> (nat \<Rightarrow> bool) \<Rightarrow> ('p, 'd) CallReply option \<Rightarrow> heap \<Rightarrow> 'd converted" where
  "raincall_reply_from_call_reply 0 strtod nul grant src h = Diverge"
| "raincall_reply_from_call_reply (Suc fuel) strtod nul grant src h =
    run_bind (callReplyType strtod nul src) (\<lambda>(src, type).
      let ty = raincall_reply_type_from_call_reply type
      in case (inprocess_reply_new grant ty h :: 'd raincall_Reply option \<times> heap) of
           (None, h) \<Rightarrow> Done (None, h)
         | (Some dst, h) \<Rightarrow>
             (case src of
                None \<Rightarrow>
                  (case raincall_reply_free (Some dst) h of
                     None \<Rightarrow> Wrong
                   | Some h \<Rightarrow> raincall_reply_error grant ''unsupported Redis reply type'' h)
              | Some src \<Rightarrow>
                  if type = REPLY_STRING \<or> type = REPLY_ERROR then
                    run_bind (callReplyGetString strtod nul src) (\<lambda>(src, s). copy_string grant ty s h)
                  else if type = REPLY_INTEGER then
                    run_bind (callReplyGetLongLong strtod nul src) (\<lambda>(src, i).
                      Done (Some (Reply ty None 0 i 0 0 None zfree_alloc), h))
                  else if type = REPLY_BOOL then
                    run_bind (callReplyGetBool strtod nul src) (\<lambda>(src, i).
                      Done (Some (Reply ty None 0 i 0 0 None zfree_alloc), h))
                  else if type = REPLY_DOUBLE then
                    run_bind (callReplyGetDouble strtod nul src) (\<lambda>(src, d).
                      Done (Some (Reply ty None 0 0 d 0 None zfree_alloc), h))
                  else if type = REPLY_BIG_NUMBER then
                    run_bind (callReplyGetBigNumber strtod nul src) (\<lambda>(src, s). copy_string grant ty s h)
                  else if type = REPLY_VERBATIM_STRING then
                    run_bind (callReplyGetVerbatim strtod nul src) (\<lambda>(src, s).
                      copy_string grant ty (map_option (\<lambda>(p, len, fmt). (p, len)) s) h)
                  else if type = REPLY_ARRAY \<or> type = REPLY_SET \<or> type = REPLY_ATTRIBUTE then
                    run_bind (callReplyGetLen strtod nul src) (\<lambda>(src, n).
                      fill_elements grant ty n
                        (array_children (raincall_reply_from_call_reply fuel strtod nul grant)
                           (\<lambda>i. run_bind (if type = REPLY_SET then callReplyGetSetElement strtod nul src i
                                          else callReplyGetArrayElement strtod nul src i)
                                  (\<lambda>(src, e). Done e)) 0 n) h)
                  else if type = REPLY_MAP then
                    run_bind (callReplyGetLen strtod nul src) (\<lambda>(src, n).
                      fill_elements grant ty (n * 2)
                        (map_children (raincall_reply_from_call_reply fuel strtod nul grant)
                           (\<lambda>i. run_bind (callReplyGetMapElement strtod nul src i) (\<lambda>(src, kv). Done kv)) 0 n) h)
                  else if type = REPLY_NULL then Done (Some dst, h)
                  else
                    (case raincall_reply_free (Some dst) h of
                       None \<Rightarrow> Wrong
                     | Some h \<Rightarrow> raincall_reply_error grant ''unsupported Redis reply type'' h)))"

section \<open>Commands\<close>

datatype cmd_proc =
    evalCommand | evalRoCommand | evalShaCommand | evalShaRoCommand | fcallCommand | fcallroCommand
  | other_proc nat

datatype redisCommand =
  RedisCommand (cmd_fullname: string) (cmd_arity: int) (cmd_flags: "64 word") (cmd_procedure: cmd_proc)
    (subcommands_dict: "(string \<times> redisCommand) list option")

abbreviation CMD_ADMIN :: "64 word" where "CMD_ADMIN \<equiv> 16"
abbreviation CMD_PUBSUB :: "64 word" where "CMD_PUBSUB \<equiv> 32"
abbreviation CMD_NOSCRIPT :: "64 word" where "CMD_NOSCRIPT \<equiv> 64"
abbreviation CMD_BLOCKING :: "64 word" where "CMD_BLOCKING \<equiv> 256"

text \<open>The client a command runs for.\<close>

record 'u caller =
  ca_db :: nat
  ca_user :: 'u
  ca_resp :: nat

text \<open>\<open>se_bucket\<close> is the bucket \<open>dictSdsCaseHash\<close> selects: it hashes all bytes of the name.\<close>

record ('u, 's) server_env =
  se_commands :: "(string \<times> redisCommand) list"
  se_bucket :: "string \<Rightarrow> nat"
  se_filters :: "'s \<Rightarrow> string list \<Rightarrow> string list"
  se_eval_flags :: "'s \<Rightarrow> redisCommand \<Rightarrow> string list \<Rightarrow> 64 word \<Rightarrow> 64 word"
  se_fcall_flags :: "'s \<Rightarrow> redisCommand \<Rightarrow> string list \<Rightarrow> 64 word \<Rightarrow> 64 word"
  se_acl_ok :: "'s \<Rightarrow> 'u \<Rightarrow> redisCommand \<Rightarrow> string list \<Rightarrow> bool"
  se_call :: "'s \<Rightarrow> 'u caller \<Rightarrow> redisCommand \<Rightarrow> string list \<Rightarrow> client \<times> 's"

text \<open>\<^verbatim>\<open>strcasecmp(a, b) == 0\<close>.\<close>

definition dictSdsKeyCaseCompare :: "string \<Rightarrow> string \<Rightarrow> bool" where
  "dictSdsKeyCaseCompare a b \<longleftrightarrow> map tolower (c_str a) = map tolower (c_str b)"

definition commandTableFetch :: "('u, 's) server_env \<Rightarrow> (string \<times> redisCommand) list \<Rightarrow> string \<Rightarrow> redisCommand option" where
  "commandTableFetch env d key =
    map_option snd (find (\<lambda>(k, v). se_bucket env k = se_bucket env key \<and> dictSdsKeyCaseCompare key k) d)"

definition isContainerCommandBySds :: "('u, 's) server_env \<Rightarrow> string \<Rightarrow> bool" where
  "isContainerCommandBySds env s =
    (case commandTableFetch env (se_commands env) s of
       None \<Rightarrow> False | Some base_cmd \<Rightarrow> subcommands_dict base_cmd \<noteq> None)"

definition lookupSubcommand :: "('u, 's) server_env \<Rightarrow> redisCommand \<Rightarrow> string \<Rightarrow> redisCommand option" where
  "lookupSubcommand env container sub_name = commandTableFetch env (the (subcommands_dict container)) sub_name"

definition lookupCommandLogic :: "('u, 's) server_env \<Rightarrow> string list \<Rightarrow> bool \<Rightarrow> redisCommand option" where
  "lookupCommandLogic env argv strict =
    (let base_cmd = commandTableFetch env (se_commands env) (argv ! 0);
         has_subcommands = base_cmd \<noteq> None \<and> subcommands_dict (the base_cmd) \<noteq> None
     in if length argv = 1 \<or> \<not> has_subcommands then
          if strict \<and> length argv \<noteq> 1 then None else base_cmd
        else if strict \<and> length argv \<noteq> 2 then None
        else lookupSubcommand env (the base_cmd) (argv ! 1))"

definition lookupCommand :: "('u, 's) server_env \<Rightarrow> string list \<Rightarrow> redisCommand option" where
  "lookupCommand env argv = lookupCommandLogic env argv False"

text \<open>The arguments quoted in the message, at most about 128 bytes of them.\<close>

fun args_beginning :: "string list \<Rightarrow> string \<Rightarrow> string" where
  "args_beginning [] args = args"
| "args_beginning (a # as) args =
    (if length args < 128 then
       args_beginning as (args @ [CHR 0x27] @ take (128 - length args) (c_str a) @ [CHR 0x27, CHR '' ''])
     else args)"

text \<open>None is the result 1, otherwise the error text.\<close>

definition commandCheckExistence ::
  "('u, 's) server_env \<Rightarrow> redisCommand option \<Rightarrow> string list \<Rightarrow> string option" where
  "commandCheckExistence env cmd argv =
    (if cmd \<noteq> None then None
     else
       let err =
         (if isContainerCommandBySds env (argv ! 0) then
            let cmd = map toupper (c_str (argv ! 0))
            in if length argv < 2 then ''missing subcommand. Try '' @ cmd @ '' HELP.''
               else ''unknown subcommand '' @ [CHR 0x27] @ take 128 (c_str (argv ! 1)) @ [CHR 0x27] @
                 ''. Try '' @ cmd @ '' HELP.''
          else
            ''unknown command '' @ [CHR 0x27] @ take 128 (c_str (argv ! 0)) @ [CHR 0x27] @
              (if length argv \<ge> 2 then '', with args beginning with: '' @ args_beginning (drop 1 argv) [] else []))
       in Some (sdsmapchars err CRLF ''  ''))"

definition commandCheckArity :: "redisCommand \<Rightarrow> int \<Rightarrow> string option" where
  "commandCheckArity cmd argc =
    (if (cmd_arity cmd > 0 \<and> cmd_arity cmd \<noteq> argc) \<or> argc < - cmd_arity cmd
     then Some (''wrong number of arguments for '' @ [CHR 0x27] @ c_str (cmd_fullname cmd) @ [CHR 0x27] @ '' command'')
     else None)"

definition getCommandFlags :: "('u, 's) server_env \<Rightarrow> 's \<Rightarrow> redisCommand \<Rightarrow> string list \<Rightarrow> 64 word" where
  "getCommandFlags env s cmd argv =
    (if cmd_procedure cmd = fcallCommand \<or> cmd_procedure cmd = fcallroCommand then
       se_fcall_flags env s cmd argv (cmd_flags cmd)
     else if cmd_procedure cmd = evalCommand \<or> cmd_procedure cmd = evalRoCommand \<or>
         cmd_procedure cmd = evalShaCommand \<or> cmd_procedure cmd = evalShaRoCommand then
       se_eval_flags env s cmd argv (cmd_flags cmd)
     else cmd_flags cmd)"

section \<open>The backend\<close>

record 'u raincall_InprocessBackend =
  ib_caller :: "'u caller option"
  ib_error :: string

definition raincall_inprocess_error ::
  "'u raincall_InprocessBackend \<Rightarrow> string \<Rightarrow> 'u raincall_InprocessBackend \<times> int" where
  "raincall_inprocess_error backend err =
    (let err = (if c_str err = [] then ''unknown error'' else err)
     in (backend\<lparr>ib_error := snprintf_s 256 err\<rparr>, - 1))"

text \<open>At the end of \<open>raincall_inprocess_call\<close> the captured reply is released; the conversion has
  parsed it by then.\<close>

text \<open>The common end of the branches that answer with a reply: the reply with result 0, or out of
  memory.\<close>

definition inprocess_answer ::
  "'u raincall_InprocessBackend \<Rightarrow> 's \<Rightarrow> 'd converted \<Rightarrow>
   ('u raincall_InprocessBackend \<times> heap \<times> 's \<times> int \<times> 'd raincall_Reply option) option" where
  "inprocess_answer backend s r =
    (case r of
       Done (Some out, h) \<Rightarrow> Some (backend, h, s, 0, Some out)
     | Done (None, h) \<Rightarrow>
         (case raincall_inprocess_error backend ''out of memory'' of (b, ret) \<Rightarrow> Some (b, h, s, ret, None))
     | _ \<Rightarrow> None)"

definition raincall_inprocess_reply_error ::
  "(nat \<Rightarrow> bool) \<Rightarrow> string \<Rightarrow> heap \<Rightarrow> 'd::zero converted" where
  "raincall_inprocess_reply_error grant err h = raincall_reply_string grant RAINCALL_REPLY_ERROR err h"

abbreviation forbidden_flags :: "64 word" where
  "forbidden_flags \<equiv> or (or (or CMD_NOSCRIPT CMD_BLOCKING) CMD_ADMIN) CMD_PUBSUB"

definition raincall_inprocess_call ::
  "('u, 's) server_env \<Rightarrow> (string \<Rightarrow> 'd::ring_1) \<Rightarrow> (unit, 'd) CallReply \<Rightarrow> (nat \<Rightarrow> bool) \<Rightarrow>
   'u raincall_InprocessBackend \<Rightarrow> heap \<Rightarrow> 's \<Rightarrow> string list \<Rightarrow>
   ('u raincall_InprocessBackend \<times> heap \<times> 's \<times> int \<times> 'd raincall_Reply option) option" where
  "raincall_inprocess_call env strtod mem grant backend h s argv =
    (let fail = (\<lambda>h s msg. case raincall_inprocess_error backend msg of (b, ret) \<Rightarrow> Some (b, h, s, ret, None))
     in case ib_caller backend of
          None \<Rightarrow> fail h s ''in-process backend has no caller''
        | Some caller \<Rightarrow>
            if length argv < 1 then
              inprocess_answer backend s (raincall_reply_error grant ''RAIN.CALL: expected command name'' h)
            else if raincall_command_is_denylisted argv then
              inprocess_answer backend s
                (raincall_reply_error grant ''command is not allowed by the in-process v0 backend'' h)
            else
              (case raincall_create_argv grant argv h of
                 (None, h) \<Rightarrow> fail h s ''out of memory''
               | (Some objects, h) \<Rightarrow>
                   let h = lower Zmalloc (1 + int (length objects)) h;
                       argv = se_filters env s objects
                   in if argv = [] then None
                      else
                        let cmd = lookupCommand env argv
                        in case commandCheckExistence env cmd argv of
                             Some err \<Rightarrow> inprocess_answer backend s (raincall_inprocess_reply_error grant err h)
                           | None \<Rightarrow>
                               let cmd = the cmd
                               in case commandCheckArity cmd (int (length argv)) of
                                    Some err \<Rightarrow> inprocess_answer backend s (raincall_inprocess_reply_error grant err h)
                                  | None \<Rightarrow>
                                      if and (getCommandFlags env s cmd argv) forbidden_flags \<noteq> 0 then
                                        inprocess_answer backend s (raincall_reply_error grant
                                          ''command is not allowed by the in-process v0 backend'' h)
                                      else if \<not> se_acl_ok env s (ca_user caller) cmd argv then
                                        inprocess_answer backend s (raincall_reply_error grant
                                          ''NOPERM this user has no permissions to run the command'' h)
                                      else
                                        (case se_call env s caller cmd argv of
                                           (c, s) \<Rightarrow>
                                             if CLIENT_BLOCKED \<in> cl_flags c then
                                               fail h s ''in-process backend command blocked''
                                             else
                                               (case raincall_capture_reply mem c of
                                                  Done (call_reply, c) \<Rightarrow>
                                                    (let out = raincall_reply_from_call_reply
                                                           (Suc (length (cr_proto call_reply))) strtod () grant
                                                           (Some call_reply) h
                                                     in case callReplyParse strtod () call_reply of
                                                          Done call_reply \<Rightarrow>
                                                            if freeCallReply call_reply = None then None
                                                            else inprocess_answer backend s out
                                                        | _ \<Rightarrow> None)
                                                | _ \<Rightarrow> None))))"

definition raincall_inprocess_last_error :: "'u raincall_InprocessBackend \<Rightarrow> string" where
  "raincall_inprocess_last_error backend = ib_error backend"

definition raincall_inprocess_close :: "'u raincall_InprocessBackend \<Rightarrow> heap \<Rightarrow> 's \<Rightarrow> heap \<times> 's" where
  "raincall_inprocess_close backend h s = (release Zmalloc h, s)"

definition raincall_inprocess_backend_new ::
  "(nat \<Rightarrow> bool) \<Rightarrow> heap \<Rightarrow> 'u raincall_InprocessBackend option \<times> heap" where
  "raincall_inprocess_backend_new grant h =
    (case alloc grant Zmalloc h of
       (ok, h) \<Rightarrow> (if ok then Some \<lparr>ib_caller = None, ib_error = []\<rparr> else None, h))"

definition raincall_inprocess_backend_set_caller ::
  "'u raincall_InprocessBackend \<Rightarrow> 'u caller option \<Rightarrow> 'u raincall_InprocessBackend" where
  "raincall_inprocess_backend_set_caller backend caller = backend\<lparr>ib_caller := caller\<rparr>"

section \<open>The conversion is correct\<close>

text \<open>The reply that stands for a RESP value: attributes are dropped, an empty string or collection
  owns no block.\<close>

fun reply_of :: "'d::zero resp \<Rightarrow> 'd raincall_Reply" where
  "reply_of RNullBulk = Reply RAINCALL_REPLY_NIL None 0 0 0 0 None zfree_alloc"
| "reply_of RNullArray = Reply RAINCALL_REPLY_NIL None 0 0 0 0 None zfree_alloc"
| "reply_of RNull = Reply RAINCALL_REPLY_NIL None 0 0 0 0 None zfree_alloc"
| "reply_of (RBulk s) = Reply RAINCALL_REPLY_STRING (if s = [] then None else Some s) (length s) 0 0 0 None zfree_alloc"
| "reply_of (RSimple s) = Reply RAINCALL_REPLY_STRING (if s = [] then None else Some s) (length s) 0 0 0 None zfree_alloc"
| "reply_of (RError s) = Reply RAINCALL_REPLY_ERROR (if s = [] then None else Some s) (length s) 0 0 0 None zfree_alloc"
| "reply_of (RInt x) = Reply RAINCALL_REPLY_INTEGER None 0 x 0 0 None zfree_alloc"
| "reply_of (RDouble d) = Reply RAINCALL_REPLY_DOUBLE None 0 0 d 0 None zfree_alloc"
| "reply_of (RBool b) = Reply RAINCALL_REPLY_BOOL None 0 (if b then 1 else 0) 0 0 None zfree_alloc"
| "reply_of (RBig s) = Reply RAINCALL_REPLY_BIGNUM (if s = [] then None else Some s) (length s) 0 0 0 None zfree_alloc"
| "reply_of (RVerb fmt s) = Reply RAINCALL_REPLY_VERB (if s = [] then None else Some s) (length s) 0 0 0 None zfree_alloc"
| "reply_of (RArray vs) = Reply RAINCALL_REPLY_ARRAY None 0 0 0 (length vs)
     (if vs = [] then None else Some (map (Some \<circ> reply_of) vs)) zfree_alloc"
| "reply_of (RSet vs) = Reply RAINCALL_REPLY_SET None 0 0 0 (length vs)
     (if vs = [] then None else Some (map (Some \<circ> reply_of) vs)) zfree_alloc"
| "reply_of (RMap vs) = Reply RAINCALL_REPLY_MAP None 0 0 0 (length vs)
     (if vs = [] then None else Some (map (Some \<circ> reply_of) vs)) zfree_alloc"
| "reply_of (RAttr kvs v) = reply_of v"

definition converts ::
  "'d converted \<Rightarrow> 'd raincall_Reply \<Rightarrow> heap \<Rightarrow> bool" where
  "converts res r h \<longleftrightarrow> (\<exists>h'. res = Done (Some r, h') \<and> raised Zmalloc (reply_blocks r) h h')"

lemma with_parsed_flag:
  "REPLY_FLAG_PARSED \<in> cr_flags r \<Longrightarrow> with_parsed strtod nul r f = Done (r, f r)"
  by (simp add: with_parsed_def callReplyParse_def)

lemma alloc_granted:
  assumes "\<forall>n. grant n"
  obtains h' where "alloc grant k h = (True, h')" "raised k 1 h h'"
proof -
  obtain ok h' where a: "alloc grant k h = (ok, h')" by fastforce
  with alloc_ok[OF a assms] alloc_raised[OF a] that show thesis by auto
qed

lemma copy_string_ok:
  assumes "\<forall>n. grant n" "take len p = s" "length s = len" "raised Zmalloc 1 h0 h"
  shows "converts (copy_string grant ty (Some (p, len)) h)
    (Reply ty (if s = [] then None else Some s) (length s) 0 0 0 None zfree_alloc) h0"
proof -
  obtain h' where a: "alloc grant Zmalloc h = (True, h')" "raised Zmalloc 1 h h'"
    using alloc_granted[OF assms(1)] .
  have "len \<le> length p" using assms(2,3) by (metis length_take min.absorb_iff1 min.commute min.cobounded1)
  then show ?thesis using assms(2-4) a raised_trans[OF assms(4) a(2)]
    by (auto simp: converts_def copy_string_def Let_def)
qed

lemma array_children_ok:
  assumes "\<And>j. j < length rs \<Longrightarrow> \<exists>c. get (i + j) = Done c \<and> (\<forall>h. converts (conv c h) (rs ! j) h)"
  shows "\<exists>h'. array_children conv get i (length rs) h = Done (True, map Some rs, h') \<and>
    raised Zmalloc (children_blocks (map Some rs)) h h'"
  using assms
proof (induction rs arbitrary: i h)
  case (Cons r rs)
  obtain c where g: "get i = Done c" "\<forall>h. converts (conv c h) r h" using Cons.prems[of 0] by auto
  then obtain h1 where h1: "conv c h = Done (Some r, h1)" "raised Zmalloc (reply_blocks r) h h1"
    unfolding converts_def by blast
  note c = g(1) h1
  have "\<And>j. j < length rs \<Longrightarrow> \<exists>c. get (Suc i + j) = Done c \<and> (\<forall>h. converts (conv c h) (rs ! j) h)"
    using Cons.prems[of "Suc j" for j] by auto
  from Cons.IH[OF this, of h1] obtain h2 where "array_children conv get (Suc i) (length rs) h1 = Done (True, map Some rs, h2)"
    "raised Zmalloc (children_blocks (map Some rs)) h1 h2" by blast
  then show ?case using c by (auto intro: raised_trans)
qed simp

lemma map_children_ok:
  assumes "length rs = 2 * n"
    "\<And>j. j < n \<Longrightarrow> \<exists>a b. get (i + j) = Done (Some (a, b)) \<and> (\<forall>h. converts (conv a h) (rs ! (2 * j)) h) \<and>
       (\<forall>h. converts (conv b h) (rs ! (2 * j + 1)) h)"
  shows "\<exists>h'. map_children conv get i n h = Done (True, map Some rs, h') \<and>
    raised Zmalloc (children_blocks (map Some rs)) h h'"
  using assms
proof (induction n arbitrary: i h rs)
  case (Suc n)
  then obtain x y rs' where rs: "rs = x # y # rs'" by (cases rs; cases "tl rs") auto
  obtain a b where ab: "get i = Done (Some (a, b))" "\<forall>h. converts (conv a h) x h" "\<forall>h. converts (conv b h) y h"
    using Suc.prems(2)[of 0] rs by auto
  obtain h1 h2 where h: "conv a h = Done (Some x, h1)" "raised Zmalloc (reply_blocks x) h h1"
    "conv b h1 = Done (Some y, h2)" "raised Zmalloc (reply_blocks y) h1 h2"
    using ab(2,3) unfolding converts_def by metis
  have "\<exists>a b. get (Suc i + j) = Done (Some (a, b)) \<and> (\<forall>h. converts (conv a h) (rs' ! (2 * j)) h) \<and>
       (\<forall>h. converts (conv b h) (rs' ! (2 * j + 1)) h)" if "j < n" for j
    using Suc.prems(2)[of "Suc j"] that rs by simp
  from Suc.IH[OF _ this, of h2] obtain h3 where
    m: "map_children conv get (Suc i) n h2 = Done (True, map Some rs', h3)"
    "raised Zmalloc (children_blocks (map Some rs')) h2 h3" using Suc.prems(1) rs by auto
  have "raised Zmalloc (reply_blocks x + (reply_blocks y + children_blocks (map Some rs'))) h h3"
    using raised_trans[OF h(2) raised_trans[OF h(4) m(2)]] .
  then show ?case using ab(1) h m rs by simp
qed simp

lemma fill_elements_ok:
  fixes rs :: "'d::zero raincall_Reply list"
  assumes "\<forall>n. grant n" "raised Zmalloc 1 h0 h" "length rs = n"
    "\<And>h. \<exists>h'. loop h = Done (True, map Some rs, h') \<and> raised Zmalloc (children_blocks (map Some rs)) h h'"
  shows "converts (fill_elements grant ty n loop h)
    (Reply ty None 0 0 0 n (if rs = [] then None else Some (map Some rs)) zfree_alloc) h0"
proof (cases "rs = []")
  case True
  then show ?thesis using assms by (simp add: converts_def fill_elements_def)
next
  case False
  obtain h1 where a: "alloc grant Zmalloc h = (True, h1)" "raised Zmalloc 1 h h1"
    using alloc_granted[OF assms(1)] .
  obtain h2 where l: "loop h1 = Done (True, map Some rs, h2)" "raised Zmalloc (children_blocks (map Some rs)) h1 h2"
    using assms(4) by blast
  have "raised Zmalloc (1 + (1 + children_blocks (map Some rs))) h0 h2"
    using raised_trans[OF assms(2) raised_trans[OF a(2) l(2)]] .
  then show ?thesis using False a l assms(3) by (auto simp: converts_def fill_elements_def Let_def)
qed

lemma callReplyType_flag:
  "REPLY_FLAG_PARSED \<in> cr_flags r \<Longrightarrow> callReplyType strtod nul (Some r) = Done (Some r, cr_type r)"
  by (simp add: callReplyType_def callReplyParse_def)

lemma str_node_text: "str_node r ty s \<Longrightarrow> cr_type r = ty \<and> cr_len r = length s \<and> take (length s) (val_str (cr_val r)) = s"
  by (auto simp: str_node_def val_str_def)

lemmas getter_defs = callReplyGetString_def callReplyGetLongLong_def callReplyGetBool_def callReplyGetDouble_def
  callReplyGetBigNumber_def callReplyGetVerbatim_def callReplyGetLen_def callReplyGetArrayElement_def
  callReplyGetSetElement_def callReplyGetMapElement_def callReplyGetMapElementInternal_def
  callReplyGetCollectionElement_def

lemma inprocess_reply_new_ok:
  assumes "\<forall>n. grant n"
  obtains h' where "inprocess_reply_new grant ty h = (Some (Reply ty None 0 0 0 0 None zfree_alloc), h')"
    "raised Zmalloc 1 h h'"
proof -
  obtain h' where "alloc grant Zmalloc h = (True, h')" "raised Zmalloc 1 h h'"
    using alloc_granted[OF assms] .
  with that[of h'] show thesis by (simp add: inprocess_reply_new_def)
qed

text \<open>One node of each kind.\<close>

lemma convert_string:
  fixes r :: "('p, 'd::ring_1) CallReply"
  assumes "\<forall>n. grant n" "REPLY_FLAG_PARSED \<in> cr_flags r" "str_node r ty s"
    "ty = REPLY_STRING \<or> ty = REPLY_ERROR \<or> ty = REPLY_BIG_NUMBER"
  shows "converts (raincall_reply_from_call_reply (Suc fuel) strtod nul grant (Some r) h)
    (Reply (raincall_reply_type_from_call_reply ty) (if s = [] then None else Some s) (length s) 0 0 0 None zfree_alloc) h"
proof -
  obtain h' where n: "inprocess_reply_new grant (raincall_reply_type_from_call_reply ty) h =
      (Some (Reply (raincall_reply_type_from_call_reply ty) None 0 0 (0::'d) 0 None zfree_alloc), h')"
    "raised Zmalloc 1 h h'" using inprocess_reply_new_ok[OF assms(1)] .
  note t = str_node_text[OF assms(3)]
  have run: "raincall_reply_from_call_reply (Suc fuel) strtod nul grant (Some r) h =
      copy_string grant (raincall_reply_type_from_call_reply ty) (Some (val_str (cr_val r), length s)) h'"
    using assms(4) t n(1)
    by (auto simp: callReplyType_flag[OF assms(2)] with_parsed_flag[OF assms(2)] getter_defs Let_def)
  show ?thesis unfolding run by (rule copy_string_ok[OF assms(1) _ _ n(2)]) (use t in auto)
qed

lemma convert_verbatim:
  fixes r :: "('p, 'd::ring_1) CallReply"
  assumes "\<forall>n. grant n" "REPLY_FLAG_PARSED \<in> cr_flags r" "cr_type r = REPLY_VERBATIM_STRING"
    "cr_len r = length s" "cr_val r = ValVerbatim p f" "take (length s) p = s"
  shows "converts (raincall_reply_from_call_reply (Suc fuel) strtod nul grant (Some r) h)
    (Reply RAINCALL_REPLY_VERB (if s = [] then None else Some s) (length s) 0 0 0 None zfree_alloc) h"
proof -
  obtain h' where n: "inprocess_reply_new grant RAINCALL_REPLY_VERB h =
      (Some (Reply RAINCALL_REPLY_VERB None 0 0 (0::'d) 0 None zfree_alloc), h')"
    "raised Zmalloc 1 h h'" using inprocess_reply_new_ok[OF assms(1)] .
  have run: "raincall_reply_from_call_reply (Suc fuel) strtod nul grant (Some r) h =
      copy_string grant RAINCALL_REPLY_VERB (Some (p, length s)) h'"
    using assms(3-5) n(1)
    by (simp add: callReplyType_flag[OF assms(2)] with_parsed_flag[OF assms(2)] getter_defs Let_def val_str_def
        raincall_reply_type_from_call_reply_def)
  show ?thesis unfolding run by (rule copy_string_ok[OF assms(1) assms(6) refl n(2)])
qed

lemma convert_scalar:
  fixes r :: "('p, 'd::ring_1) CallReply"
  assumes "\<forall>n. grant n" "REPLY_FLAG_PARSED \<in> cr_flags r"
  shows "cr_type r = REPLY_NULL \<Longrightarrow> converts (raincall_reply_from_call_reply (Suc fuel) strtod nul grant (Some r) h)
      (Reply RAINCALL_REPLY_NIL None 0 0 0 0 None zfree_alloc) h"
    "cr_type r = REPLY_INTEGER \<Longrightarrow> cr_val r = ValLL x \<Longrightarrow>
      converts (raincall_reply_from_call_reply (Suc fuel) strtod nul grant (Some r) h)
      (Reply RAINCALL_REPLY_INTEGER None 0 x 0 0 None zfree_alloc) h"
    "cr_type r = REPLY_BOOL \<Longrightarrow> cr_val r = ValLL x \<Longrightarrow>
      converts (raincall_reply_from_call_reply (Suc fuel) strtod nul grant (Some r) h)
      (Reply RAINCALL_REPLY_BOOL None 0 x 0 0 None zfree_alloc) h"
    "cr_type r = REPLY_DOUBLE \<Longrightarrow> cr_val r = ValD d \<Longrightarrow>
      converts (raincall_reply_from_call_reply (Suc fuel) strtod nul grant (Some r) h)
      (Reply RAINCALL_REPLY_DOUBLE None 0 0 d 0 None zfree_alloc) h"
proof -
  have n: "\<exists>h'. (inprocess_reply_new grant ty h :: 'd raincall_Reply option \<times> heap) =
      (Some (Reply ty None 0 0 0 0 None zfree_alloc), h') \<and> raised Zmalloc 1 h h'" for ty
    using inprocess_reply_new_ok[OF assms(1), where 'a = 'd] by metis
  note s = callReplyType_flag[OF assms(2)] with_parsed_flag[OF assms(2)] getter_defs Let_def val_ll_def
    raincall_reply_type_from_call_reply_def converts_def
  show "cr_type r = REPLY_NULL \<Longrightarrow> converts (raincall_reply_from_call_reply (Suc fuel) strtod nul grant (Some r) h)
      (Reply RAINCALL_REPLY_NIL None 0 0 0 0 None zfree_alloc) h"
    using n[of RAINCALL_REPLY_NIL] by (auto simp: s)
  show "cr_type r = REPLY_INTEGER \<Longrightarrow> cr_val r = ValLL x \<Longrightarrow>
      converts (raincall_reply_from_call_reply (Suc fuel) strtod nul grant (Some r) h)
      (Reply RAINCALL_REPLY_INTEGER None 0 x 0 0 None zfree_alloc) h"
    using n[of RAINCALL_REPLY_INTEGER] by (auto simp: s)
  show "cr_type r = REPLY_BOOL \<Longrightarrow> cr_val r = ValLL x \<Longrightarrow>
      converts (raincall_reply_from_call_reply (Suc fuel) strtod nul grant (Some r) h)
      (Reply RAINCALL_REPLY_BOOL None 0 x 0 0 None zfree_alloc) h"
    using n[of RAINCALL_REPLY_BOOL] by (auto simp: s)
  show "cr_type r = REPLY_DOUBLE \<Longrightarrow> cr_val r = ValD d \<Longrightarrow>
      converts (raincall_reply_from_call_reply (Suc fuel) strtod nul grant (Some r) h)
      (Reply RAINCALL_REPLY_DOUBLE None 0 0 d 0 None zfree_alloc) h"
    using n[of RAINCALL_REPLY_DOUBLE] by (auto simp: s)
qed

text \<open>Collections, given that their elements convert.\<close>

lemma convert_array:
  fixes r :: "('p, 'd::ring_1) CallReply"
  assumes "\<forall>n. grant n" "REPLY_FLAG_PARSED \<in> cr_flags r" "cr_type r = REPLY_ARRAY \<or> cr_type r = REPLY_SET"
    "cr_val r = ValArray cs" "cr_len r = length cs"
    "list_all2 (\<lambda>c x. \<forall>h. converts (raincall_reply_from_call_reply fuel strtod nul grant (Some c) h) x h) cs xs"
  shows "converts (raincall_reply_from_call_reply (Suc fuel) strtod nul grant (Some r) h)
    (Reply (raincall_reply_type_from_call_reply (cr_type r)) None 0 0 0 (length xs)
       (if xs = [] then None else Some (map Some xs)) zfree_alloc) h"
proof -
  let ?ty = "raincall_reply_type_from_call_reply (cr_type r)"
  let ?conv = "raincall_reply_from_call_reply fuel strtod nul grant"
  let ?get = "\<lambda>i. run_bind (if cr_type r = REPLY_SET then callReplyGetSetElement strtod nul r i
      else callReplyGetArrayElement strtod nul r i) (\<lambda>(src, e). Done e)"
  obtain h' where n: "inprocess_reply_new grant ?ty h = (Some (Reply ?ty None 0 0 (0::'d) 0 None zfree_alloc), h')"
    "raised Zmalloc 1 h h'" using inprocess_reply_new_ok[OF assms(1)] .
  have len: "length xs = length cs" using assms(6) by (simp add: list_all2_lengthD)
  have run: "raincall_reply_from_call_reply (Suc fuel) strtod nul grant (Some r) h =
      fill_elements grant ?ty (length xs) (array_children ?conv ?get 0 (length xs)) h'"
    using assms(3,5) n(1) len
    by (auto simp: callReplyType_flag[OF assms(2)] with_parsed_flag[OF assms(2)] callReplyGetLen_def Let_def)
  have "\<exists>c. ?get (0 + j) = Done c \<and> (\<forall>h. converts (?conv c h) (xs ! j) h)" if "j < length xs" for j
    using assms(3-6) that len
    by (auto simp: with_parsed_flag[OF assms(2)] getter_defs val_array_def list_all2_conv_all_nth)
  from array_children_ok[of xs ?get 0 ?conv, OF this]
  show ?thesis unfolding run by (intro fill_elements_ok[OF assms(1) n(2)]) auto
qed

lemma convert_map:
  fixes r :: "('p, 'd::ring_1) CallReply"
  assumes "\<forall>n. grant n" "REPLY_FLAG_PARSED \<in> cr_flags r" "cr_type r = REPLY_MAP"
    "cr_val r = ValArray cs" "cr_len r * 2 = length cs"
    "list_all2 (\<lambda>c x. \<forall>h. converts (raincall_reply_from_call_reply fuel strtod nul grant (Some c) h) x h) cs xs"
  shows "converts (raincall_reply_from_call_reply (Suc fuel) strtod nul grant (Some r) h)
    (Reply RAINCALL_REPLY_MAP None 0 0 0 (length xs)
       (if xs = [] then None else Some (map Some xs)) zfree_alloc) h"
proof -
  let ?conv = "raincall_reply_from_call_reply fuel strtod nul grant"
  let ?get = "\<lambda>i. run_bind (callReplyGetMapElement strtod nul r i) (\<lambda>(src, kv). Done kv)"
  obtain h' where n: "inprocess_reply_new grant RAINCALL_REPLY_MAP h =
      (Some (Reply RAINCALL_REPLY_MAP None 0 0 (0::'d) 0 None zfree_alloc), h')"
    "raised Zmalloc 1 h h'" using inprocess_reply_new_ok[OF assms(1)] .
  have len: "length xs = length cs" using assms(6) by (simp add: list_all2_lengthD)
  have run: "raincall_reply_from_call_reply (Suc fuel) strtod nul grant (Some r) h =
      fill_elements grant RAINCALL_REPLY_MAP (length xs) (map_children ?conv ?get 0 (cr_len r)) h'"
    using assms(3,5) n(1) len
    by (simp add: callReplyType_flag[OF assms(2)] with_parsed_flag[OF assms(2)] callReplyGetLen_def Let_def
        raincall_reply_type_from_call_reply_def)
  have "\<exists>a b. ?get (0 + j) = Done (Some (a, b)) \<and> (\<forall>h. converts (?conv a h) (xs ! (2 * j)) h) \<and>
      (\<forall>h. converts (?conv b h) (xs ! (2 * j + 1)) h)" if "j < cr_len r" for j
    using assms(3-6) that len
    by (auto simp: with_parsed_flag[OF assms(2)] getter_defs val_array_def list_all2_conv_all_nth mult.commute)
  from map_children_ok[of xs "cr_len r" ?get 0 ?conv, OF _ this]
  show ?thesis unfolding run using len assms(5) by (intro fill_elements_ok[OF assms(1) n(2)]) auto
qed

text \<open>A node whose elements convert; \<open>fuel\<close> is what is left for them.\<close>

lemma convert_node:
  fixes r :: "('p, 'd::ring_1) CallReply"
  assumes p: "\<forall>n. grant n" "REPLY_FLAG_PARSED \<in> cr_flags r"
    and IH: "\<And>vs cs. list_all2 (\<lambda>v r. node_ok d2s v r \<and> body d2s v r) vs cs \<Longrightarrow> list_all (wf_resp d2s strtod) vs \<Longrightarrow>
      length (concat (map (encode d2s) vs)) < fuel \<Longrightarrow>
      list_all2 (\<lambda>c x. \<forall>h. converts (raincall_reply_from_call_reply fuel strtod nul grant (Some c) h) x h)
        (cs :: ('p, 'd) CallReply list) (map reply_of vs)"
    and asm: "\<not> is_attr v" "length (encode d2s v) < Suc fuel" "wf_resp d2s strtod v" "body d2s v r"
  shows "converts (raincall_reply_from_call_reply (Suc fuel) strtod nul grant (Some r) h) (reply_of v) h"
proof (cases v)
  case (RArray vs)
  then obtain cs where cs: "cr_val r = ValArray cs" "list_all2 (\<lambda>v r. node_ok d2s v r \<and> body d2s v r) vs cs"
    "cr_type r = REPLY_ARRAY" "cr_len r = length vs" using asm by auto
  have "list_all2 (\<lambda>c x. \<forall>h. converts (raincall_reply_from_call_reply fuel strtod nul grant (Some c) h) x h) cs (map reply_of vs)"
    using IH[OF cs(2)] asm RArray by simp
  from convert_array[OF p _ cs(1) _ this, of h] show ?thesis
    using cs(1,3,4) list_all2_lengthD[OF cs(2), symmetric] RArray by (cases vs) (simp_all add: comp_def raincall_reply_type_from_call_reply_def del: raincall_reply_from_call_reply.simps)
next
  case (RSet vs)
  then obtain cs where cs: "cr_val r = ValArray cs" "list_all2 (\<lambda>v r. node_ok d2s v r \<and> body d2s v r) vs cs"
    "cr_type r = REPLY_SET" "cr_len r = length vs" using asm by auto
  have "list_all2 (\<lambda>c x. \<forall>h. converts (raincall_reply_from_call_reply fuel strtod nul grant (Some c) h) x h) cs (map reply_of vs)"
    using IH[OF cs(2)] asm RSet by simp
  from convert_array[OF p _ cs(1) _ this, of h] show ?thesis
    using cs(1,3,4) list_all2_lengthD[OF cs(2), symmetric] RSet by (cases vs) (simp_all add: comp_def raincall_reply_type_from_call_reply_def del: raincall_reply_from_call_reply.simps)
next
  case (RMap vs)
  then obtain cs where cs: "cr_val r = ValArray cs" "list_all2 (\<lambda>v r. node_ok d2s v r \<and> body d2s v r) vs cs"
    "cr_type r = REPLY_MAP" "cr_len r * 2 = length vs" using asm by auto
  have "list_all2 (\<lambda>c x. \<forall>h. converts (raincall_reply_from_call_reply fuel strtod nul grant (Some c) h) x h) cs (map reply_of vs)"
    using IH[OF cs(2)] asm RMap by simp
  from convert_map[OF p cs(3,1) _ this, of h] show ?thesis
    using cs(1,3,4) list_all2_lengthD[OF cs(2), symmetric] RMap by (cases vs) (simp_all add: comp_def del: raincall_reply_from_call_reply.simps)
next
  case (RBulk s)
  then have "str_node r REPLY_STRING s" using asm by simp
  from convert_string[OF p this, of fuel strtod nul h] show ?thesis
    using RBulk by (cases s) (simp_all add: raincall_reply_type_from_call_reply_def del: raincall_reply_from_call_reply.simps)
next
  case (RSimple s)
  then have "str_node r REPLY_STRING s" using asm by simp
  from convert_string[OF p this, of fuel strtod nul h] show ?thesis
    using RSimple by (cases s) (simp_all add: raincall_reply_type_from_call_reply_def del: raincall_reply_from_call_reply.simps)
next
  case (RError s)
  then have "str_node r REPLY_ERROR s" using asm by simp
  from convert_string[OF p this, of fuel strtod nul h] show ?thesis
    using RError by (cases s) (simp_all add: raincall_reply_type_from_call_reply_def del: raincall_reply_from_call_reply.simps)
next
  case (RBig s)
  then have "str_node r REPLY_BIG_NUMBER s" using asm by simp
  from convert_string[OF p this, of fuel strtod nul h] show ?thesis
    using RBig by (cases s) (simp_all add: raincall_reply_type_from_call_reply_def del: raincall_reply_from_call_reply.simps)
next
  case (RVerb fmt s)
  then obtain q f where "cr_type r = REPLY_VERBATIM_STRING" "cr_len r = length s" "cr_val r = ValVerbatim q f"
    "take (length s) q = s" using asm by auto
  from convert_verbatim[OF p this, of fuel strtod nul h] show ?thesis
    using RVerb by (simp del: raincall_reply_from_call_reply.simps)
qed (use asm convert_scalar[OF p] in
    \<open>simp_all add: is_attr_def del: raincall_reply_from_call_reply.simps\<close>)

lemma from_call_reply_ok:
  fixes r :: "('p, 'd::ring_1) CallReply"
  assumes "\<forall>n. grant n"
  shows "length (encode d2s v) < fuel \<Longrightarrow> wf_resp d2s strtod v \<Longrightarrow> body d2s v r \<Longrightarrow> REPLY_FLAG_PARSED \<in> cr_flags r \<Longrightarrow>
    converts (raincall_reply_from_call_reply fuel strtod nul grant (Some r) h) (reply_of v) h"
proof (induction fuel arbitrary: v r h)
  case (Suc fuel)
  have IH: "list_all2 (\<lambda>c x. \<forall>h. converts (raincall_reply_from_call_reply fuel strtod nul grant (Some c) h) x h)
      cs (map reply_of vs)"
    if "list_all2 (\<lambda>v r. node_ok d2s v r \<and> body d2s v r) vs cs" "list_all (wf_resp d2s strtod) vs"
      "length (concat (map (encode d2s) vs)) < fuel" for vs and cs :: "('p, 'd) CallReply list"
    unfolding list_all2_conv_all_nth
  proof (intro conjI allI impI)
    show "length cs = length (map reply_of vs)" using that(1) by (simp add: list_all2_lengthD)
    fix i h assume "i < length cs"
    then have i: "i < length vs" "vs ! i \<in> set vs" using that(1) by (auto simp: list_all2_lengthD)
    have "node_ok d2s (vs ! i) (cs ! i)" "body d2s (vs ! i) (cs ! i)" using that(1) i(1) by (auto simp: list_all2_conv_all_nth)
    moreover have "length (encode d2s (vs ! i)) < fuel" using encode_member_length[OF i(2), of d2s] that(3) by simp
    moreover have "wf_resp d2s strtod (vs ! i)" using that(2) i(2) by (simp add: list_all_iff)
    ultimately show "converts (raincall_reply_from_call_reply fuel strtod nul grant (Some (cs ! i)) h) (map reply_of vs ! i) h"
      using Suc.IH i(1) by (simp add: node_ok_def)
  qed
  note main = convert_node[OF assms Suc.prems(4) IH]
  show ?case
  proof (cases v)
    case (RAttr kvs u)
    then show ?thesis using main[where v = u] Suc.prems by simp
  qed (use main[where v = v] Suc.prems in \<open>simp_all add: is_attr_def del: raincall_reply_from_call_reply.simps\<close>)
qed simp

lemma wf_children_some: "wf_children k (map Some rs) \<longleftrightarrow> list_all (wf_reply k) rs"
  by (induction rs) auto

lemma full_elements_some: "full_elements (map Some rs) \<longleftrightarrow> list_all full_reply rs"
  by (induction rs) auto

lemma reply_of_wf: "wf_reply Zmalloc (reply_of v)"
proof (induction v)
  case (RArray vs) then show ?case using wf_children_some[of Zmalloc "map reply_of vs"] by (simp add: list_all_iff)
next
  case (RSet vs) then show ?case using wf_children_some[of Zmalloc "map reply_of vs"] by (simp add: list_all_iff)
next
  case (RMap vs) then show ?case using wf_children_some[of Zmalloc "map reply_of vs"] by (simp add: list_all_iff)
qed auto

lemma reply_of_full: "wf_resp d2s strtod v \<Longrightarrow> full_reply (reply_of v)"
proof (induction v)
  case (RArray vs) then show ?case using full_elements_some[of "map reply_of vs"] by (simp add: list_all_iff)
next
  case (RSet vs) then show ?case using full_elements_some[of "map reply_of vs"] by (simp add: list_all_iff)
next
  case (RMap vs) then show ?case using full_elements_some[of "map reply_of vs"] by (simp add: list_all_iff)
qed auto

section \<open>The call\<close>

lemma reply_string_converts:
  assumes "\<forall>n. grant n"
  shows "converts (raincall_reply_string grant ty s h) (Reply ty (Some s) (length s) 0 0 0 None zfree_alloc) h"
proof -
  obtain h1 where a: "alloc grant Zmalloc h = (True, h1)" "raised Zmalloc 1 h h1" using alloc_granted[OF assms] .
  obtain h2 where b: "alloc grant Zmalloc h1 = (True, h2)" "raised Zmalloc 1 h1 h2" using alloc_granted[OF assms] .
  show ?thesis using a b raised_trans[OF a(2) b(2)]
    by (simp add: converts_def raincall_reply_string_def inprocess_reply_new_def)
qed

lemma create_objects_granted:
  "\<forall>n. grant n \<Longrightarrow> \<exists>h'. create_objects grant argv h = (True, length argv, h') \<and> raised Zmalloc (int (length argv)) h h'"
proof (induction argv arbitrary: h)
  case (Cons a argv)
  obtain h1 where a: "alloc grant Zmalloc h = (True, h1)" "raised Zmalloc 1 h h1" using alloc_granted[OF Cons.prems] .
  obtain h2 where b: "create_objects grant argv h1 = (True, length argv, h2)" "raised Zmalloc (int (length argv)) h1 h2"
    using Cons.IH[OF Cons.prems] by blast
  show ?case using a b raised_trans[OF a(2) b(2)] by simp
qed simp

lemma create_argv_granted:
  assumes "\<forall>n. grant n"
  shows "\<exists>h'. raincall_create_argv grant argv h = (Some argv, h') \<and>
    hp_live (lower Zmalloc (1 + int (length argv)) h') = hp_live h"
proof -
  obtain h1 where a: "alloc grant Zmalloc h = (True, h1)" "raised Zmalloc 1 h h1" using alloc_granted[OF assms] .
  obtain h2 where b: "create_objects grant argv h1 = (True, length argv, h2)" "raised Zmalloc (int (length argv)) h1 h2"
    using create_objects_granted[OF assms] by blast
  show ?thesis using a b raised_live[OF raised_trans[OF a(2) b(2)]]
    by (simp add: raincall_create_argv_def lower_live fun_eq_iff)
qed

text \<open>What the backend contract asks of a call.\<close>

definition call_contract ::
  "'u raincall_InprocessBackend \<Rightarrow> heap \<Rightarrow>
   ('u raincall_InprocessBackend \<times> heap \<times> 's \<times> int \<times> 'd raincall_Reply option) option \<Rightarrow> bool" where
  "call_contract b h res \<longleftrightarrow> (\<exists>b' h' s' ret out. res = Some (b', h', s', ret, out) \<and> ib_caller b' = ib_caller b \<and>
     (case out of
        None \<Rightarrow> hp_live h' = hp_live h \<and> ret \<noteq> 0 \<and> c_str (ib_error b') \<noteq> []
      | Some r \<Rightarrow> ret = 0 \<and> full_reply r \<and> wf_reply Zmalloc r \<and> raised Zmalloc (reply_blocks r) h h'))"

lemma answer_contract:
  assumes "converts res r h" "full_reply r" "wf_reply Zmalloc r" "hp_live h = hp_live h0"
  shows "call_contract b h0 (inprocess_answer b s res)"
  using assms by (auto simp: converts_def inprocess_answer_def call_contract_def raised_def)

lemma error_contract:
  "\<forall>n. grant n \<Longrightarrow> hp_live h = hp_live h0 \<Longrightarrow>
   call_contract b h0 (inprocess_answer b s (raincall_reply_string grant RAINCALL_REPLY_ERROR msg h))"
  by (rule answer_contract[OF reply_string_converts]) simp_all

lemma snprintf_nonempty: "c_str e \<noteq> [] \<Longrightarrow> c_str (snprintf_s 256 e) \<noteq> []"
proof -
  assume "c_str e \<noteq> []"
  then have "snprintf_s 256 e \<noteq> []" by (simp add: snprintf_s_def)
  then show ?thesis by simp
qed

lemma inprocess_error_text: "c_str (ib_error (fst (raincall_inprocess_error b msg))) \<noteq> []"
proof -
  have "c_str ''unknown error'' \<noteq> []" by (simp add: c_str_def)
  then show ?thesis
    using snprintf_nonempty[of "if c_str msg = [] then ''unknown error'' else msg"]
    by (simp add: raincall_inprocess_error_def)
qed

lemma fail_contract:
  "hp_live h = hp_live h0 \<Longrightarrow>
   call_contract b h0 (case raincall_inprocess_error b msg of (b, ret) \<Rightarrow> Some (b, h, s, ret, None))"
  using inprocess_error_text[of b msg] by (simp add: call_contract_def raincall_inprocess_error_def Let_def)

lemma capture_output:
  "None \<notin> set (cl_reply c) \<Longrightarrow> raincall_capture_reply mem c =
     Done (callReplyCreate mem (client_output c) (cl_deferred_errors c) (),
           c\<lparr>cl_buf := [], cl_reply := [], cl_deferred_errors := None\<rparr>)"
proof -
  assume n: "None \<notin> set (cl_reply c)"
  then have "map (blk_buf \<circ> the) (cl_reply c) = map (\<lambda>b. case b of None \<Rightarrow> [] | Some t \<Rightarrow> blk_buf t) (cl_reply c)"
    by (auto split: option.split)
  then show ?thesis using n unfolding raincall_capture_reply_def client_output_def blocks_output_def by (simp only: if_False)
qed

text \<open>Capturing, converting and releasing a reply whose text encodes a value.\<close>

lemma captured_converts:
  assumes "\<forall>n. grant n" "wf_resp d2s strtod v" "cr = callReplyCreate mem (encode d2s v) errs ()"
  shows "\<exists>r. callReplyParse strtod () cr = Done r \<and> freeCallReply r \<noteq> None \<and>
    converts (raincall_reply_from_call_reply (Suc (length (cr_proto cr))) strtod () grant (Some cr) h) (reply_of v) h"
proof -
  obtain r where r: "callReplyParse strtod () cr = Done r" "represents d2s v r" "freeCallReply r \<noteq> None"
    using callReplyCreate_free[OF assms(2), of "()" mem errs "()"] assms(3) by auto
  have f: "REPLY_FLAG_PARSED \<in> cr_flags r" "body d2s v r" using r(2) by (auto simp: represents_def node_ok_def)
  have "callReplyType strtod () (Some cr) = callReplyType strtod () (Some r)"
    using r(1) callReplyType_flag[OF f(1)] by (simp add: callReplyType_def)
  then have "raincall_reply_from_call_reply (Suc n) strtod () grant (Some cr) h =
      raincall_reply_from_call_reply (Suc n) strtod () grant (Some r) h" for n
    by simp
  moreover have "length (encode d2s v) < Suc (length (cr_proto cr))" using assms(3) by (simp add: callReplyCreate_def)
  ultimately show ?thesis using from_call_reply_ok[OF assms(1) _ assms(2) f(2,1), of "Suc (length (cr_proto cr))" "()" h] r
    by (simp del: raincall_reply_from_call_reply.simps)
qed

locale inprocess_server =
  fixes env :: "('u, 's) server_env" and d2s :: "'d::ring_1 \<Rightarrow> string" and strtod :: "string \<Rightarrow> 'd"
  assumes filters_nonempty: "argv \<noteq> [] \<Longrightarrow> se_filters env s argv \<noteq> []"
    and call_replies: "se_call env s caller cmd argv = (c, s') \<Longrightarrow> CLIENT_BLOCKED \<notin> cl_flags c \<Longrightarrow>
      None \<notin> set (cl_reply c) \<and> (\<exists>v. wf_resp d2s strtod v \<and> client_output c = encode d2s v)"
begin

lemma inprocess_call_contract:
  assumes "\<forall>n. grant n"
  shows "call_contract b h (raincall_inprocess_call env strtod mem grant b h s argv)"
proof -
  obtain h1 where c: "raincall_create_argv grant argv h = (Some argv, h1)"
    "hp_live (lower Zmalloc (1 + int (length argv)) h1) = hp_live h"
    using create_argv_granted[OF assms] by blast
  let ?h = "lower Zmalloc (1 + int (length argv)) h1" and ?argv = "se_filters env s argv"
  have run: "call_contract b h (case se_call env s caller cmd ?argv of (c, s) \<Rightarrow>
      if CLIENT_BLOCKED \<in> cl_flags c then
        (case raincall_inprocess_error b msg of (b, ret) \<Rightarrow> Some (b, ?h, s, ret, None))
      else (case raincall_capture_reply mem c of
          Done (cr, c) \<Rightarrow>
            (let out = raincall_reply_from_call_reply (Suc (length (cr_proto cr))) strtod () grant (Some cr) ?h
             in case callReplyParse strtod () cr of
                  Done cr \<Rightarrow> if freeCallReply cr = None then None else inprocess_answer b s out
                | _ \<Rightarrow> None)
        | _ \<Rightarrow> None))" for caller cmd msg
  proof -
    obtain cl s' where e: "se_call env s caller cmd ?argv = (cl, s')" by fastforce
    show ?thesis
    proof (cases "CLIENT_BLOCKED \<in> cl_flags cl")
      case True
      then show ?thesis using e fail_contract[OF c(2)] by simp
    next
      case False
      obtain v where v: "None \<notin> set (cl_reply cl)" "wf_resp d2s strtod v" "client_output cl = encode d2s v"
        using call_replies[OF e False] by blast
      let ?cr = "callReplyCreate mem (encode d2s v) (cl_deferred_errors cl) ()"
      obtain r where r: "callReplyParse strtod () ?cr = Done r" "freeCallReply r \<noteq> None"
        "converts (raincall_reply_from_call_reply (Suc (length (cr_proto ?cr))) strtod () grant (Some ?cr) ?h) (reply_of v) ?h"
        using captured_converts[OF assms v(2) refl] by blast
      show ?thesis using e False v(1,3) r(1,2) answer_contract[OF r(3) reply_of_full[OF v(2)] reply_of_wf c(2)]
        by (auto simp: capture_output Let_def simp del: raincall_reply_from_call_reply.simps)
    qed
  qed
  show ?thesis
    unfolding raincall_inprocess_call_def Let_def c(1) prod.case option.case raincall_reply_error_def
      raincall_inprocess_reply_error_def
    using filters_nonempty[of argv s] run[unfolded Let_def]
    by (auto split: option.split intro!: fail_contract error_contract[OF assms] c(2)
        simp del: raincall_reply_from_call_reply.simps)
qed

end

section \<open>Both backends together\<close>

text \<open>The server process has backends of both kinds; its world is the network and the server.
  \<^verbatim>\<open>zmalloc\<close> ends the process instead of failing, so the in-process backend sees every
  request granted.\<close>

datatype ('r, 'u) any_backend = Tcp "'r raincall_TcpBackend" | Inprocess "'u raincall_InprocessBackend"

definition server_ops ::
  "('r, 'n, 'd::ring_1) hiredis_api \<Rightarrow> ('u, 's) server_env \<Rightarrow> (string \<Rightarrow> 'd) \<Rightarrow> (unit, 'd) CallReply \<Rightarrow>
   (nat \<Rightarrow> bool) \<Rightarrow> (('r, 'u) any_backend, 'n \<times> 's, 'd) backend_ops" where
  "server_ops hapi env strtod mem grant = \<lparr>
     bk_call = (\<lambda>b h (n, s) argv.
       case b of
         Tcp t \<Rightarrow> map_option (\<lambda>(t, h, n, ret, out). (Tcp t, h, (n, s), ret, out)) (raincall_tcp_call hapi grant t h n argv)
       | Inprocess i \<Rightarrow> map_option (\<lambda>(i, h, s, ret, out). (Inprocess i, h, (n, s), ret, out))
           (raincall_inprocess_call env strtod mem (\<lambda>k. True) i h s argv)),
     bk_error = (\<lambda>b. case b of Tcp t \<Rightarrow> raincall_tcp_error t | Inprocess i \<Rightarrow> raincall_inprocess_last_error i),
     bk_close = (\<lambda>b h (n, s).
       case b of
         Tcp t \<Rightarrow> (case raincall_tcp_close hapi t h n of (h, n) \<Rightarrow> (h, (n, s)))
       | Inprocess i \<Rightarrow> (case raincall_inprocess_close i h s of (h, s) \<Rightarrow> (h, (n, s)))),
     bk_tcp_open = (\<lambda>host port h (n, s).
       case raincall_tcp_open hapi grant host port h n of (t, h, n) \<Rightarrow> (map_option Tcp t, h, (n, s)))\<rparr>"

definition any_size :: "('r, 'u) any_backend \<Rightarrow> allocator \<Rightarrow> int" where
  "any_size b k = (case b of Tcp t \<Rightarrow> tcp_size t k | Inprocess i \<Rightarrow> if k = Zmalloc then 1 else 0)"

locale rain_server = hiredis hapi + inprocess_server env d2s strtod
  for hapi :: "('r, 'n, 'd::ring_1) hiredis_api" and env :: "('u, 's) server_env"
    and d2s :: "'d \<Rightarrow> string" and strtod :: "string \<Rightarrow> 'd"
begin

lemma server_call_cases:
  assumes "bk_call (server_ops hapi env strtod mem grant) b h w argv = Some (b', h', w', ret, out)"
  shows "any_size b' = any_size b \<and>
    (case out of
       None \<Rightarrow> hp_live h' = hp_live h \<and> ret \<noteq> 0 \<and> c_str (bk_error (server_ops hapi env strtod mem grant) b') \<noteq> []
     | Some r \<Rightarrow> ret = 0 \<and> full_reply r \<and> (\<exists>k. wf_reply k r \<and> raised k (reply_blocks r) h h'))"
proof -
  obtain n s where w: "w = (n, s)" by fastforce
  show ?thesis
  proof (cases b)
    case (Tcp t)
    then obtain t' n' where t: "raincall_tcp_call hapi grant t h n argv = Some (t', h', n', ret, out)" "b' = Tcp t'"
      using assms w by (auto simp: server_ops_def)
    then show ?thesis using tcp_call_cases[OF t(1)] Tcp
      by (auto simp: any_size_def fun_eq_iff server_ops_def raincall_tcp_error_def split: option.splits)
  next
    case (Inprocess i)
    then obtain i' s' where i: "raincall_inprocess_call env strtod mem (\<lambda>k. True) i h s argv = Some (i', h', s', ret, out)"
      "b' = Inprocess i'" using assms w by (auto simp: server_ops_def)
    then show ?thesis using inprocess_call_contract[of "\<lambda>k. True" i h mem s argv] Inprocess
      by (auto simp: any_size_def fun_eq_iff server_ops_def raincall_inprocess_last_error_def call_contract_def
          split: option.splits)
  qed
qed

lemma server_call_total: "bk_call (server_ops hapi env strtod mem grant) b h w argv \<noteq> None"
proof (cases b)
  case (Tcp t)
  then show ?thesis using tcp_call_total by (cases w) (simp add: server_ops_def)
next
  case (Inprocess i)
  then show ?thesis using inprocess_call_contract[of "\<lambda>k. True" i h mem "snd w" argv]
    by (cases w) (auto simp: server_ops_def call_contract_def)
qed

lemma server_close:
  assumes "bk_close (server_ops hapi env strtod mem grant) b h w = (h', w')"
  shows "hp_live h' = (\<lambda>k. hp_live h k - any_size b k)"
proof (cases b)
  case (Tcp t)
  obtain h1 n1 where c: "raincall_tcp_close hapi t h (fst w) = (h1, n1)" by fastforce
  then show ?thesis using assms Tcp tcp_close_size[OF c] by (cases w) (simp add: server_ops_def any_size_def)
next
  case (Inprocess i)
  then show ?thesis using assms
    by (cases w) (auto simp: server_ops_def any_size_def raincall_inprocess_close_def lower_live)
qed

end

sublocale rain_server \<subseteq> server: raincall_backend "server_ops hapi env strtod mem grant" any_size for mem grant
proof (unfold_locales, goal_cases)
  case (1 argv b h w)
  show ?case by (rule server_call_total)
next
  case (2 b h w argv b' h' w' ret out)
  then show ?case using server_call_cases by blast
next
  case (3 b h w argv b' h' w' ret)
  then show ?case using server_call_cases[of mem grant b h w argv b' h' w' ret None] by simp
next
  case (4 b h w argv b' h' w' ret r)
  then show ?case using server_call_cases[of mem grant b h w argv b' h' w' ret "Some r"] by simp
next
  case (5 b h w h' w')
  then show ?case by (rule server_close)
next
  case (6 host port h w h' w')
  then show ?case using tcp_open_live[of hapi grant host port h "fst w" None]
    by (cases w) (auto simp: server_ops_def split: prod.splits)
next
  case (7 host port h w b h' w')
  then obtain t n' where "raincall_tcp_open hapi grant host port h (fst w) = (Some t, h', n')" "b = Tcp t"
    by (cases w) (auto simp: server_ops_def split: prod.splits)
  then show ?case using tcp_open_live by (fastforce simp: any_size_def)
qed

text \<open>A server with two commands: \<open>PING\<close> answers \<open>PONG\<close> and \<open>SELECT\<close> answers \<open>OK\<close>; its state
  counts the commands it has run, and every name falls into the same bucket.\<close>

definition demo_commands :: "(string \<times> redisCommand) list" where
  "demo_commands = [(''ping'', RedisCommand ''ping'' (- 1) 0 (other_proc 0) None),
     (''select'', RedisCommand ''select'' 2 0 (other_proc 1) None)]"

definition demo_env :: "(nat, nat) server_env" where
  "demo_env = \<lparr>se_commands = demo_commands, se_bucket = (\<lambda>s. 0), se_filters = (\<lambda>s argv. argv),
     se_eval_flags = (\<lambda>s cmd argv f. f), se_fcall_flags = (\<lambda>s cmd argv f. f),
     se_acl_ok = (\<lambda>s u cmd argv. u = 0),
     se_call = (\<lambda>s caller cmd argv.
       ((witness_client (ca_resp caller))\<lparr>cl_buf := (if cmd_procedure cmd = other_proc 0 then ''+PONG'' else ''+OK'') @ CRLF\<rparr>,
        Suc s))\<rparr>"

interpretation demo: rain_server ping_client demo_env dec_int "\<lambda>s. 0"
proof (unfold_locales, goal_cases)
  case (2 s caller cmd argv c s')
  then have "\<exists>v. wf_resp dec_int (\<lambda>s. 0) v \<and> client_output c = encode dec_int v"
    by (intro exI[of _ "RSimple (if cmd_procedure cmd = other_proc 0 then ''PONG'' else ''OK'')"])
      (auto simp: demo_env_def client_output_def blocks_output_def witness_client_def line_ok_def)
  then show ?case using 2 by (auto simp: demo_env_def witness_client_def)
qed (simp_all add: demo_env_def)

interpretation demo_host: raincall_host machine_api m_stack m_tbl
  "server_ops ping_client demo_env (\<lambda>s. 0) (zero_reply ()) (\<lambda>n. True)" any_size
  by unfold_locales

section \<open>The deny list, specified\<close>

lemma tolower_NUL: "tolower c = NUL \<longleftrightarrow> c = NUL" "tolower NUL = NUL"
proof -
  show "tolower NUL = NUL" by (simp add: tolower_def)
  have "char_of (of_char c + 32 :: nat) \<noteq> NUL" if "(of_char c :: nat) \<le> 90"
  proof
    assume "char_of (of_char c + 32 :: nat) = NUL"
    then have "(of_char (char_of (of_char c + 32 :: nat)) :: nat) = of_char NUL" by (rule arg_cong)
    then show False using that by simp
  qed
  then show "tolower c = NUL \<longleftrightarrow> c = NUL" by (auto simp: tolower_def Let_def)
qed

lemma strncaseeq_equal_length:
  "length a = length b \<Longrightarrow> NUL \<notin> set b \<Longrightarrow> strncaseeq a b (length a) \<longleftrightarrow> map tolower a = map tolower b"
proof (induction a b rule: list_induct2')
  case (4 x xs y ys)
  have "tolower x = tolower y \<Longrightarrow> x \<noteq> NUL" if "y \<noteq> NUL"
    using that tolower_NUL by metis
  then show ?case using 4 by auto
qed auto

lemma strncaseeq_prefix:
  "length p \<le> length a \<Longrightarrow> NUL \<notin> set p \<Longrightarrow>
   strncaseeq a p (length p) \<longleftrightarrow> map tolower (take (length p) a) = map tolower p"
proof (induction a p rule: list_induct2')
  case (4 x xs y ys)
  have "tolower x = tolower y \<Longrightarrow> x \<noteq> NUL" if "y \<noteq> NUL"
    using that tolower_NUL by metis
  then show ?case using 4 by auto
qed auto

lemma denied_names_no_NUL: "list_all (\<lambda>n. NUL \<notin> set n) denied_names"
  by (simp add: denied_names_def)

lemma command_is_denied:
  "n \<in> set denied_names \<Longrightarrow> raincall_command_is a n \<longleftrightarrow> map tolower a = map tolower n"
proof -
  assume "n \<in> set denied_names"
  then have "NUL \<notin> set n" using denied_names_no_NUL by (simp add: list_all_iff)
  then show ?thesis using strncaseeq_equal_length[of a n] map_eq_imp_length_eq[of tolower a tolower n]
    unfolding raincall_command_is_def by blast
qed

lemma denylisted_spec:
  "raincall_command_is_denylisted argv \<longleftrightarrow>
     map tolower (argv ! 0) \<in> map tolower ` set denied_names \<or>
     (length (argv ! 0) \<ge> 5 \<and> map tolower (take 5 (argv ! 0)) = ''rain.'')"
proof -
  have "map tolower ''RAIN.'' = ''rain.''" "length ''RAIN.'' = 5" "NUL \<notin> set ''RAIN.''" by code_simp+
  then have "length (argv ! 0) \<ge> 5 \<Longrightarrow> strncaseeq (argv ! 0) ''RAIN.'' 5 \<longleftrightarrow> map tolower (take 5 (argv ! 0)) = ''rain.''"
    using strncaseeq_prefix[of "''RAIN.''" "argv ! 0"] by metis
  then show ?thesis
    using command_is_denied[of _ "argv ! 0"]
    by (auto simp: raincall_command_is_denylisted_def list_ex_iff image_iff)
qed

text \<open>The checks a command passes before it is run.\<close>

definition permitted ::
  "('u, 's) server_env \<Rightarrow> 's \<Rightarrow> 'u caller \<Rightarrow> redisCommand \<Rightarrow> string list \<Rightarrow> bool" where
  "permitted env s caller cmd argv \<longleftrightarrow>
     lookupCommand env argv = Some cmd \<and>
     (cmd_arity cmd > 0 \<longrightarrow> int (length argv) = cmd_arity cmd) \<and>
     (cmd_arity cmd \<le> 0 \<longrightarrow> int (length argv) \<ge> - cmd_arity cmd) \<and>
     and (getCommandFlags env s cmd argv) CMD_NOSCRIPT = 0 \<and>
     and (getCommandFlags env s cmd argv) CMD_BLOCKING = 0 \<and>
     and (getCommandFlags env s cmd argv) CMD_ADMIN = 0 \<and>
     and (getCommandFlags env s cmd argv) CMD_PUBSUB = 0 \<and>
     se_acl_ok env s (ca_user caller) cmd argv"

lemma forbidden_flags_split:
  "and (w :: 64 word) forbidden_flags = 0 \<longleftrightarrow>
     and w CMD_NOSCRIPT = 0 \<and> and w CMD_BLOCKING = 0 \<and> and w CMD_ADMIN = 0 \<and> and w CMD_PUBSUB = 0"
proof -
  have "and w (or a b) = 0 \<longleftrightarrow> and w a = 0 \<and> and w b = 0" for a b :: "64 word"
    by (auto simp: bit_eq_iff bit_simps)
  then show ?thesis by blast
qed

lemma arity_check:
  "commandCheckArity cmd argc = None \<longleftrightarrow>
     (cmd_arity cmd > 0 \<longrightarrow> argc = cmd_arity cmd) \<and> (cmd_arity cmd \<le> 0 \<longrightarrow> argc \<ge> - cmd_arity cmd)"
  by (auto simp: commandCheckArity_def)

lemma existence_check: "commandCheckExistence env cmd argv = None \<longleftrightarrow> cmd \<noteq> None"
  by (simp add: commandCheckExistence_def Let_def)

lemma answer_world: "inprocess_answer b s r = Some (b', h', s', ret, out) \<Longrightarrow> s' = s"
  by (auto simp: inprocess_answer_def raincall_inprocess_error_def Let_def split: run.splits option.splits prod.splits)

text \<open>Every branch but the last leaves the server's state alone.\<close>

lemma inprocess_call_world:
  assumes "raincall_inprocess_call env strtod mem grant b h s argv = Some (b', h', s', ret, out)" "s' \<noteq> s"
  shows "\<exists>caller cmd. ib_caller b = Some caller \<and> argv \<noteq> [] \<and> \<not> raincall_command_is_denylisted argv \<and>
    permitted env s caller cmd (se_filters env s argv) \<and>
    s' = snd (se_call env s caller cmd (se_filters env s argv))"
proof -
  obtain caller where c: "ib_caller b = Some caller"
    using assms by (cases "ib_caller b") (auto simp: raincall_inprocess_call_def raincall_inprocess_error_def Let_def)
  have a: "argv \<noteq> []" "\<not> raincall_command_is_denylisted argv"
    using assms c by (auto simp: raincall_inprocess_call_def Let_def dest: answer_world split: if_splits)
  obtain x h1 where x: "raincall_create_argv grant argv h = (x, h1)" by fastforce
  have "x \<noteq> None"
    using assms c a x by (cases x) (auto simp: raincall_inprocess_call_def raincall_inprocess_error_def Let_def)
  then have k: "raincall_create_argv grant argv h = (Some argv, h1)"
    using x by (auto simp: raincall_create_argv_def split: prod.splits bool.splits)
  let ?argv = "se_filters env s argv"
  obtain cmd where cmd: "lookupCommand env ?argv = Some cmd"
    using assms c a k by (cases "lookupCommand env ?argv")
      (auto simp: raincall_inprocess_call_def Let_def commandCheckExistence_def dest: answer_world split: if_splits)
  have ar: "commandCheckArity cmd (int (length ?argv)) = None"
    using assms c a k cmd by (cases "commandCheckArity cmd (int (length ?argv))")
      (auto simp: raincall_inprocess_call_def Let_def existence_check[THEN iffD2] dest: answer_world split: if_splits)
  have fl: "and (getCommandFlags env s cmd ?argv) forbidden_flags = 0"
    using assms c a k cmd ar
    by (auto simp: raincall_inprocess_call_def Let_def existence_check[THEN iffD2] dest: answer_world split: if_splits)
  have acl: "se_acl_ok env s (ca_user caller) cmd ?argv"
    using assms c a k cmd ar fl
    by (auto simp: raincall_inprocess_call_def Let_def existence_check[THEN iffD2] dest: answer_world split: if_splits)
  obtain cl s1 where e: "se_call env s caller cmd ?argv = (cl, s1)" by fastforce
  have "s' = s1"
    using assms c a k cmd ar fl acl e
    by (auto simp: raincall_inprocess_call_def raincall_inprocess_error_def Let_def existence_check[THEN iffD2]
        simp del: raincall_reply_from_call_reply.simps dest: answer_world split: if_splits run.splits prod.splits)
  moreover have "permitted env s caller cmd ?argv"
    using cmd ar[unfolded arity_check] fl[unfolded forbidden_flags_split] acl unfolding permitted_def by blast
  ultimately show ?thesis using c a e by (intro exI[of _ caller] exI[of _ cmd]) simp
qed

section \<open>Properties\<close>

text \<open>C5. Only permitted commands run. Whenever an in-process call changes the state of the server,
  there is a caller, the command name given to \<open>RAIN.CALL\<close> is not on the deny list, and the
  command the server found for the arguments has the right number of them, carries none of the
  flags \<open>NOSCRIPT\<close>, \<open>BLOCKING\<close>, \<open>ADMIN\<close>, \<open>PUBSUB\<close>, and is allowed to the caller's user; the new
  state is the one that running this command once produces.\<close>

theorem inprocess_runs_only_permitted_commands:
  assumes "raincall_inprocess_call env strtod mem grant b h s argv = Some (b', h', s', ret, out)" "s' \<noteq> s"
  shows "\<exists>caller cmd. ib_caller b = Some caller \<and>
    map tolower (argv ! 0) \<notin> map tolower ` set denied_names \<and>
    \<not> (length (argv ! 0) \<ge> 5 \<and> map tolower (take 5 (argv ! 0)) = ''rain.'') \<and>
    permitted env s caller cmd (se_filters env s argv) \<and>
    s' = snd (se_call env s caller cmd (se_filters env s argv))"
  using inprocess_call_world[OF assms] denylisted_spec by blast

text \<open>A caller of the demonstration server and its backend.\<close>

definition demo_backend :: "nat raincall_InprocessBackend" where
  "demo_backend = \<lparr>ib_caller = Some \<lparr>ca_db = 0, ca_user = 0, ca_resp = 2\<rparr>, ib_error = []\<rparr>"

text \<open>What a call of the demonstration server returns, by the general lemmas.\<close>

lemma demo_lookup:
  "lookupCommand demo_env [''PING''] = Some (RedisCommand ''ping'' (- 1) 0 (other_proc 0) None)"
  by code_simp

lemma demo_ping_not_denied: "\<not> raincall_command_is_denylisted [''PING'']"
  by code_simp

lemma permitted_checks:
  assumes "permitted env s caller cmd argv"
  shows "lookupCommand env argv = Some cmd" "commandCheckExistence env (Some cmd) argv = None"
    "commandCheckArity cmd (int (length argv)) = None"
    "and (getCommandFlags env s cmd argv) forbidden_flags = 0" "se_acl_ok env s (ca_user caller) cmd argv"
  using assms unfolding permitted_def arity_check existence_check forbidden_flags_split by blast+

lemma inprocess_call_run:
  assumes "\<forall>n. grant n" "ib_caller b = Some caller" "argv \<noteq> []" "\<not> raincall_command_is_denylisted argv"
    "se_filters env s argv \<noteq> []" "permitted env s caller cmd (se_filters env s argv)"
    "se_call env s caller cmd (se_filters env s argv) = (c, s')" "CLIENT_BLOCKED \<notin> cl_flags c"
    "None \<notin> set (cl_reply c)" "client_output c = encode d2s v" "wf_resp d2s strtod v"
  shows "\<exists>h'. raincall_inprocess_call env strtod mem grant b h s argv = Some (b, h', s', 0, Some (reply_of v)) \<and>
    raised Zmalloc (reply_blocks (reply_of v)) h h'"
proof -
  obtain h1 where k: "raincall_create_argv grant argv h = (Some argv, h1)"
    "hp_live (lower Zmalloc (1 + int (length argv)) h1) = hp_live h"
    using create_argv_granted[OF assms(1)] by blast
  let ?h = "lower Zmalloc (1 + int (length argv)) h1"
  let ?cr = "callReplyCreate mem (encode d2s v) (cl_deferred_errors c) ()"
  obtain r where r: "callReplyParse strtod () ?cr = Done r" "freeCallReply r \<noteq> None"
    "converts (raincall_reply_from_call_reply (Suc (length (cr_proto ?cr))) strtod () grant (Some ?cr) ?h) (reply_of v) ?h"
    using captured_converts[OF assms(1,11) refl] by blast
  obtain h2 where h2: "raincall_reply_from_call_reply (Suc (length (cr_proto ?cr))) strtod () grant (Some ?cr) ?h =
      Done (Some (reply_of v), h2)" "raised Zmalloc (reply_blocks (reply_of v)) ?h h2"
    using r(3) unfolding converts_def by blast
  have "raised Zmalloc (reply_blocks (reply_of v)) h h2" using h2(2) k(2) by (simp add: raised_def)
  moreover have "raincall_inprocess_call env strtod mem grant b h s argv = Some (b, h2, s', 0, Some (reply_of v))"
    using assms(2-5,7-10) permitted_checks[OF assms(6)] k(1) r(1,2) h2(1)
    by (simp add: raincall_inprocess_call_def Let_def capture_output inprocess_answer_def
        del: raincall_reply_from_call_reply.simps)
  ultimately show ?thesis by blast
qed

lemma demo_permitted:
  "permitted demo_env s \<lparr>ca_db = 0, ca_user = 0, ca_resp = 2\<rparr> (RedisCommand ''ping'' (- 1) 0 (other_proc 0) None) [''PING'']"
  unfolding permitted_def demo_lookup by (simp add: getCommandFlags_def demo_env_def)

lemma demo_ping_reply:
  "se_call demo_env s caller (RedisCommand ''ping'' (- 1) 0 (other_proc 0) None) argv =
     ((witness_client (ca_resp caller))\<lparr>cl_buf := ''+PONG'' @ CRLF\<rparr>, Suc s)"
  by (simp add: demo_env_def)

text \<open>C6. A permitted command answers with exactly the reply the server wrote. When the command
  passes the checks and its output, however it is spread over the client's buffers, is the
  encoding of a RESP value, the call returns success and the reply of that value, leaves the
  server in the state running the command produced, and owns exactly the blocks of the reply.\<close>

theorem inprocess_call_returns_reply:
  assumes "\<forall>n. grant n" "ib_caller b = Some caller" "argv \<noteq> []" "\<not> raincall_command_is_denylisted argv"
    "se_filters env s argv \<noteq> []" "permitted env s caller cmd (se_filters env s argv)"
    "se_call env s caller cmd (se_filters env s argv) = (c, s')" "CLIENT_BLOCKED \<notin> cl_flags c"
    "None \<notin> set (cl_reply c)" "client_output c = encode d2s v" "wf_resp d2s strtod v"
  shows "\<exists>h' h''. raincall_inprocess_call env strtod mem grant b h s argv = Some (b, h', s', 0, Some (reply_of v)) \<and>
    raincall_reply_free (Some (reply_of v)) h' = Some h'' \<and> hp_live h'' = hp_live h"
proof -
  obtain h' where h': "raincall_inprocess_call env strtod mem grant b h s argv = Some (b, h', s', 0, Some (reply_of v))"
    "raised Zmalloc (reply_blocks (reply_of v)) h h'" using inprocess_call_run[OF assms] by blast
  then show ?thesis using free_wf(1)[OF reply_of_wf[of v], of h'] raised_live[OF h'(2)]
    by (auto simp: lower_live)
qed

theorem inprocess_call_returns_reply_witness:
  "\<exists>h'. raincall_inprocess_call demo_env (\<lambda>s. 0 :: int) (zero_reply ()) (\<lambda>n. True) demo_backend empty_heap 5 [''PING''] =
     Some (demo_backend, h', 6, 0, Some (reply_of (RSimple ''PONG'')))"
proof -
  let ?caller = "\<lparr>ca_db = 0, ca_user = 0, ca_resp = 2\<rparr> :: nat caller"
  let ?cmd = "RedisCommand ''ping'' (- 1) 0 (other_proc 0) None"
  let ?c = "(witness_client 2)\<lparr>cl_buf := ''+PONG'' @ CRLF\<rparr>"
  have f: "se_filters demo_env 5 [''PING''] = [''PING'']" by (simp add: demo_env_def)
  have out: "CLIENT_BLOCKED \<notin> cl_flags ?c" "None \<notin> set (cl_reply ?c)" "client_output ?c = encode dec_int (RSimple ''PONG'')"
    by (simp_all add: witness_client_def client_output_def blocks_output_def)
  show ?thesis
    using inprocess_call_returns_reply[of "\<lambda>n. True" demo_backend ?caller "[''PING'']" demo_env 5 ?cmd ?c 6
        dec_int "RSimple ''PONG''" "\<lambda>s. 0" "zero_reply ()" empty_heap]
      demo_ping_not_denied demo_permitted[of 5] out
    by (auto simp: f demo_ping_reply demo_backend_def line_ok_def)
qed

theorem inprocess_runs_only_permitted_commands_witness:
  "\<exists>cmd. permitted demo_env 5 \<lparr>ca_db = 0, ca_user = 0, ca_resp = 2\<rparr> cmd [''PING'']"
proof -
  let ?caller = "\<lparr>ca_db = 0, ca_user = 0, ca_resp = 2\<rparr> :: nat caller"
  let ?cmd = "RedisCommand ''ping'' (- 1) 0 (other_proc 0) None"
  let ?c = "(witness_client 2)\<lparr>cl_buf := ''+PONG'' @ CRLF\<rparr>"
  have f: "se_filters demo_env 5 [''PING''] = [''PING'']" by (simp add: demo_env_def)
  have out: "CLIENT_BLOCKED \<notin> cl_flags ?c" "None \<notin> set (cl_reply ?c)" "client_output ?c = encode dec_int (RSimple ''PONG'')"
    by (simp_all add: witness_client_def client_output_def blocks_output_def)
  obtain h' where "raincall_inprocess_call demo_env (\<lambda>s. 0 :: int) (zero_reply ()) (\<lambda>n. True) demo_backend empty_heap 5
      [''PING''] = Some (demo_backend, h', 6, 0, Some (reply_of (RSimple ''PONG'')))"
    using inprocess_call_run[of "\<lambda>n. True" demo_backend ?caller "[''PING'']" demo_env 5 ?cmd ?c 6
        dec_int "RSimple ''PONG''" "\<lambda>s. 0" "zero_reply ()" empty_heap]
      demo_ping_not_denied demo_permitted[of 5] out
    by (auto simp: f demo_ping_reply demo_backend_def line_ok_def)
  from inprocess_runs_only_permitted_commands[OF this] show ?thesis by (auto simp: f demo_backend_def)
qed

text \<open>C24. The deny list is a case insensitive comparison of whole names, plus the prefix
  \<open>RAIN.\<close>: no other name is refused and no spelling of a listed one passes.\<close>

theorem denylist_is_case_insensitive_membership:
  "raincall_command_is_denylisted argv \<longleftrightarrow>
     map tolower (argv ! 0) \<in> map tolower ` set denied_names \<or>
     (length (argv ! 0) \<ge> 5 \<and> map tolower (take 5 (argv ! 0)) = ''rain.'')"
  by (rule denylisted_spec)

lemma map_tolower_NUL: "NUL \<in> set a \<Longrightarrow> NUL \<in> set (map tolower a)"
  by (auto simp: image_iff intro!: bexI[of _ NUL] simp: tolower_NUL)

lemma denied_no_NUL_image: "a \<in> map tolower ` set denied_names \<Longrightarrow> NUL \<notin> set a"
proof
  assume "a \<in> map tolower ` set denied_names" "NUL \<in> set a"
  then obtain n c where "n \<in> set denied_names" "c \<in> set n" "tolower c = NUL" by auto
  then show False using denied_names_no_NUL tolower_NUL(1)[of c] by (auto simp: list_all_iff)
qed

text \<open>C25. A name with a NUL byte gets past the deny list. The list compares whole names, while
  the command table compares them as C strings: if a listed name followed by a NUL byte and any
  other bytes falls into the bucket of the listed name, it is not refused and finds the same
  command.\<close>

theorem denylist_bypass_by_NUL:
  assumes "n \<in> set denied_names" "se_bucket env (n @ NUL # z) = se_bucket env n"
  shows "raincall_command_is_denylisted (n # args) \<and> \<not> raincall_command_is_denylisted ((n @ NUL # z) # args) \<and>
    lookupCommand env ((n @ NUL # z) # args) = lookupCommand env (n # args)"
proof (intro conjI)
  have "NUL \<notin> set n" using assms(1) denied_names_no_NUL by (simp add: list_all_iff)
  then have c: "c_str (n @ NUL # z) = n" "c_str n = n" by (auto simp: c_str_def takeWhile_append)
  show "raincall_command_is_denylisted (n # args)" using assms(1) by (auto simp: denylisted_spec)
  have "NUL \<in> set (map tolower (n @ NUL # z))" by (rule map_tolower_NUL) simp
  then have "map tolower (n @ NUL # z) \<notin> map tolower ` set denied_names" using denied_no_NUL_image by blast
  moreover have "map tolower (take 5 (n @ NUL # z)) \<noteq> ''rain.''"
  proof (cases "length n \<ge> 5")
    case True
    then have "map tolower (take 5 (n @ NUL # z)) = map tolower (take 5 n)" by simp
    moreover have "list_all (\<lambda>n. map tolower (take 5 n) \<noteq> ''rain.'') denied_names" by code_simp
    ultimately show ?thesis using assms(1) by (simp add: list_all_iff)
  next
    case False
    then obtain k where "5 - length n = Suc k" by (cases "5 - length n") auto
    then have "NUL \<in> set (take 5 (n @ NUL # z))" by simp
    then have "NUL \<in> set (map tolower (take 5 (n @ NUL # z)))" by (rule map_tolower_NUL)
    moreover have "NUL \<notin> set ''rain.''" by simp
    ultimately show ?thesis by metis
  qed
  ultimately show "\<not> raincall_command_is_denylisted ((n @ NUL # z) # args)" by (simp add: denylisted_spec)

  have "commandTableFetch env d (n @ NUL # z) = commandTableFetch env d n" for d
    by (simp add: commandTableFetch_def dictSdsKeyCaseCompare_def c assms(2))
  then show "lookupCommand env ((n @ NUL # z) # args) = lookupCommand env (n # args)"
    by (simp add: lookupCommand_def lookupCommandLogic_def Let_def)
qed

theorem denylist_bypass_by_NUL_witness:
  "raincall_command_is_denylisted [''SELECT'', ''1''] \<and> \<not> raincall_command_is_denylisted [''SELECT'' @ [NUL], ''1''] \<and>
   lookupCommand demo_env [''SELECT'' @ [NUL], ''1''] = Some (RedisCommand ''select'' 2 0 (other_proc 1) None)"
proof -
  have n: "''SELECT'' \<in> set denied_names" by (simp add: denied_names_def)
  have l: "lookupCommand demo_env [''SELECT'', ''1''] = Some (RedisCommand ''select'' 2 0 (other_proc 1) None)"
    by code_simp
  have b: "se_bucket demo_env (''SELECT'' @ NUL # []) = se_bucket demo_env ''SELECT''" by (simp add: demo_env_def)
  show ?thesis using denylist_bypass_by_NUL[OF n b, of "[''1'']"] l by simp
qed



end
