(* ===== verification/Rainfall.thy ===== *)
theory Rainfall
  imports RaincallInprocess
begin

text \<open>
  The command \<open>RAIN.FALL\<close> of \<^verbatim>\<open>src/src/rainfall.c\<close>: the Moonquakes state created on first use,
  the loading and running of the source, and the translation of the returned Lua value into a
  reply. Loading and running Lua are operations of the machine, a parameter; while a script runs
  it may call back into the host any number of times, which is the step relation of the host.
  The object \<^verbatim>\<open>rainfall_backend\<close> is the backend of the state object at \<open>rf_raincall\<close>.
\<close>

section \<open>Reading the source\<close>

record rainFallReader =
  rd_source :: string
  rd_done :: bool

definition rainFallReadChunk :: "rainFallReader \<Rightarrow> string option \<times> rainFallReader" where
  "rainFallReadChunk reader =
    (if rd_done reader then (None, reader) else (Some (rd_source reader), reader\<lparr>rd_done := True\<rparr>))"

text \<open>What a loader that reads until the end of the input sees.\<close>

fun read_all :: "nat \<Rightarrow> (rainFallReader \<Rightarrow> string option \<times> rainFallReader) \<Rightarrow> rainFallReader \<Rightarrow> string option" where
  "read_all 0 f reader = None"
| "read_all (Suc n) f reader =
    (case f reader of
       (None, reader) \<Rightarrow> Some []
     | (Some s, reader) \<Rightarrow> map_option ((@) s) (read_all n f reader))"

lemma read_all_source: "read_all (Suc (Suc n)) rainFallReadChunk \<lparr>rd_source = s, rd_done = False\<rparr> = Some s"
  by (simp add: rainFallReadChunk_def)

section \<open>State\<close>

text \<open>The operations of the machine that are not part of the stack interface. \<open>mq_pcall\<close> runs the
  function below its \<open>n\<close> arguments and may change the host's state.\<close>

record ('L, 'h) lua_machine =
  mq_newstate :: "'L option"
  mq_load :: "'L \<Rightarrow> (rainFallReader \<Rightarrow> string option \<times> rainFallReader) \<Rightarrow> rainFallReader \<Rightarrow> bool \<times> 'L"
  mq_pcall :: "'L \<Rightarrow> nat \<Rightarrow> 'h \<Rightarrow> bool \<times> 'L \<times> 'h"

record ('L, 'h) rainfall =
  rf_machine :: "'L option"
  rf_raincall :: "nat option"
  rf_host :: 'h

type_synonym ('r, 'u, 'n, 's) server_host = "(('r, 'u) any_backend, 'n \<times> 's) rc_state"

definition rainFallGetState ::
  "('L, 'd) mq_api \<Rightarrow> ('L, ('r, 'u, 'n, 's) server_host) lua_machine \<Rightarrow> (nat \<Rightarrow> bool) \<Rightarrow> (nat \<Rightarrow> bool) \<Rightarrow>
   ('L, ('r, 'u, 'n, 's) server_host) rainfall \<Rightarrow>
   'L option \<times> ('L, ('r, 'u, 'n, 's) server_host) rainfall" where
  "rainFallGetState api m zgrant grant G =
    (case rf_machine G of
       Some L \<Rightarrow> (Some L, G)
     | None \<Rightarrow>
         (case mq_newstate m of
            None \<Rightarrow> (None, G)
          | Some L \<Rightarrow>
              (case raincall_inprocess_backend_new zgrant (rc_heap (rf_host G)) of
                 (None, h) \<Rightarrow> (None, G\<lparr>rf_host := (rf_host G)\<lparr>rc_heap := h\<rparr>\<rparr>)
               | (Some b, h) \<Rightarrow>
                   (case raincall_open_backend grant (Some (Inprocess b)) ((rf_host G)\<lparr>rc_heap := h\<rparr>) of
                      (None, s) \<Rightarrow> (None, G\<lparr>rf_raincall := None, rf_host := s\<rparr>)
                    | (Some R, s) \<Rightarrow>
                        (case raincall_install_state api L (Some R) s of
                           (L, s, r) \<Rightarrow> (Some L, \<lparr>rf_machine = Some L, rf_raincall = Some R, rf_host = s\<rparr>))))))"

text \<open>\<^verbatim>\<open>raincall_inprocess_backend_set_caller(rainfall_backend, caller)\<close>.\<close>

definition set_caller ::
  "'u caller option \<Rightarrow> ('L, ('r, 'u, 'n, 's) server_host) rainfall \<Rightarrow> ('L, ('r, 'u, 'n, 's) server_host) rainfall option" where
  "set_caller caller G =
    (case rf_raincall G of
       None \<Rightarrow> None
     | Some R \<Rightarrow>
         (case rc_states (rf_host G) R of
            Some (Some (Inprocess b)) \<Rightarrow>
              Some (G\<lparr>rf_host := (rf_host G)\<lparr>rc_states := (rc_states (rf_host G))(R :=
                Some (Some (Inprocess (raincall_inprocess_backend_set_caller b caller))))\<rparr>\<rparr>)
          | _ \<Rightarrow> None))"

section \<open>Translating the result\<close>

type_synonym 'L replied = "(client \<times> 'L) run"

text \<open>The loop over the elements of a table; \<open>sub\<close> replies with the value on top of the stack.\<close>

fun reply_elements ::
  "(client \<Rightarrow> 'L \<Rightarrow> 'L replied) \<Rightarrow> ('L, 'd) mq_api \<Rightarrow> int \<Rightarrow> nat \<Rightarrow> client \<Rightarrow> 'L \<Rightarrow> 'L replied" where
  "reply_elements sub api i 0 c L = Done (c, L)"
| "reply_elements sub api i (Suc n) c L =
    run_bind (sub c (mq_geti api L (- 1) i)) (\<lambda>(c, L). reply_elements sub api (i + 1) n c (mq_pop api L 1))"

definition rainFallReplyTable ::
  "(client \<Rightarrow> 'L \<Rightarrow> 'L replied) \<Rightarrow> net_env \<Rightarrow> ('L, 'd) mq_api \<Rightarrow> client \<Rightarrow> 'L \<Rightarrow> 'L replied" where
  "rainFallReplyTable sub env api c L =
    (let L = mq_len api L (- 1);
         (len, isnum) = mq_tointegerx api L (- 1);
         L = mq_pop api L 1
     in if \<not> isnum \<or> len < 0 then Done (addReplyError env c ''RAIN.FALL: table return is not an array'', L)
        else reply_elements sub api 1 (nat len) (addReplyArrayLen env c (nat len)) L)"

fun rainFallReplyFromLua ::
  "nat \<Rightarrow> ('d \<Rightarrow> string) \<Rightarrow> net_env \<Rightarrow> ('L, 'd) mq_api \<Rightarrow> client \<Rightarrow> 'L \<Rightarrow> 'L replied" where
  "rainFallReplyFromLua 0 d2s env api c L = Diverge"
| "rainFallReplyFromLua (Suc fuel) d2s env api c L =
    (case mq_type api L (- 1) of
       MQ_TNIL \<Rightarrow> Done (addReplyNull env c, L)
     | MQ_TBOOLEAN \<Rightarrow> Done (addReplyBool env c (mq_toboolean api L (- 1)), L)
     | MQ_TNUMBER \<Rightarrow>
         if mq_isinteger api L (- 1) then Done (addReplyLongLong env c (fst (mq_tointegerx api L (- 1))), L)
         else Done (addReplyDouble d2s env c (mq_tonumber api L (- 1)), L)
     | MQ_TSTRING \<Rightarrow>
         (case mq_tolstring api L (- 1) of
            (s, L) \<Rightarrow> Done (addReplyBulkCBuffer env c (case s of None \<Rightarrow> [] | Some s \<Rightarrow> s), L))
     | MQ_TTABLE \<Rightarrow> rainFallReplyTable (rainFallReplyFromLua fuel d2s env api) env api c L
     | t \<Rightarrow> Done (addReplyErrorFormat env c
              (''RAIN.FALL: unsupported Lua return type: '' @ c_str (mq_typename api L t)), L))"

section \<open>The command\<close>

text \<open>\<open>argv\<close> are the arguments of the command, the name first. \<open>restore\<close> is the end of every path
  after the state was found.\<close>

definition restore ::
  "('L, 'd) mq_api \<Rightarrow> int \<Rightarrow> client \<Rightarrow> 'L \<Rightarrow> ('L, ('r, 'u, 'n, 's) server_host) rainfall \<Rightarrow>
   (client \<times> ('L, ('r, 'u, 'n, 's) server_host) rainfall) run" where
  "restore api base_top c L G =
    (case set_caller None (G\<lparr>rf_machine := Some (mq_settop api L base_top)\<rparr>) of
       None \<Rightarrow> Wrong | Some G \<Rightarrow> Done (c, G))"

definition rainFallCommand ::
  "('d \<Rightarrow> string) \<Rightarrow> net_env \<Rightarrow> ('L, 'd) mq_api \<Rightarrow> ('L, ('r, 'u, 'n, 's) server_host) lua_machine \<Rightarrow>
   (nat \<Rightarrow> bool) \<Rightarrow> (nat \<Rightarrow> bool) \<Rightarrow> nat \<Rightarrow> 'u caller \<Rightarrow> client \<Rightarrow> string list \<Rightarrow>
   ('L, ('r, 'u, 'n, 's) server_host) rainfall \<Rightarrow> (client \<times> ('L, ('r, 'u, 'n, 's) server_host) rainfall) run" where
  "rainFallCommand d2s env api m zgrant grant fuel caller c argv G =
    (case rainFallGetState api m zgrant grant G of
       (None, G) \<Rightarrow> Done (addReplyError env c ''RAIN.FALL: failed to create Moonquakes state'', G)
     | (Some L, G) \<Rightarrow>
         (case set_caller (Some caller) G of
            None \<Rightarrow> Wrong
          | Some G \<Rightarrow>
              (let base_top = mq_gettop api L;
                   reader = \<lparr>rd_source = argv ! 1, rd_done = False\<rparr>
               in case mq_load m L rainFallReadChunk reader of
                    (False, L) \<Rightarrow> restore api base_top (addReplyError env c ''RAIN.FALL: failed to load source'') L G
                  | (True, L) \<Rightarrow>
                      (let L = fold (\<lambda>a L. mq_pushlstring api L a) (drop 2 argv) L
                       in case mq_pcall m L (length argv - 2) (rf_host G) of
                            (False, L, s) \<Rightarrow>
                              (case mq_tolstring api L (- 1) of
                                 (err, L) \<Rightarrow>
                                   (let c = (case err of
                                               Some err \<Rightarrow> addReplyErrorFormat env c (''RAIN.FALL: '' @ c_str err)
                                             | None \<Rightarrow> addReplyError env c ''RAIN.FALL: Lua error'')
                                    in restore api base_top c L (G\<lparr>rf_host := s\<rparr>)))
                          | (True, L, s) \<Rightarrow>
                              run_bind (rainFallReplyFromLua fuel d2s env api c L)
                                (\<lambda>(c, L). restore api base_top c L (G\<lparr>rf_host := s\<rparr>))))))"

section \<open>What a Lua value is shown as\<close>

text \<open>The error a value without a reply form is answered with.\<close>

definition type_error :: "string \<Rightarrow> string" where
  "type_error name = tl (error_line (sanitize (''RAIN.FALL: unsupported Lua return type: '' @ c_str name)))"

text \<open>\<open>shown d2s name T p v r\<close>: under protocol version \<open>p\<close> the value \<open>v\<close>, with tables read in the
  store \<open>T\<close>, is answered by \<open>r\<close>. A table is the array of its elements up to a border.\<close>

inductive shown ::
  "('d \<Rightarrow> string) \<Rightarrow> string \<Rightarrow> (nat \<Rightarrow> 'd ltable option) \<Rightarrow> nat \<Rightarrow> 'd lval \<Rightarrow> 'd resp \<Rightarrow> bool"
  for d2s fname T p where
  shown_nil: "shown d2s fname T p LNil (if p = 2 then RNullBulk else RNull)"
| shown_bool: "shown d2s fname T p (LBool b) (if p = 2 then RInt (if b then 1 else 0) else RBool b)"
| shown_int: "shown d2s fname T p (LInt i) (RInt i)"
| shown_num: "shown d2s fname T p (LNum d) (if p = 3 then RDouble d else RBulk (d2s d))"
| shown_str: "shown d2s fname T p (LStr s) (RBulk s)"
| shown_fun: "shown d2s fname T p (LFun f) (RError (type_error fname))"
| shown_tab: "T r = Some t \<Longrightarrow> (vs \<noteq> [] \<longrightarrow> tget t (KInt (int (length vs))) \<noteq> LNil) \<Longrightarrow>
    tget t (KInt (int (length vs) + 1)) = LNil \<Longrightarrow>
    (\<And>i. i < length vs \<Longrightarrow> shown d2s fname T p (tget t (KInt (int i + 1))) (vs ! i)) \<Longrightarrow>
    shown d2s fname T p (LTab r) (RArray vs)"

text \<open>A value whose tables nest at most \<open>k\<close> deep and whose leaves are within the machine's ranges.\<close>

fun showable :: "('d \<Rightarrow> string) \<Rightarrow> nat \<Rightarrow> (nat \<Rightarrow> 'd ltable option) \<Rightarrow> 'd lval \<Rightarrow> bool" where
  "showable d2s k T (LInt i) \<longleftrightarrow> LLONG_MIN \<le> i \<and> i \<le> LLONG_MAX"
| "showable d2s k T (LNum d) \<longleftrightarrow> 0 < length (d2s d) \<and> length (d2s d) < 10000"
| "showable d2s k T (LStr s) \<longleftrightarrow> int (length s) \<le> LLONG_MAX"
| "showable d2s 0 T (LTab r) \<longleftrightarrow> False"
| "showable d2s (Suc k) T (LTab r) \<longleftrightarrow>
     (case T r of None \<Rightarrow> False | Some t \<Rightarrow>
        (\<forall>i. showable d2s k T (tget t (KInt i))) \<and>
        (\<forall>i. tget t (KInt i) \<noteq> LNil \<longrightarrow> i \<le> LLONG_MAX))"
| "showable d2s k T v \<longleftrightarrow> True"

lemma error_line_hd: "error_line s = CHR ''-'' # tl (error_line s)"
  by (cases s) (auto simp: error_line_def)

text \<open>What replying with a value leaves behind.\<close>

definition replied_ok where
  "replied_ok stk tbl d2s fname env c L v res \<longleftrightarrow> (\<exists>c' L' r. res = Done (c', L') \<and> stk L' = stk L \<and> tbl L' = tbl L \<and>
     client_output c' = client_output c @ encode d2s r \<and> shown d2s fname (tbl L) (cl_resp c) v r \<and>
     sink_ok env c' \<and> cl_resp c' = cl_resp c)"

text \<open>\<open>sub\<close> replies correctly with every element of the table \<open>t\<close>.\<close>

definition subreply_ok where
  "subreply_ok stk tbl d2s fname env T p t sub \<longleftrightarrow> (\<forall>c L xs i. stk L = xs @ [tget t (KInt i)] \<longrightarrow> tbl L = T \<longrightarrow>
     sink_ok env c \<longrightarrow> cl_resp c = p \<longrightarrow> replied_ok stk tbl d2s fname env c L (tget t (KInt i)) (sub c L))"

locale rain_typename = moonquakes api stk tbl
  for api :: "('L, 'd) mq_api" and stk :: "'L \<Rightarrow> 'd lval list" and tbl :: "'L \<Rightarrow> nat \<Rightarrow> 'd ltable option" +
  fixes fname :: string
  assumes typename: "mq_typename api L MQ_TFUNCTION = fname"
begin

lemma reply_elements_ok:
  assumes "subreply_ok stk tbl d2s fname env T p t sub"
    "stk L = xs @ [LTab r]" "tbl L = T" "T r = Some t" "sink_ok env c" "cl_resp c = p"
  shows "\<exists>c' L' vs. reply_elements sub api i n c L = Done (c', L') \<and> stk L' = stk L \<and> tbl L' = T \<and>
     client_output c' = client_output c @ concat (map (encode d2s) vs) \<and> length vs = n \<and>
     (\<forall>j < n. shown d2s fname T p (tget t (KInt (i + int j))) (vs ! j)) \<and> sink_ok env c' \<and> cl_resp c' = p"
  using assms(2-6)
proof (induction n arbitrary: i c L)
  case (Suc n)
  let ?v = "tget t (KInt i)" and ?L = "mq_geti api L (- 1) i"
  have g: "stk ?L = stk L @ [?v]" "tbl ?L = T" using geti[of L xs r t i] Suc.prems by auto
  obtain c1 L1 v1 where s: "sub c ?L = Done (c1, L1)" "stk L1 = stk L @ [?v]" "tbl L1 = T"
    "client_output c1 = client_output c @ encode d2s v1" "shown d2s fname T p ?v v1" "sink_ok env c1" "cl_resp c1 = p"
    using assms(1)[unfolded subreply_ok_def, rule_format, OF g Suc.prems(4,5)] g Suc.prems(5)
    unfolding replied_ok_def by auto
  let ?L2 = "mq_pop api L1 1"
  have L2: "stk ?L2 = xs @ [LTab r]" "tbl ?L2 = T" using pop[of 1 L1] pop_tbl[of L1 1] s(2,3) Suc.prems(1) by auto
  obtain c' L' vs where IH: "reply_elements sub api (i + 1) n c1 ?L2 = Done (c', L')" "stk L' = stk ?L2" "tbl L' = T"
    "client_output c' = client_output c1 @ concat (map (encode d2s) vs)" "length vs = n"
    "\<forall>j < n. shown d2s fname T p (tget t (KInt (i + 1 + int j))) (vs ! j)" "sink_ok env c'" "cl_resp c' = p"
    using Suc.IH[OF L2 Suc.prems(3) s(6,7), of "i + 1"] by blast
  have "shown d2s fname T p (tget t (KInt (i + int j))) ((v1 # vs) ! j)" if "j < Suc n" for j
    using that s(5) IH(6) by (cases j) (auto simp: algebra_simps)
  then show ?case using s(1,4) IH Suc.prems(1) L2(1)
    by (intro exI[of _ c'] exI[of _ L'] exI[of _ "v1 # vs"]) auto
qed auto

lemma reply_table_ok:
  assumes "subreply_ok stk tbl d2s fname env T p t sub"
    "stk L = xs @ [LTab r]" "tbl L = T" "T r = Some t" "sink_ok env c" "cl_resp c = p"
    "\<And>i. tget t (KInt i) \<noteq> LNil \<Longrightarrow> i \<le> LLONG_MAX"
  shows "replied_ok stk tbl d2s fname env c L (LTab r) (rainFallReplyTable sub env api c L)"
proof -
  obtain n where n: "stk (mq_len api L (- 1)) = stk L @ [LInt (int n)]" "tbl (mq_len api L (- 1)) = T"
    "n > 0 \<longrightarrow> tget t (KInt (int n)) \<noteq> LNil" "tget t (KInt (int n + 1)) = LNil"
    using len[OF assms(2)] assms(3,4) by auto
  let ?L = "mq_pop api (mq_len api L (- 1)) 1"
  have L: "stk ?L = xs @ [LTab r]" "tbl ?L = T"
    using pop[of 1 "mq_len api L (- 1)"] pop_tbl n(1,2) assms(2) by auto
  have i: "mq_tointegerx api (mq_len api L (- 1)) (- 1) = (int n, True)" using tointegerx[OF n(1)] .
  have b: "int n \<le> LLONG_MAX" using n(3) assms(7)[of "int n"] by (cases n) auto
  note A = addReplyArrayLen_out[OF assms(5) b]
  have R: "cl_resp (addReplyArrayLen env c n) = p" using assms(6) by (simp add: addReply_resp)
  obtain c' L' vs where E: "reply_elements sub api 1 n (addReplyArrayLen env c n) ?L = Done (c', L')" "stk L' = stk ?L"
    "tbl L' = T" "client_output c' = client_output (addReplyArrayLen env c n) @ concat (map (encode d2s) vs)"
    "length vs = n" "\<forall>j < n. shown d2s fname T p (tget t (KInt (1 + int j))) (vs ! j)" "sink_ok env c'" "cl_resp c' = p"
    using reply_elements_ok[OF assms(1) L assms(4) conjunct2[OF A] R, where i = 1 and n = n] by blast
  have "shown d2s fname T p (LTab r) (RArray vs)"
    using n(3,4) E(5,6) assms(4) by (intro shown_tab) (auto simp: add.commute)
  then show ?thesis unfolding replied_ok_def using E A L assms(2,3,6) i
    by (intro exI[of _ c'] exI[of _ L'] exI[of _ "RArray vs"]) (auto simp: rainFallReplyTable_def)
qed

end

context rain_typename
begin

lemma reply_leaf_ok:
  assumes "stk L = xs @ [v]" "sink_ok env c" "showable d2s k (tbl L) v" "\<And>r. v \<noteq> LTab r"
  shows "replied_ok stk tbl d2s fname env c L v (rainFallReplyFromLua (Suc fuel) d2s env api c L)"
proof -
  note t = type[OF assms(1)]
  show ?thesis
  proof (cases v)
    case LNil
    then show ?thesis using t addReplyNull_out[OF assms(2)] shown_nil[of d2s fname "tbl L" "cl_resp c"]
      unfolding replied_ok_def
      by (intro exI[of _ "addReplyNull env c"] exI[of _ L] exI[of _ "if cl_resp c = 2 then RNullBulk else RNull"]) auto
  next
    case (LBool b)
    have "dec_int 0 = ''0''" "dec_int 1 = ''1''" by code_simp+
    then show ?thesis using t LBool addReplyBool_out[OF assms(2), of b] toboolean[OF assms(1)[unfolded LBool]]
        shown_bool[of d2s fname "tbl L" "cl_resp c" b] unfolding replied_ok_def
      by (intro exI[of _ "addReplyBool env c b"] exI[of _ L]
          exI[of _ "if cl_resp c = 2 then RInt (if b then 1 else 0) else RBool b"]) auto
  next
    case (LInt i)
    then show ?thesis using t assms(3) addReplyLongLong_out[OF assms(2), of i] tointegerx[OF assms(1)[unfolded LInt]]
        isinteger[OF assms(1)] shown_int[of d2s fname "tbl L" "cl_resp c" i] unfolding replied_ok_def
      by (intro exI[of _ "addReplyLongLong env c i"] exI[of _ L] exI[of _ "RInt i"]) auto
  next
    case (LNum d)
    then show ?thesis using t assms(3) addReplyDouble_out[OF assms(2), of d2s d] tonumber[OF assms(1)[unfolded LNum]]
        isinteger[OF assms(1)] shown_num[of d2s fname "tbl L" "cl_resp c" d] unfolding replied_ok_def
      by (intro exI[of _ "addReplyDouble d2s env c d"] exI[of _ L]
          exI[of _ "if cl_resp c = 3 then RDouble d else RBulk (d2s d)"]) auto
  next
    case (LStr s)
    then have "mq_tolstring api L (- 1) = (Some s, L)" using tolstring[of L xs s "[]"] assms(1) by simp
    then show ?thesis using t LStr assms(3) addReplyBulkCBuffer_out[OF assms(2), of s]
        shown_str[of d2s fname "tbl L" "cl_resp c" s] unfolding replied_ok_def
      by (intro exI[of _ "addReplyBulkCBuffer env c s"] exI[of _ L] exI[of _ "RBulk s"]) auto
  next
    case (LFun f)
    let ?s = "''RAIN.FALL: unsupported Lua return type: '' @ c_str fname"
    have "error_line (sanitize ?s) @ CRLF = encode d2s (RError (type_error fname))"
      using error_line_hd[of "sanitize ?s"] by (simp add: type_error_def)
    then show ?thesis using t LFun addReplyErrorFormat_out[OF assms(2), of ?s] typename[of L]
        shown_fun[of d2s fname "tbl L" "cl_resp c" f] unfolding replied_ok_def
      by (intro exI[of _ "addReplyErrorFormat env c ?s"] exI[of _ L] exI[of _ "RError (type_error fname)"])
        (simp del: encode.simps)
  qed (use assms(4) in simp)
qed

lemma reply_from_lua_ok:
  assumes "stk L = xs @ [v]" "sink_ok env c" "showable d2s k (tbl L) v"
  shows "replied_ok stk tbl d2s fname env c L v (rainFallReplyFromLua (Suc k) d2s env api c L)"
  using assms
proof (induction k arbitrary: L xs v c)
  case 0
  then show ?case by (intro reply_leaf_ok[of L xs]) auto
next
  case (Suc k)
  show ?case
  proof (cases "\<exists>r. v = LTab r")
    case False
    then show ?thesis using Suc.prems by (intro reply_leaf_ok[of L xs]) auto
  next
    case True
    then obtain r where r: "v = LTab r" by blast
    then obtain t where t: "tbl L r = Some t" "\<forall>i. showable d2s k (tbl L) (tget t (KInt i))"
      "\<forall>i. tget t (KInt i) \<noteq> LNil \<longrightarrow> i \<le> LLONG_MAX" using Suc.prems(3) by (auto split: option.splits)
    have "subreply_ok stk tbl d2s fname env (tbl L) (cl_resp c) t (rainFallReplyFromLua (Suc k) d2s env api)"
      unfolding subreply_ok_def by (intro allI impI Suc.IH) (use t(2) in simp_all)
    then have "replied_ok stk tbl d2s fname env c L (LTab r)
        (rainFallReplyTable (rainFallReplyFromLua (Suc k) d2s env api) env api c L)"
      using Suc.prems(1,2) r t(1,3) by (intro reply_table_ok[of d2s env "tbl L" "cl_resp c" t _ L xs r c]) auto
    then show ?thesis using type[OF Suc.prems(1)] r by simp
  qed
qed

text \<open>A table that contains itself at index 1.\<close>

lemma reply_cyclic:
  assumes "stk L = xs @ [LTab r]" "tbl L r = Some t" "tget t (KInt 1) = LTab r"
  shows "rainFallReplyFromLua fuel d2s env api c L = Diverge"
  using assms
proof (induction fuel arbitrary: L xs c)
  case (Suc fuel)
  obtain n where n: "stk (mq_len api L (- 1)) = stk L @ [LInt (int n)]" "tbl (mq_len api L (- 1)) = tbl L"
    "tget t (KInt (int n + 1)) = LNil" using len[OF Suc.prems(1,2)] by blast
  then obtain m where m: "n = Suc m" using Suc.prems(3) by (cases n) auto
  let ?L = "mq_pop api (mq_len api L (- 1)) 1"
  have L: "stk ?L = xs @ [LTab r]" "tbl ?L = tbl L"
    using pop[of 1 "mq_len api L (- 1)"] pop_tbl n(1,2) Suc.prems(1) by auto
  have g: "stk (mq_geti api ?L (- 1) 1) = (xs @ [LTab r]) @ [LTab r]" "tbl (mq_geti api ?L (- 1) 1) = tbl L"
    using geti[OF L(1), of t 1] L Suc.prems(2,3) by auto
  have "rainFallReplyFromLua fuel d2s env api c' (mq_geti api ?L (- 1) 1) = Diverge" for c'
    using Suc.IH[OF g(1)] g(2) Suc.prems(2,3) by simp
  moreover have "nat (1 + int m) = Suc m" by simp
  ultimately show ?case using type[OF Suc.prems(1)] tointegerx[OF n(1)] m by (simp add: rainFallReplyTable_def)
qed simp

end

section \<open>The backend of the running script\<close>

text \<open>While a script runs, its state object stays live with a backend of the same kind: calls
  update it in place, and only the default state is ever closed.\<close>

definition holds_backend :: "('b \<Rightarrow> bool) \<Rightarrow> nat \<Rightarrow> ('b, 'w) rc_state \<Rightarrow> bool" where
  "holds_backend P a s \<longleftrightarrow> (\<exists>b. rc_states s a = Some (Some b) \<and> P b) \<and> rc_default s \<noteq> Some a"

context raincall_backend
begin

lemma get_state_holds:
  assumes "host_inv sz base s" "raincall_get_state ops grant s = (R, s')" "holds_backend P a s"
  shows "holds_backend P a s'"
proof (cases "rc_installed s = None \<and> rc_default s = None")
  case True
  obtain r s1 where o: "raincall_open ops grant (Some ''127.0.0.1'') 6379 s = (r, s1)" by fastforce
  have "ledger_ok sz base s" using assms(1) by (simp add: host_inv_def)
  from open_ok[OF this o] show ?thesis using assms(2,3) True o
    by (auto simp: raincall_get_state_def holds_backend_def split: option.splits)
qed (use assms in \<open>auto simp: raincall_get_state_def split: if_splits\<close>)

lemma call_holds:
  assumes "host_inv sz base s" "rain_call api ops grant L s = Some (L', s', r)" "holds_backend P a s"
    "\<And>b h w argv b' h' w' ret out. P b \<Longrightarrow> bk_call ops b h w argv = Some (b', h', w', ret, out) \<Longrightarrow> P b'"
  shows "holds_backend P a s'"
proof -
  obtain R s1 where g: "raincall_get_state ops grant s = (R, s1)" by fastforce
  have h: "holds_backend P a s1" by (rule get_state_holds[OF assms(1) g assms(3)])
  have "s' = s \<or> rc_default s' = rc_default s1 \<and> (rc_states s' = rc_states s1 \<or>
      (\<exists>q b h w argv b' h' w' ret out. rc_states s1 q = Some (Some b) \<and> bk_call ops b h w argv = Some (b', h', w', ret, out) \<and>
         rc_states s' = (rc_states s1)(q := Some (Some b'))))"
    using assms(2) g unfolding rain_call_def raincall_raise_def raincall_raise_redis_def Let_def
    by (auto split: if_splits option.splits prod.splits; blast)
  then show ?thesis using h assms(3,4) unfolding holds_backend_def by fastforce
qed

lemma connect_holds:
  assumes "host_inv sz base s" "rain_connect api ops grant L s = Some (L', s', r)" "holds_backend P a s"
  shows "holds_backend P a s'"
proof -
  obtain host L1 where t: "mq_tolstring api L 1 = (host, L1)" by fastforce
  obtain port isnum where p: "mq_tointegerx api L1 2 = (port, isnum)" by fastforce
  obtain ok h where al: "alloc grant Libc (rc_heap s) = (ok, h)" by fastforce
  obtain R s1 where o: "raincall_open ops grant (Some (c_str (the host))) port (s\<lparr>rc_heap := h\<rparr>) = (R, s1)" by fastforce
  let ?s1 = "s1\<lparr>rc_heap := release Libc (rc_heap s1)\<rparr>"
  have cases: "s' = s \<or> s' = s\<lparr>rc_heap := h\<rparr> \<or> (ok \<and> (s' = ?s1 \<or> (\<exists>q s2. R = Some q \<and>
      raincall_close ops (rc_default ?s1) ?s1 = Some s2 \<and> s' = s2\<lparr>rc_default := Some q, rc_installed := Some q\<rparr>)))"
    using assms(2) o
    by (cases host) (auto simp: rain_connect_def raincall_raise_def t p al Let_def simp del: lower_simps
        split: if_splits option.splits bool.splits prod.splits)
  have "ledger_ok sz (\<lambda>k. base k + (if k = Libc then 1 else 0)) (s\<lparr>rc_heap := h\<rparr>)" if ok
    using assms(1) alloc_live[OF al] that by (auto simp: host_inv_def ledger_ok_def)
  note O = open_ok[OF this o]
  show ?thesis
  proof (cases "s' = s \<or> s' = s\<lparr>rc_heap := h\<rparr>")
    case True
    then show ?thesis using assms(3) by (auto simp: holds_backend_def)
  next
    case False
    then have ok: ok using cases by blast
    have h1: "holds_backend P a ?s1" using O[OF ok] assms(3) by (auto simp: holds_backend_def split: option.splits)
    show ?thesis
    proof (cases "s' = ?s1")
      case False
      then obtain q s2 where q: "R = Some q" "raincall_close ops (rc_default ?s1) ?s1 = Some s2"
        "s' = s2\<lparr>rc_default := Some q, rc_installed := Some q\<rparr>" using cases \<open>\<not> (s' = s \<or> s' = s\<lparr>rc_heap := h\<rparr>)\<close> by blast
      have "q \<noteq> a" using O[OF ok] q(1) assms(3) by (auto simp: holds_backend_def)
      moreover have "rc_states s2 a = rc_states ?s1 a" using q(2) h1
        by (auto simp: raincall_close_def holds_backend_def Let_def split: option.splits prod.splits)
      ultimately show ?thesis using q(3) h1 by (auto simp: holds_backend_def)
    qed (use h1 in simp)
  qed
qed

end

section \<open>The whole command\<close>

definition is_inprocess :: "('r, 'u) any_backend \<Rightarrow> bool" where
  "is_inprocess b = (case b of Tcp t \<Rightarrow> False | Inprocess i \<Rightarrow> True)"

lemma is_inprocess_iff: "is_inprocess b \<longleftrightarrow> (\<exists>i. b = Inprocess i)"
  by (cases b) (auto simp: is_inprocess_def)

text \<open>The invariant of the command's globals between two commands.\<close>

definition rainfall_inv ::
  "(allocator \<Rightarrow> int) \<Rightarrow> ('L, ('r, 'u, 'n, 's) server_host) rainfall \<Rightarrow> bool" where
  "rainfall_inv base G \<longleftrightarrow> host_inv any_size base (rf_host G) \<and>
     (rf_machine G \<noteq> None \<longrightarrow> (\<exists>R. rf_raincall G = Some R \<and> holds_backend is_inprocess R (rf_host G)))"

definition caller_of :: "('L, ('r, 'u, 'n, 's) server_host) rainfall \<Rightarrow> 'u caller option" where
  "caller_of G =
    (case rf_raincall G of None \<Rightarrow> None
     | Some R \<Rightarrow> (case rc_states (rf_host G) R of Some (Some (Inprocess b)) \<Rightarrow> ib_caller b | _ \<Rightarrow> None))"

lemma set_caller_ok:
  assumes "rainfall_inv base G" "rf_machine G = Some L"
  shows "\<exists>G'. set_caller caller G = Some G' \<and> rainfall_inv base G' \<and> caller_of G' = caller \<and>
    rf_machine G' = Some L \<and> rf_raincall G' = rf_raincall G"
proof -
  obtain R i where R: "rf_raincall G = Some R" "rc_states (rf_host G) R = Some (Some (Inprocess i))" "rc_default (rf_host G) \<noteq> Some R"
    using assms unfolding rainfall_inv_def holds_backend_def is_inprocess_iff by auto
  let ?i = "raincall_inprocess_backend_set_caller i caller"
  let ?s = "(rf_host G)\<lparr>rc_states := (rc_states (rf_host G))(R := Some (Some (Inprocess ?i)))\<rparr>"
  have "?s = (rf_host G)\<lparr>rc_heap := rc_heap (rf_host G), rc_world := rc_world (rf_host G),
      rc_states := (rc_states (rf_host G))(R := Some (Some (Inprocess ?i)))\<rparr>" by simp
  moreover have "ledger_ok any_size base \<dots>"
    using assms(1) R(2) by (intro ledger_update) (auto simp: rainfall_inv_def host_inv_def state_blocks_def any_size_def)
  ultimately have "ledger_ok any_size base ?s" by simp
  moreover have "live_ptr ?s p" if "live_ptr (rf_host G) p" for p
    using that by (auto simp: live_ptr_def split: option.splits)
  ultimately have "host_inv any_size base ?s" using assms(1) by (auto simp: rainfall_inv_def host_inv_def)
  moreover have "holds_backend is_inprocess R ?s" using R(3) by (simp add: holds_backend_def is_inprocess_def)
  ultimately show ?thesis using R assms(2)
    by (auto simp: set_caller_def rainfall_inv_def caller_of_def raincall_inprocess_backend_set_caller_def)
qed

lemma new_state_ok:
  fixes s :: "('r, 'u, 'n, 's) server_host"
  assumes "\<forall>n. zgrant n" "\<forall>n. grant n" "host_inv any_size base s"
  shows "\<exists>b h R s'. raincall_inprocess_backend_new zgrant (rc_heap s) = (Some b, h) \<and>
    raincall_open_backend grant (Some (Inprocess b)) (s\<lparr>rc_heap := h\<rparr>) = (Some R, s') \<and>
    host_inv any_size base s' \<and> holds_backend is_inprocess R s' \<and> live_ptr s' (Some R)"
proof -
  obtain h where h: "alloc zgrant Zmalloc (rc_heap s) = (True, h)" "raised Zmalloc 1 (rc_heap s) h"
    using alloc_granted[OF assms(1)] .
  obtain h2 where h2: "alloc grant Libc h = (True, h2)" "raised Libc 1 h h2" using alloc_granted[OF assms(2)] .
  let ?b = "\<lparr>ib_caller = None, ib_error = []\<rparr> :: 'u raincall_InprocessBackend"
  obtain R s' where n: "new_state (Some (Inprocess ?b)) (s\<lparr>rc_heap := h2, rc_world := rc_world s\<rparr>) = (R, s')" by fastforce
  have l: "ledger_ok any_size base s" using assms(3) by (simp add: host_inv_def)
  have "hp_live h2 k = hp_live (rc_heap s) k + state_blocks any_size (Some (Some (Inprocess ?b))) k" for k
    using raised_live[OF h(2)] raised_live[OF h2(2)] by (cases k) (auto simp: state_blocks_def any_size_def)
  note N = ledger_new_state[OF l this n]
  have "host_inv any_size base s'" using N assms(3) by (auto simp: host_inv_def live_ptr_def split: option.splits)
  moreover have "rc_default s \<noteq> Some R" using N assms(3) by (auto simp: host_inv_def)
  then have "holds_backend is_inprocess R s'" using N by (simp add: holds_backend_def is_inprocess_def)
  ultimately show ?thesis using h(1) h2(1) n N
    by (auto simp: raincall_inprocess_backend_new_def raincall_open_backend_def)
qed

lemma get_machine_ok:
  assumes "rainfall_inv base G" "\<forall>n. zgrant n" "rf_machine G = None \<longrightarrow> (\<forall>n. grant n)"
    "rainFallGetState api m zgrant grant G = (res, G')"
  shows "rainfall_inv base G' \<and> (case res of None \<Rightarrow> G' = G \<and> rf_machine G = None | Some L \<Rightarrow> rf_machine G' = Some L) \<and>
    (rf_machine G \<noteq> None \<longrightarrow> G' = G)"
proof (cases "rf_machine G")
  case None
  show ?thesis
  proof (cases "mq_newstate m")
    case (Some L)
    obtain b h R s' where n: "raincall_inprocess_backend_new zgrant (rc_heap (rf_host G)) = (Some b, h)"
      "raincall_open_backend grant (Some (Inprocess b)) ((rf_host G)\<lparr>rc_heap := h\<rparr>) = (Some R, s')"
      "host_inv any_size base s'" "holds_backend is_inprocess R s'" "live_ptr s' (Some R)"
      using new_state_ok[of zgrant grant base "rf_host G"] assms None by (auto simp: rainfall_inv_def)
    obtain L1 s1 r where i: "raincall_install_state api L (Some R) s' = (L1, s1, r)" by (metis prod_cases3)
    have "host_inv any_size base s1" "holds_backend is_inprocess R s1"
      using i n(3-5) by (auto simp: raincall_install_state_def host_inv_def holds_backend_def Let_def)
    then show ?thesis using assms(4) None Some n(1,2) i by (auto simp: rainFallGetState_def rainfall_inv_def)
  qed (use assms None in \<open>auto simp: rainFallGetState_def\<close>)
next
  case (Some L)
  then have "res = Some L" "G' = G" using assms(4) by (simp_all add: rainFallGetState_def)
  then show ?thesis using assms(1) Some by simp
qed

text \<open>What the code relies on of loading and running: both leave one value above the stack they
  found, reading the error message may convert it in place, and a running script changes the
  host only by calling into it.\<close>

locale rain_machine = rain_typename api stk tbl fname + rain_server hapi senv d2s strtod
  for api :: "('L, 'd::ring_1) mq_api" and stk :: "'L \<Rightarrow> 'd lval list" and tbl :: "'L \<Rightarrow> nat \<Rightarrow> 'd ltable option"
    and fname :: string and hapi :: "('r, 'n, 'd) hiredis_api" and senv :: "('u, 's) server_env"
    and d2s :: "'d \<Rightarrow> string" and strtod :: "string \<Rightarrow> 'd" +
  fixes m :: "('L, ('r, 'u, 'n, 's) server_host) lua_machine" and grant :: "nat \<Rightarrow> bool"
    and mem :: "(unit, 'd) CallReply"
  assumes load_ok: "mq_load m L f rd = (ok, L') \<Longrightarrow> \<exists>v. stk L' = stk L @ [v]"
    and pcall_stack: "mq_pcall m L (length args) s = (ok, L', s') \<Longrightarrow> stk L = xs @ g # args \<Longrightarrow>
      \<exists>v. stk L' = xs @ [v]"
    and pcall_steps: "mq_pcall m L n s = (ok, L', s') \<Longrightarrow>
      (host_step api (server_ops hapi senv strtod mem grant) grant)\<^sup>*\<^sup>* (L, s) (L', s')"
    and tolstring_top: "mq_tolstring api L (- 1) = (r, L') \<Longrightarrow> stk L = xs @ [v] \<Longrightarrow> \<exists>v'. stk L' = xs @ [v']"

sublocale rain_machine \<subseteq> raincall_host api stk tbl "server_ops hapi senv strtod mem grant" any_size
  by unfold_locales

context rain_machine
begin

lemma call_kind:
  "is_inprocess b \<Longrightarrow> bk_call (server_ops hapi senv strtod mem grant) b h w argv = Some (b', h', w', ret, out) \<Longrightarrow> is_inprocess b'"
  by (cases w) (auto simp: is_inprocess_iff server_ops_def)

lemma step_holds:
  assumes "host_step api (server_ops hapi senv strtod mem grant) grant p q" "host_inv any_size base (snd p)"
    "holds_backend is_inprocess a (snd p)"
  shows "holds_backend is_inprocess a (snd q)"
  using assms
proof (induction rule: host_step.induct)
  case (call L s L' s' r)
  have "holds_backend is_inprocess a s'"
    by (rule server.call_holds[OF call(2)[unfolded snd_conv] call(1) call(3)[unfolded snd_conv]]) (rule call_kind)
  then show ?case by simp
next
  case (connect L s L' s' r)
  have "holds_backend is_inprocess a s'"
    by (rule server.connect_holds[OF connect(2)[unfolded snd_conv] connect(1) connect(3)[unfolded snd_conv]])
  then show ?case by simp
qed (auto simp: raincall_install_def raincall_install_state_def holds_backend_def)

lemma reach_holds:
  assumes "(host_step api (server_ops hapi senv strtod mem grant) grant)\<^sup>*\<^sup>* p q" "host_inv any_size base (snd p)"
    "holds_backend is_inprocess a (snd p)"
  shows "holds_backend is_inprocess a (snd q)"
  using assms(1)
proof (induction rule: rtranclp_induct)
  case (step y z)
  have "host_inv any_size base (snd y)" by (rule reach_inv[OF step.hyps(1) assms(2)])
  then show ?case using step_holds[OF step.hyps(2)] step.IH by simp
qed (rule assms(3))

lemma pushes_stack: "stk (fold (\<lambda>a L. mq_pushlstring api L a) as L) = stk L @ map LStr as"
  by (induction as arbitrary: L) (simp_all add: pushlstring)

text \<open>What holds at the end of the command: one reply was written, the globals are in order, the
  caller is forgotten and the stack is as it was.\<close>

definition command_done where
  "command_done base nenv c xs res \<longleftrightarrow> (\<exists>c' G' L' v. res = Done (c', G') \<and> rainfall_inv base G' \<and>
     client_output c' = client_output c @ encode d2s v \<and> sink_ok nenv c' \<and> caller_of G' = None \<and>
     rf_machine G' = Some L' \<and> stk L' = xs)"

lemma restore_done:
  assumes "rainfall_inv base G" "rf_machine G \<noteq> None" "stk L = xs @ ys" "sink_ok nenv c'"
    "client_output c' = client_output c @ encode d2s v"
  shows "command_done base nenv c xs (restore api (int (length xs)) c' L G)"
proof -
  let ?L = "mq_settop api L (int (length xs))"
  have "rainfall_inv base (G\<lparr>rf_machine := Some ?L\<rparr>)" using assms(1,2) by (auto simp: rainfall_inv_def)
  from set_caller_ok[OF this, of ?L None] obtain G' where
    "set_caller None (G\<lparr>rf_machine := Some ?L\<rparr>) = Some G'" "rainfall_inv base G'" "caller_of G' = None"
    "rf_machine G' = Some ?L" by auto
  moreover have "stk ?L = xs" using settop[of "length xs" L] assms(3) by simp
  ultimately show ?thesis unfolding command_done_def restore_def using assms(4,5) by auto
qed

end

text \<open>What running the script returns, if the command gets that far.\<close>

definition script_outcome ::
  "('L, 'd) mq_api \<Rightarrow> ('L, ('r, 'u, 'n, 's) server_host) lua_machine \<Rightarrow> (nat \<Rightarrow> bool) \<Rightarrow> (nat \<Rightarrow> bool) \<Rightarrow> 'u caller \<Rightarrow>
   string list \<Rightarrow> ('L, ('r, 'u, 'n, 's) server_host) rainfall \<Rightarrow> (bool \<times> 'L \<times> ('r, 'u, 'n, 's) server_host) option" where
  "script_outcome api m zgrant grant caller argv G =
    (case rainFallGetState api m zgrant grant G of
       (None, G) \<Rightarrow> None
     | (Some L, G) \<Rightarrow>
         (case set_caller (Some caller) G of
            None \<Rightarrow> None
          | Some G \<Rightarrow>
              (case mq_load m L rainFallReadChunk \<lparr>rd_source = argv ! 1, rd_done = False\<rparr> of
                 (False, L) \<Rightarrow> None
               | (True, L) \<Rightarrow> Some (mq_pcall m (fold (\<lambda>a L. mq_pushlstring api L a) (drop 2 argv) L)
                   (length argv - 2) (rf_host G)))))"

context rain_machine
begin

lemma run_done:
  assumes "rainfall_inv base G" "rf_machine G = Some L0" "sink_ok nenv c" "stk L = xs @ g # map LStr as"
    "mq_pcall m L (length as) (rf_host G) = (ok, L', s')"
    "\<And>v. ok \<Longrightarrow> stk L' = xs @ [v] \<Longrightarrow> showable d2s k (tbl L') v"
  shows "command_done base nenv c xs
    (if ok then run_bind (rainFallReplyFromLua (Suc k) d2s nenv api c L')
        (\<lambda>(c, L). restore api (int (length xs)) c L (G\<lparr>rf_host := s'\<rparr>))
     else (case mq_tolstring api L' (- 1) of (err, L) \<Rightarrow>
       restore api (int (length xs))
         (case err of Some err \<Rightarrow> addReplyErrorFormat nenv c (''RAIN.FALL: '' @ c_str err)
          | None \<Rightarrow> addReplyError nenv c ''RAIN.FALL: Lua error'') L (G\<lparr>rf_host := s'\<rparr>)))"
proof -
  obtain v where v: "stk L' = xs @ [v]"
    using pcall_stack[of L "map LStr as" "rf_host G" ok L' s' xs g] assms(4,5) by auto
  note st = pcall_steps[OF assms(5)]
  have inv: "rainfall_inv base (G\<lparr>rf_host := s'\<rparr>)"
    using reach_inv[OF st, of base] reach_holds[OF st, of base] assms(1,2) by (auto simp: rainfall_inv_def)
  have m: "rf_machine (G\<lparr>rf_host := s'\<rparr>) \<noteq> None" using assms(2) by simp
  show ?thesis
  proof (cases ok)
    case True
    obtain c' L1 r where R: "rainFallReplyFromLua (Suc k) d2s nenv api c L' = Done (c', L1)" "stk L1 = stk L'"
      "client_output c' = client_output c @ encode d2s r" "sink_ok nenv c'"
      using reply_from_lua_ok[OF v assms(3) assms(6)[OF True v]] unfolding replied_ok_def by blast
    show ?thesis using R(1) True restore_done[OF inv m, of L1 xs "[v]", OF _ R(4,3)] R(2) v
      by (simp del: rainFallReplyFromLua.simps)
  next
    case False
    obtain err L1 where t: "mq_tolstring api L' (- 1) = (err, L1)" by fastforce
    obtain v' where v': "stk L1 = xs @ [v']" using tolstring_top[OF t v] by blast
    have e: "\<exists>r. client_output c @ error_line s @ CRLF = client_output c @ encode d2s r" for s
      using error_line_hd[of s] by (intro exI[of _ "RError (tl (error_line s))"]) simp
    have "\<exists>r. client_output (case err of Some err \<Rightarrow> addReplyErrorFormat nenv c (''RAIN.FALL: '' @ c_str err)
          | None \<Rightarrow> addReplyError nenv c ''RAIN.FALL: Lua error'') = client_output c @ encode d2s r"
      "sink_ok nenv (case err of Some err \<Rightarrow> addReplyErrorFormat nenv c (''RAIN.FALL: '' @ c_str err)
          | None \<Rightarrow> addReplyError nenv c ''RAIN.FALL: Lua error'')"
      using addReplyErrorFormat_out[OF assms(3)] addReplyError_out[OF assms(3)] e by (auto split: option.split)
    then show ?thesis using False t restore_done[OF inv m v'] by auto
  qed
qed

lemma command_ok:
  assumes "rainfall_inv base G" "\<forall>n. zgrant n" "rf_machine G = None \<longrightarrow> (\<forall>n. grant n)" "sink_ok nenv c"
    "2 \<le> length argv"
    "\<And>L' s' xs v. script_outcome api m zgrant grant caller argv G = Some (True, L', s') \<Longrightarrow> stk L' = xs @ [v] \<Longrightarrow>
       showable d2s k (tbl L') v"
  shows "\<exists>c' G' v. rainFallCommand d2s nenv api m zgrant grant (Suc k) caller c argv G = Done (c', G') \<and>
    rainfall_inv base G' \<and> client_output c' = client_output c @ encode d2s v \<and> sink_ok nenv c' \<and>
    (rf_machine G' \<noteq> None \<longrightarrow> caller_of G' = None) \<and>
    (\<forall>L. rf_machine G = Some L \<longrightarrow> (\<exists>L'. rf_machine G' = Some L' \<and> stk L' = stk L))"
proof -
  obtain res G1 where g: "rainFallGetState api m zgrant grant G = (res, G1)" by fastforce
  note S = get_machine_ok[OF assms(1-3) g]
  have e: "\<exists>r. error_line s @ CRLF = encode d2s r" for s
    using error_line_hd[of s] by (intro exI[of _ "RError (tl (error_line s))"]) simp
  show ?thesis
  proof (cases res)
    case None
    then show ?thesis using g S addReplyError_out[OF assms(4)] e by (auto simp: rainFallCommand_def)
  next
    case (Some L)
    obtain G2 where G2: "set_caller (Some caller) G1 = Some G2" "rainfall_inv base G2" "rf_machine G2 = Some L"
      using set_caller_ok[of base G1 L "Some caller"] S Some by auto
    obtain ok L1 where l: "mq_load m L rainFallReadChunk \<lparr>rd_source = argv ! 1, rd_done = False\<rparr> = (ok, L1)" by fastforce
    obtain f where f: "stk L1 = stk L @ [f]" using load_ok[OF l] by blast
    have done_ok: "command_done base nenv c (stk L) (rainFallCommand d2s nenv api m zgrant grant (Suc k) caller c argv G)"
    proof (cases ok)
      case False
      obtain r where "client_output (addReplyError nenv c ''RAIN.FALL: failed to load source'') = client_output c @ encode d2s r"
        using addReplyError_out[OF assms(4)] e by metis
      from restore_done[OF G2(2) _ f conjunct2[OF addReplyError_out[OF assms(4)]] this]
      show ?thesis using False g Some G2 l by (simp add: rainFallCommand_def gettop Let_def)
    next
      case True
      let ?L = "fold (\<lambda>a L. mq_pushlstring api L a) (drop 2 argv) L1"
      obtain pok L' s' where p: "mq_pcall m ?L (length (drop 2 argv)) (rf_host G2) = (pok, L', s')" by (metis prod_cases3)
      have out: "script_outcome api m zgrant grant caller argv G = Some (pok, L', s')"
        using g Some G2(1) l True p by (simp add: script_outcome_def)
      have "stk ?L = stk L @ f # map LStr (drop 2 argv)" using pushes_stack[of "drop 2 argv" L1] f by simp
      from run_done[OF G2(2,3) assms(4) this p, of k] assms(6) out
      show ?thesis using g Some G2(1) l True p
        by (cases pok) (auto simp: rainFallCommand_def gettop Let_def simp del: rainFallReplyFromLua.simps)
    qed
    then show ?thesis using S Some unfolding command_done_def
      by (auto split: option.splits)
  qed
qed

end

section \<open>A machine for the witnesses\<close>

abbreviation demo_ops where
  "demo_ops \<equiv> server_ops ping_client demo_env (\<lambda>s. 0) (zero_reply ()) (\<lambda>n. True)"

text \<open>Every source that is not empty compiles to the function that passes its arguments to
  \<open>RAIN.CALL\<close>.\<close>

definition demo_pcall ::
  "int machine \<Rightarrow> nat \<Rightarrow> (string, nat, nat, nat) server_host \<Rightarrow> bool \<times> int machine \<times> (string, nat, nat, nat) server_host" where
  "demo_pcall L n s =
    (let below = take (length (m_stack L) - n - 1) (m_stack L);
         args = drop (length (m_stack L) - n) (m_stack L)
     in case rain_call machine_api demo_ops (\<lambda>n. True) (L\<lparr>m_stack := args\<rparr>) s of
          None \<Rightarrow> (False, L\<lparr>m_stack := below @ [LNil]\<rparr>, s)
        | Some (L', s', r) \<Rightarrow> (r = 1, L'\<lparr>m_stack := below @ [last (m_stack L')]\<rparr>, s'))"

definition demo_machine :: "(int machine, (string, nat, nat, nat) server_host) lua_machine" where
  "demo_machine = \<lparr>
     mq_newstate = Some \<lparr>m_stack = [], m_tabs = [], m_globals = []\<rparr>,
     mq_load = (\<lambda>L f rd. (fst (f rd) \<noteq> Some [], m_push L (LFun 2))),
     mq_pcall = demo_pcall\<rparr>"

lemma demo_pcall_steps:
  assumes "demo_pcall L n s = (ok, L', s')"
  shows "(host_step machine_api demo_ops (\<lambda>n. True))\<^sup>*\<^sup>* (L, s) (L', s')"
proof -
  let ?args = "drop (length (m_stack L) - n) (m_stack L)"
  show ?thesis
  proof (cases "rain_call machine_api demo_ops (\<lambda>n. True) (L\<lparr>m_stack := ?args\<rparr>) s")
    case None
    then have "s' = s" using assms by (simp add: demo_pcall_def Let_def)
    then show ?thesis by (auto intro: r_into_rtranclp host_step.script)
  next
    case (Some x)
    obtain L1 s1 r where x: "x = (L1, s1, r)" by (metis prod_cases3)
    have s1: "s' = s1" using assms Some x by (simp add: demo_pcall_def Let_def)
    have "host_step machine_api demo_ops (\<lambda>n. True) (L, s) (L\<lparr>m_stack := ?args\<rparr>, s)" by (rule host_step.script)
    moreover have "host_step machine_api demo_ops (\<lambda>n. True) (L\<lparr>m_stack := ?args\<rparr>, s) (L1, s1)"
      using Some x by (auto intro: host_step.call)
    moreover have "host_step machine_api demo_ops (\<lambda>n. True) (L1, s1) (L', s')" unfolding s1 by (rule host_step.script)
    ultimately show ?thesis by (meson converse_rtranclp_into_rtranclp rtranclp.rtrancl_refl)
  qed
qed

interpretation demo_machine: rain_machine machine_api m_stack m_tbl "''function''" ping_client demo_env dec_int
  "\<lambda>s. 0" demo_machine "\<lambda>n. True" "zero_reply ()"
proof (unfold_locales, goal_cases)
  case (1 L)
  show ?case by (simp add: machine_api_def m_typename_def)
next
  case (2 L f rd ok L')
  then show ?case by (auto simp: demo_machine_def)
next
  case (3 L args s ok L' s' xs g)
  then show ?case by (auto simp: demo_machine_def demo_pcall_def Let_def split: option.splits prod.splits)
next
  case (4 L n s ok L' s')
  then show ?case using demo_pcall_steps by (simp add: demo_machine_def)
next
  case (5 L r L' xs v)
  then show ?case by (cases v) (auto simp: machine_api_def)
qed

definition demo_rainfall :: "(int machine, (string, nat, nat, nat) server_host) rainfall" where
  "demo_rainfall = \<lparr>rf_machine = None, rf_raincall = None, rf_host = host_start (0, 0)\<rparr>"




section \<open>Properties\<close>







text \<open>C28. A failed setup leaks. When the state object cannot be allocated, \<open>rainFallGetState\<close>
  gives up and forgets the in-process backend it has just created: one block stays allocated,
  and the next command starts over.\<close>

theorem failed_setup_leaks_backend:
  assumes "rf_machine G = None" "mq_newstate m \<noteq> None" "zgrant (hp_calls (rc_heap (rf_host G)))"
    "\<not> grant (Suc (hp_calls (rc_heap (rf_host G))))" "rainFallGetState api m zgrant grant G = (res, G')"
  shows "res = None \<and> rf_machine G' = None \<and> rc_states (rf_host G') = rc_states (rf_host G) \<and>
    hp_live (rc_heap (rf_host G')) Zmalloc = hp_live (rc_heap (rf_host G)) Zmalloc + 1"
  using assms by (auto simp: rainFallGetState_def raincall_inprocess_backend_new_def raincall_open_backend_def alloc_def Let_def)

theorem failed_setup_leaks_backend_witness:
  "hp_live (rc_heap (rf_host (snd (rainFallGetState machine_api demo_machine (\<lambda>n. True) (\<lambda>n. False) demo_rainfall)))) Zmalloc = 1"
proof -
  obtain res G' where g: "rainFallGetState machine_api demo_machine (\<lambda>n. True) (\<lambda>n. False) demo_rainfall = (res, G')" by fastforce
  show ?thesis using failed_setup_leaks_backend[OF _ _ _ _ g] g
    by (simp add: demo_rainfall_def demo_machine_def host_start_def empty_heap_def)
qed

end
