(* ===== verification/Dict.thy ===== *)
theory Dict
  imports Prelude "HOL-Library.Monad_Syntax"
begin

text \<open>
  The hash table of \<^verbatim>\<open>src/src/dict.c\<close>: two arrays of chains, moved incrementally from the first
  to the second while the table grows or shrinks. A chain is the list of its entries; the tagged
  pointers that save an allocation for a single key of a dictionary without values are a
  representation of the same list. An absent table is the empty array with exponent \<open>-1\<close>.

  The callbacks \<^verbatim>\<open>rehashingStarted\<close>, \<^verbatim>\<open>rehashingCompleted\<close> and \<^verbatim>\<open>bucketChanged\<close> of the dictionary type are
  recorded in a log in the order of the calls, with the arguments they read, and the owner of the
  dictionary runs them. A failing \<^verbatim>\<open>assert\<close> and a read outside a table have no result, so that
  every operation returns an option.
\<close>

unbundle bit_operations_syntax

section \<open>Types\<close>

datatype dictResizeEnable = DICT_RESIZE_ENABLE | DICT_RESIZE_AVOID | DICT_RESIZE_FORBID

datatype dictEvent = RehashingStarted nat | RehashingCompleted nat | BucketChanged int

record 'k dictType =
  hashFunction :: "'k \<Rightarrow> u64"
  resizeAllowed :: "(nat \<Rightarrow> nat \<Rightarrow> nat \<Rightarrow> bool) option"
  force_full_rehash :: bool

record ('k, 'v) htable =
  ht_table :: "('k \<times> 'v) list list"
  ht_used :: nat
  ht_size_exp :: int

record ('k, 'v) dict =
  ht0 :: "('k, 'v) htable"
  ht1 :: "('k, 'v) htable"
  rehashidx :: int
  pauserehash :: nat
  pauseAutoResize :: int
  d_log :: "dictEvent list"

text \<open>\<^verbatim>\<open>dictEntry **\<close>: the table, the bucket and the position in its chain; and a bucket.\<close>

type_synonym link = "nat \<times> nat \<times> nat"
type_synonym bucket_link = "nat \<times> nat"

abbreviation dict_force_resize_ratio :: nat where "dict_force_resize_ratio \<equiv> 4"
abbreviation HASHTABLE_MIN_FILL :: nat where "HASHTABLE_MIN_FILL \<equiv> 8"
abbreviation DICT_HT_INITIAL_EXP :: int where "DICT_HT_INITIAL_EXP \<equiv> 2"
abbreviation DICT_HT_INITIAL_SIZE :: nat where "DICT_HT_INITIAL_SIZE \<equiv> 4"

definition DICTHT_SIZE :: "int \<Rightarrow> nat" where
  "DICTHT_SIZE e = (if e = - 1 then 0 else 2 ^ nat e)"

definition DICTHT_SIZE_MASK :: "int \<Rightarrow> nat" where
  "DICTHT_SIZE_MASK e = (if e = - 1 then 0 else DICTHT_SIZE e - 1)"

text \<open>\<^verbatim>\<open>h & DICTHT_SIZE_MASK(e)\<close>.\<close>

definition masked :: "u64 \<Rightarrow> int \<Rightarrow> nat" where
  "masked h e = unat (h AND of_nat (DICTHT_SIZE_MASK e))"

definition ht :: "('k, 'v) dict \<Rightarrow> nat \<Rightarrow> ('k, 'v) htable" where
  "ht d t = (if t = 0 then ht0 d else ht1 d)"

definition upd_ht :: "nat \<Rightarrow> (('k, 'v) htable \<Rightarrow> ('k, 'v) htable) \<Rightarrow> ('k, 'v) dict \<Rightarrow> ('k, 'v) dict" where
  "upd_ht t f d = (if t = 0 then d\<lparr>ht0 := f (ht0 d)\<rparr> else d\<lparr>ht1 := f (ht1 d)\<rparr>)"

definition dictBuckets :: "('k, 'v) dict \<Rightarrow> nat" where
  "dictBuckets d = DICTHT_SIZE (ht_size_exp (ht0 d)) + DICTHT_SIZE (ht_size_exp (ht1 d))"

definition dictSize :: "('k, 'v) dict \<Rightarrow> nat" where
  "dictSize d = ht_used (ht0 d) + ht_used (ht1 d)"

definition dictIsRehashing :: "('k, 'v) dict \<Rightarrow> bool" where
  "dictIsRehashing d \<longleftrightarrow> rehashidx d \<noteq> - 1"

definition dictIsRehashingPaused :: "('k, 'v) dict \<Rightarrow> bool" where
  "dictIsRehashingPaused d \<longleftrightarrow> 0 < pauserehash d"

definition emit :: "dictEvent \<Rightarrow> ('k, 'v) dict \<Rightarrow> ('k, 'v) dict" where
  "emit e d = d\<lparr>d_log := d_log d @ [e]\<rparr>"

section \<open>Creation and resizing\<close>

definition dictReset :: "('k, 'v) htable" where
  "dictReset = \<lparr>ht_table = [], ht_used = 0, ht_size_exp = - 1\<rparr>"

definition dictCreate :: "('k, 'v) dict" where
  "dictCreate = \<lparr>ht0 = dictReset, ht1 = dictReset, rehashidx = - 1, pauserehash = 0, pauseAutoResize = 0, d_log = []\<rparr>"

text \<open>\<^verbatim>\<open>__builtin_clzl\<close> of a 64 bit number, through its length in bits.\<close>

fun bit_length :: "nat \<Rightarrow> nat" where
  "bit_length n = (if n = 0 then 0 else Suc (bit_length (n div 2)))"

declare bit_length.simps [simp del]

definition clzl :: "nat \<Rightarrow> nat" where
  "clzl n = 64 - bit_length n"

definition dictNextExp :: "nat \<Rightarrow> int" where
  "dictNextExp sz =
    (if sz \<le> DICT_HT_INITIAL_SIZE then DICT_HT_INITIAL_EXP
     else if LLONG_MAX \<le> int sz then 63
     else int (64 - clzl (sz - 1)))"

text \<open>The loop of \<^verbatim>\<open>rehashEntriesInBucketAtIndex\<close> pushes each entry of the chain on the front of its new bucket.\<close>

fun move_chain :: "'k dictType \<Rightarrow> nat \<Rightarrow> ('k \<times> 'v) list \<Rightarrow> ('k, 'v) dict \<Rightarrow> ('k, 'v) dict" where
  "move_chain ty idx [] d = d"
| "move_chain ty idx (de # nextde) d =
    (let h = (if ht_size_exp (ht0 d) < ht_size_exp (ht1 d)
              then masked (hashFunction ty (fst de)) (ht_size_exp (ht1 d))
              else masked (of_nat idx) (ht_size_exp (ht1 d)))
     in move_chain ty idx nextde (d\<lparr>
          ht0 := (ht0 d)\<lparr>ht_used := ht_used (ht0 d) - 1\<rparr>,
          ht1 := (ht1 d)\<lparr>ht_table := (ht_table (ht1 d))[h := de # ht_table (ht1 d) ! h],
                         ht_used := ht_used (ht1 d) + 1\<rparr>\<rparr>))"

definition rehashEntriesInBucketAtIndex :: "'k dictType \<Rightarrow> ('k, 'v) dict \<Rightarrow> nat \<Rightarrow> ('k, 'v) dict" where
  "rehashEntriesInBucketAtIndex ty d idx =
    upd_ht 0 (\<lambda>t. t\<lparr>ht_table := (ht_table t)[idx := []]\<rparr>) (move_chain ty idx (ht_table (ht0 d) ! idx) d)"

definition dictCheckRehashingCompleted :: "('k, 'v) dict \<Rightarrow> ('k, 'v) dict \<times> bool" where
  "dictCheckRehashingCompleted d =
    (if ht_used (ht0 d) \<noteq> 0 then (d, False)
     else (let d' = emit (BucketChanged (- int (DICTHT_SIZE (ht_size_exp (ht0 d)))))
                      (emit (RehashingCompleted (DICTHT_SIZE (ht_size_exp (ht0 d)))) d)
           in (d'\<lparr>ht0 := ht1 d, ht1 := dictReset, rehashidx := - 1\<rparr>, True)))"

text \<open>With resizing to be avoided, a rehash in progress only continues beyond these ratios.\<close>

definition rehash_avoided :: "dictResizeEnable \<Rightarrow> ('k, 'v) dict \<Rightarrow> bool" where
  "rehash_avoided rs d =
    (let s0 = DICTHT_SIZE (ht_size_exp (ht0 d)); s1 = DICTHT_SIZE (ht_size_exp (ht1 d)) in
     rs = DICT_RESIZE_AVOID \<and>
     (s0 < s1 \<and> s1 < dict_force_resize_ratio * s0 \<or>
      s1 < s0 \<and> s0 < HASHTABLE_MIN_FILL * dict_force_resize_ratio * s1))"

text \<open>The inner loop of \<^verbatim>\<open>dictRehash\<close> skips empty buckets. It ends at a bucket with entries, or
  (\<^term>\<open>Inl\<close>) when the budget of visits is used up.\<close>

function skip_empty :: "'a list list \<Rightarrow> nat \<Rightarrow> int \<Rightarrow> (nat + nat \<times> int) option" where
  "skip_empty table idx empty_visits =
    (if length table \<le> idx then None
     else if table ! idx = []
     then if empty_visits - 1 = 0 then Some (Inl (Suc idx)) else skip_empty table (Suc idx) (empty_visits - 1)
     else Some (Inr (idx, empty_visits)))"
  by pat_completeness auto
termination
  by (relation "measure (\<lambda>(table, idx, _). length table - idx)") auto

declare skip_empty.simps [simp del]

fun rehash_steps :: "'k dictType \<Rightarrow> nat \<Rightarrow> int \<Rightarrow> ('k, 'v) dict \<Rightarrow> (('k, 'v) dict + ('k, 'v) dict) option" where
  "rehash_steps ty 0 empty_visits d = Some (Inr d)"
| "rehash_steps ty (Suc n) empty_visits d =
    (if ht_used (ht0 d) = 0 then Some (Inr d)
     else if int (DICTHT_SIZE (ht_size_exp (ht0 d))) \<le> rehashidx d then None
     else (case skip_empty (ht_table (ht0 d)) (nat (rehashidx d)) empty_visits of
         None \<Rightarrow> None
       | Some (Inl idx) \<Rightarrow> Some (Inl (d\<lparr>rehashidx := int idx\<rparr>))
       | Some (Inr (idx, empty_visits')) \<Rightarrow>
           rehash_steps ty n empty_visits' ((rehashEntriesInBucketAtIndex ty d idx)\<lparr>rehashidx := int idx + 1\<rparr>)))"

definition dictRehash :: "'k dictType \<Rightarrow> dictResizeEnable \<Rightarrow> ('k, 'v) dict \<Rightarrow> nat \<Rightarrow> (('k, 'v) dict \<times> bool) option" where
  "dictRehash ty rs d n =
    (if rs = DICT_RESIZE_FORBID \<or> \<not> dictIsRehashing d then Some (d, False)
     else if rehash_avoided rs d then Some (d, False)
     else (case rehash_steps ty n (int n * 10) d of
         None \<Rightarrow> None
       | Some (Inl d') \<Rightarrow> Some (d', True)
       | Some (Inr d') \<Rightarrow> (case dictCheckRehashingCompleted d' of (d'', completed) \<Rightarrow> Some (d'', \<not> completed))))"

definition dictRehashStep :: "'k dictType \<Rightarrow> dictResizeEnable \<Rightarrow> ('k, 'v) dict \<Rightarrow> ('k, 'v) dict option" where
  "dictRehashStep ty rs d = (if pauserehash d = 0 then map_option fst (dictRehash ty rs d 1) else Some d)"

definition dictBucketRehash :: "'k dictType \<Rightarrow> dictResizeEnable \<Rightarrow> ('k, 'v) dict \<Rightarrow> nat \<Rightarrow> ('k, 'v) dict \<times> bool" where
  "dictBucketRehash ty rs d idx =
    (if pauserehash d \<noteq> 0 then (d, False)
     else if rs = DICT_RESIZE_FORBID \<or> \<not> dictIsRehashing d then (d, False)
     else if rehash_avoided rs d then (d, False)
     else (fst (dictCheckRehashingCompleted (rehashEntriesInBucketAtIndex ty d idx)), True))"

text \<open>Rehashing makes progress: a call that leaves work has advanced the index inside the old table.\<close>

lemma move_chain_frame [simp]:
  "ht_size_exp (ht0 (move_chain ty idx c d)) = ht_size_exp (ht0 d)"
  "ht_size_exp (ht1 (move_chain ty idx c d)) = ht_size_exp (ht1 d)"
  "ht_table (ht0 (move_chain ty idx c d)) = ht_table (ht0 d)"
  "rehashidx (move_chain ty idx c d) = rehashidx d"
  "pauserehash (move_chain ty idx c d) = pauserehash d"
  "pauseAutoResize (move_chain ty idx c d) = pauseAutoResize d"
  "d_log (move_chain ty idx c d) = d_log d"
  by (induction c arbitrary: d) (simp_all add: Let_def)

lemma rehashEntries_frame [simp]:
  "ht_size_exp (ht0 (rehashEntriesInBucketAtIndex ty d idx)) = ht_size_exp (ht0 d)"
  "ht_size_exp (ht1 (rehashEntriesInBucketAtIndex ty d idx)) = ht_size_exp (ht1 d)"
  "ht_table (ht0 (rehashEntriesInBucketAtIndex ty d idx)) = (ht_table (ht0 d))[idx := []]"
  "ht_used (ht0 (rehashEntriesInBucketAtIndex ty d idx)) = ht_used (ht0 (move_chain ty idx (ht_table (ht0 d) ! idx) d))"
  "ht1 (rehashEntriesInBucketAtIndex ty d idx) = ht1 (move_chain ty idx (ht_table (ht0 d) ! idx) d)"
  "rehashidx (rehashEntriesInBucketAtIndex ty d idx) = rehashidx d"
  "pauserehash (rehashEntriesInBucketAtIndex ty d idx) = pauserehash d"
  "pauseAutoResize (rehashEntriesInBucketAtIndex ty d idx) = pauseAutoResize d"
  "d_log (rehashEntriesInBucketAtIndex ty d idx) = d_log d"
  by (simp_all add: rehashEntriesInBucketAtIndex_def upd_ht_def)

lemma skip_empty_bounds:
  "skip_empty table idx ev = Some r \<Longrightarrow> (case r of Inl i \<Rightarrow> idx < i \<and> i \<le> length table | Inr (i, _) \<Rightarrow> idx \<le> i \<and> i < length table)"
proof (induction table idx ev rule: skip_empty.induct)
  case (1 table idx ev)
  then show ?case
    by (subst (asm) skip_empty.simps) (fastforce split: if_splits sum.splits)
qed

definition rehash_left :: "('k, 'v) dict \<Rightarrow> nat" where
  "rehash_left d = nat (int (DICTHT_SIZE (ht_size_exp (ht0 d))) - rehashidx d)"

lemma rehash_steps_progress:
  "rehash_steps ty n ev d = Some r \<Longrightarrow> (case r of Inl d' \<Rightarrow> d' | Inr d' \<Rightarrow> d') = d' \<Longrightarrow>
    ht_size_exp (ht0 d') = ht_size_exp (ht0 d) \<and> rehashidx d \<le> rehashidx d' \<and>
    (0 < n \<and> ht_used (ht0 d) \<noteq> 0 \<longrightarrow> rehash_left d' < rehash_left d)"
proof (induction n arbitrary: ev d r)
  case 0
  then show ?case by auto
next
  case (Suc n)
  show ?case
  proof (cases "ht_used (ht0 d) = 0")
    case True
    then show ?thesis using Suc.prems by auto
  next
    case False
    then have lt: "rehashidx d < int (DICTHT_SIZE (ht_size_exp (ht0 d)))"
      using Suc.prems(1) by (auto split: if_splits)
    then obtain s where s: "skip_empty (ht_table (ht0 d)) (nat (rehashidx d)) ev = Some s"
      using Suc.prems(1) False by (auto split: option.splits)
    note b = skip_empty_bounds[OF s]
    show ?thesis
    proof (cases s)
      case (Inl i)
      then show ?thesis using Suc.prems s b lt False by (auto simp: rehash_left_def)
    next
      case (Inr p)
      obtain i ev' where p: "p = (i, ev')" by fastforce
      let ?d = "(rehashEntriesInBucketAtIndex ty d i)\<lparr>rehashidx := int i + 1\<rparr>"
      have run: "rehash_steps ty n ev' ?d = Some r" using Suc.prems(1) s Inr p lt False by auto
      from Suc.IH[OF this Suc.prems(2)] have "ht_size_exp (ht0 d') = ht_size_exp (ht0 d)" "int i + 1 \<le> rehashidx d'"
        by auto
      then show ?thesis using b Inr p lt by (auto simp: rehash_left_def)
    qed
  qed
qed

lemma dictRehash_progress:
  assumes "dictRehash ty rs d n = Some (d', True)" "0 < n"
  shows "rehash_left d' < rehash_left d"
proof -
  from assms(1) obtain r where r: "rehash_steps ty n (int n * 10) d = Some r"
    by (auto simp: dictRehash_def split: if_splits option.splits)
  have used: "ht_used (ht0 d) \<noteq> 0"
    using assms r by (cases n) (auto simp: dictRehash_def dictCheckRehashingCompleted_def split: if_splits sum.splits)
  have "(case r of Inl d' \<Rightarrow> d' | Inr d' \<Rightarrow> d') = d'"
    using assms(1) r by (auto simp: dictRehash_def dictCheckRehashingCompleted_def Let_def split: if_splits sum.splits)
  then show ?thesis using rehash_steps_progress[OF r] used assms(2) by blast
qed

text \<open>\<^verbatim>\<open>while (dictRehash(d, 1000))\<close>.\<close>

function rehash_all :: "'k dictType \<Rightarrow> dictResizeEnable \<Rightarrow> ('k, 'v) dict \<Rightarrow> ('k, 'v) dict option" where
  "rehash_all ty rs d = (case dictRehash ty rs d 1000 of
      None \<Rightarrow> None
    | Some (d', again) \<Rightarrow> if again then rehash_all ty rs d' else Some d')"
  by pat_completeness auto
termination
  by (relation "measure (\<lambda>(_, _, d). rehash_left d)") (auto dest: dictRehash_progress)

declare rehash_all.simps [simp del]

text \<open>\<^verbatim>\<open>_dictResize\<close>. The last argument is \<^term>\<open>None\<close> for a NULL \<^verbatim>\<open>malloc_failed\<close>, and otherwise tells whether
  \<^verbatim>\<open>ztrycalloc\<close> gets the memory. The result has the return value and \<^verbatim>\<open>malloc_failed\<close>.\<close>

definition dictResize :: "'k dictType \<Rightarrow> dictResizeEnable \<Rightarrow> ('k, 'v) dict \<Rightarrow> nat \<Rightarrow> bool option
    \<Rightarrow> (('k, 'v) dict \<times> bool \<times> bool) option" where
  "dictResize ty rs d sz try_alloc =
    (if dictIsRehashing d then None
     else let new_exp = dictNextExp sz; newsize = DICTHT_SIZE new_exp; s0 = DICTHT_SIZE (ht_size_exp (ht0 d)) in
       if newsize < sz \<or> newsize * 8 mod 2 ^ 64 < newsize then Some (d, False, False)
       else if new_exp = ht_size_exp (ht0 d) then Some (d, False, False)
       else if try_alloc = Some False then Some (d, False, True)
       else let new_ht = \<lparr>ht_table = replicate newsize [], ht_used = 0, ht_size_exp = new_exp\<rparr>;
                d1 = emit (BucketChanged (int newsize)) (emit (RehashingStarted s0) (d\<lparr>ht1 := new_ht, rehashidx := 0\<rparr>))
         in if ht_table (ht0 d) = [] \<or> ht_used (ht0 d) = 0
            then Some ((emit (BucketChanged (- int s0)) (emit (RehashingCompleted s0) d1))
                   \<lparr>ht0 := new_ht, ht1 := dictReset, rehashidx := - 1\<rparr>, True, False)
            else if force_full_rehash ty then map_option (\<lambda>d'. (d', True, False)) (rehash_all ty rs d1)
            else Some (d1, True, False))"

definition p_dictExpand :: "'k dictType \<Rightarrow> dictResizeEnable \<Rightarrow> ('k, 'v) dict \<Rightarrow> nat \<Rightarrow> bool option
    \<Rightarrow> (('k, 'v) dict \<times> bool \<times> bool) option" where
  "p_dictExpand ty rs d sz try_alloc =
    (if dictIsRehashing d \<or> sz < ht_used (ht0 d) \<or> sz \<le> DICTHT_SIZE (ht_size_exp (ht0 d)) then Some (d, False, False)
     else dictResize ty rs d sz try_alloc)"

definition dictExpand :: "'k dictType \<Rightarrow> dictResizeEnable \<Rightarrow> ('k, 'v) dict \<Rightarrow> nat \<Rightarrow> (('k, 'v) dict \<times> bool) option" where
  "dictExpand ty rs d sz = map_option (\<lambda>(d', ok, _). (d', ok)) (p_dictExpand ty rs d sz None)"

definition dictTryExpand :: "'k dictType \<Rightarrow> dictResizeEnable \<Rightarrow> ('k, 'v) dict \<Rightarrow> nat \<Rightarrow> bool
    \<Rightarrow> (('k, 'v) dict \<times> bool) option" where
  "dictTryExpand ty rs d sz mem = map_option (\<lambda>(d', _, malloc_failed). (d', \<not> malloc_failed)) (p_dictExpand ty rs d sz (Some mem))"

definition dictShrink :: "'k dictType \<Rightarrow> dictResizeEnable \<Rightarrow> ('k, 'v) dict \<Rightarrow> nat \<Rightarrow> (('k, 'v) dict \<times> bool) option" where
  "dictShrink ty rs d sz =
    (if dictIsRehashing d \<or> sz < ht_used (ht0 d) \<or> DICTHT_SIZE (ht_size_exp (ht0 d)) \<le> sz then Some (d, False)
     else map_option (\<lambda>(d', ok, _). (d', ok)) (dictResize ty rs d sz None))"

definition dictTypeResizeAllowed :: "'k dictType \<Rightarrow> ('k, 'v) dict \<Rightarrow> nat \<Rightarrow> bool" where
  "dictTypeResizeAllowed ty d sz = (case resizeAllowed ty of
      None \<Rightarrow> True
    | Some f \<Rightarrow> f (DICTHT_SIZE (dictNextExp sz) * 8) (ht_used (ht0 d)) (DICTHT_SIZE (ht_size_exp (ht0 d))))"

definition dictExpandIfNeeded :: "'k dictType \<Rightarrow> dictResizeEnable \<Rightarrow> ('k, 'v) dict \<Rightarrow> (('k, 'v) dict \<times> bool) option" where
  "dictExpandIfNeeded ty rs d =
    (let s0 = DICTHT_SIZE (ht_size_exp (ht0 d)); u0 = ht_used (ht0 d) in
     if dictIsRehashing d then Some (d, True)
     else if s0 = 0 then map_option (\<lambda>(d', _). (d', True)) (dictExpand ty rs d DICT_HT_INITIAL_SIZE)
     else if rs = DICT_RESIZE_ENABLE \<and> s0 \<le> u0 \<or> rs \<noteq> DICT_RESIZE_FORBID \<and> dict_force_resize_ratio * s0 \<le> u0
     then if dictTypeResizeAllowed ty d (u0 + 1)
          then map_option (\<lambda>(d', _). (d', True)) (dictExpand ty rs d (u0 + 1)) else Some (d, True)
     else Some (d, False))"

definition p_dictExpandIfNeeded :: "'k dictType \<Rightarrow> dictResizeEnable \<Rightarrow> ('k, 'v) dict \<Rightarrow> (('k, 'v) dict \<times> bool) option" where
  "p_dictExpandIfNeeded ty rs d = (if 0 < pauseAutoResize d then Some (d, False) else dictExpandIfNeeded ty rs d)"

definition dictShrinkIfNeeded :: "'k dictType \<Rightarrow> dictResizeEnable \<Rightarrow> ('k, 'v) dict \<Rightarrow> (('k, 'v) dict \<times> bool) option" where
  "dictShrinkIfNeeded ty rs d =
    (let s0 = DICTHT_SIZE (ht_size_exp (ht0 d)); u0 = ht_used (ht0 d) in
     if dictIsRehashing d then Some (d, True)
     else if s0 \<le> DICT_HT_INITIAL_SIZE then Some (d, True)
     else if rs = DICT_RESIZE_ENABLE \<and> u0 * HASHTABLE_MIN_FILL \<le> s0
       \<or> rs \<noteq> DICT_RESIZE_FORBID \<and> u0 * HASHTABLE_MIN_FILL * dict_force_resize_ratio \<le> s0
     then if dictTypeResizeAllowed ty d u0
          then map_option (\<lambda>(d', _). (d', True)) (dictShrink ty rs d u0) else Some (d, True)
     else Some (d, False))"

definition p_dictShrinkIfNeeded :: "'k dictType \<Rightarrow> dictResizeEnable \<Rightarrow> ('k, 'v) dict \<Rightarrow> ('k, 'v) dict option" where
  "p_dictShrinkIfNeeded ty rs d =
    (if 0 < pauseAutoResize d then Some d else map_option fst (dictShrinkIfNeeded ty rs d))"

definition dictRehashStepIfNeeded :: "'k dictType \<Rightarrow> dictResizeEnable \<Rightarrow> ('k, 'v) dict \<Rightarrow> nat \<Rightarrow> ('k, 'v) dict option" where
  "dictRehashStepIfNeeded ty rs d visitedIdx =
    (if \<not> dictIsRehashing d \<or> pauserehash d \<noteq> 0 then Some d
     else if rehashidx d \<le> int visitedIdx \<and> length (ht_table (ht0 d)) \<le> visitedIdx then None
     else if rehashidx d \<le> int visitedIdx \<and> ht_table (ht0 d) ! visitedIdx \<noteq> []
     then Some (fst (dictBucketRehash ty rs d visitedIdx))
     else map_option fst (dictRehash ty rs d 1))"

section \<open>Lookup\<close>

fun find_pos :: "'k \<Rightarrow> ('k \<times> 'v) list \<Rightarrow> nat option" where
  "find_pos key [] = None"
| "find_pos key (de # rest) = (if key = fst de then Some 0 else map_option Suc (find_pos key rest))"

definition bucket_at :: "('k, 'v) dict \<Rightarrow> bucket_link \<Rightarrow> ('k \<times> 'v) list option" where
  "bucket_at d b = (case b of (t, i) \<Rightarrow>
    if i < length (ht_table (ht d t)) then Some (ht_table (ht d t) ! i) else None)"

definition entry_at :: "('k, 'v) dict \<Rightarrow> link \<Rightarrow> 'k \<times> 'v" where
  "entry_at d l = (case l of (t, i, p) \<Rightarrow> ht_table (ht d t) ! i ! p)"

text \<open>The loop over the tables that the lookups share. The index from before the rehash step decides
  whether the first table is skipped. The result has the link of the key and the last bucket seen.\<close>

fun find_in_tables :: "('k, 'v) dict \<Rightarrow> 'k \<Rightarrow> u64 \<Rightarrow> nat \<Rightarrow> nat list \<Rightarrow> bucket_link option
    \<Rightarrow> (link option \<times> bucket_link option) option" where
  "find_in_tables d key h idx [] bucket = Some (None, bucket)"
| "find_in_tables d key h idx (t # ts) bucket =
    (if t = 0 \<and> int idx < rehashidx d then find_in_tables d key h idx ts bucket
     else let i = masked h (ht_size_exp (ht d t)) in
       (case bucket_at d (t, i) of
          None \<Rightarrow> None
        | Some chain \<Rightarrow> (case find_pos key chain of
              Some p \<Rightarrow> Some (Some (t, i, p), Some (t, i))
            | None \<Rightarrow> find_in_tables d key h i ts (Some (t, i)))))"

definition tables :: "('k, 'v) dict \<Rightarrow> nat list" where
  "tables d = (if dictIsRehashing d then [0, 1] else [0])"

definition dictFindLinkInternal :: "'k dictType \<Rightarrow> dictResizeEnable \<Rightarrow> ('k, 'v) dict \<Rightarrow> 'k \<Rightarrow> bool
    \<Rightarrow> (('k, 'v) dict \<times> link option \<times> bucket_link option) option" where
  "dictFindLinkInternal ty rs d key want_bucket =
    (if \<not> want_bucket \<and> dictSize d = 0 then Some (d, None, None)
     else let h = hashFunction ty key; idx = masked h (ht_size_exp (ht0 d)) in
       do { d' \<leftarrow> dictRehashStepIfNeeded ty rs d idx;
            (l, b) \<leftarrow> find_in_tables d' key h idx (tables d') None;
            Some (d', l, b) })"

definition dictFindLink :: "'k dictType \<Rightarrow> dictResizeEnable \<Rightarrow> ('k, 'v) dict \<Rightarrow> 'k \<Rightarrow> bool
    \<Rightarrow> (('k, 'v) dict \<times> link option \<times> bucket_link option) option" where
  "dictFindLink ty rs d key want_bucket =
    (if dictSize d = 0 then Some (d, None, None) else dictFindLinkInternal ty rs d key want_bucket)"

definition dictFind :: "'k dictType \<Rightarrow> dictResizeEnable \<Rightarrow> ('k, 'v) dict \<Rightarrow> 'k \<Rightarrow> (('k, 'v) dict \<times> ('k \<times> 'v) option) option" where
  "dictFind ty rs d key = do { (d', l, _) \<leftarrow> dictFindLink ty rs d key False; Some (d', map_option (entry_at d') l) }"

definition dictFetchValue :: "'k dictType \<Rightarrow> dictResizeEnable \<Rightarrow> ('k, 'v) dict \<Rightarrow> 'k \<Rightarrow> (('k, 'v) dict \<times> 'v option) option" where
  "dictFetchValue ty rs d key = do { (d', he) \<leftarrow> dictFind ty rs d key; Some (d', map_option snd he) }"

section \<open>Insertion\<close>

definition dictFindLinkForInsert :: "'k dictType \<Rightarrow> dictResizeEnable \<Rightarrow> ('k, 'v) dict \<Rightarrow> 'k
    \<Rightarrow> (('k, 'v) dict \<times> bucket_link option \<times> link option) option" where
  "dictFindLinkForInsert ty rs d key =
    (let h = hashFunction ty key; idx = masked h (ht_size_exp (ht0 d)) in
     do { d1 \<leftarrow> dictRehashStepIfNeeded ty rs d idx;
          (d2, _) \<leftarrow> p_dictExpandIfNeeded ty rs d1;
          (existing, bucket) \<leftarrow> find_in_tables d2 key h idx (tables d2) None;
          Some (d2, if existing = None then bucket else None, existing) })"

definition dictInsertKeyAtLink :: "('k, 'v) dict \<Rightarrow> 'k \<times> 'v \<Rightarrow> bucket_link \<Rightarrow> ('k, 'v) dict option" where
  "dictInsertKeyAtLink d de b = (case b of (t, i) \<Rightarrow>
    let htidx = (if dictIsRehashing d then 1 else 0) in
    if t \<noteq> htidx \<or> DICTHT_SIZE_MASK (ht_size_exp (ht d htidx)) < i then None
    else Some (upd_ht htidx (\<lambda>x. x\<lparr>ht_table := (ht_table x)[i := de # ht_table x ! i], ht_used := ht_used x + 1\<rparr>) d))"

text \<open>\<^verbatim>\<open>dictAddRaw\<close> leaves the value of the new entry to its caller, who supplies it here; the result tells
  whether the key was added and otherwise where it is.\<close>

definition dictAddRaw :: "'k dictType \<Rightarrow> dictResizeEnable \<Rightarrow> ('k, 'v) dict \<Rightarrow> 'k \<Rightarrow> 'v
    \<Rightarrow> (('k, 'v) dict \<times> bool \<times> link option) option" where
  "dictAddRaw ty rs d key val =
    do { (d', position, existing) \<leftarrow> dictFindLinkForInsert ty rs d key;
         case position of
           None \<Rightarrow> Some (d', False, existing)
         | Some b \<Rightarrow> do { d'' \<leftarrow> dictInsertKeyAtLink d' (key, val) b; Some (d'', True, None) } }"

definition dictAdd :: "'k dictType \<Rightarrow> dictResizeEnable \<Rightarrow> ('k, 'v) dict \<Rightarrow> 'k \<Rightarrow> 'v \<Rightarrow> (('k, 'v) dict \<times> bool) option" where
  "dictAdd ty rs d key val = do { (d', added, _) \<leftarrow> dictAddRaw ty rs d key val; Some (d', added) }"

definition set_entry :: "link \<Rightarrow> ('k \<times> 'v \<Rightarrow> 'k \<times> 'v) \<Rightarrow> ('k, 'v) dict \<Rightarrow> ('k, 'v) dict" where
  "set_entry l f d = (case l of (t, i, p) \<Rightarrow>
    upd_ht t (\<lambda>x. x\<lparr>ht_table := (ht_table x)[i := (ht_table x ! i)[p := f (ht_table x ! i ! p)]]\<rparr>) d)"

definition dictSetVal :: "('k, 'v) dict \<Rightarrow> link \<Rightarrow> 'v \<Rightarrow> ('k, 'v) dict" where
  "dictSetVal d l val = set_entry l (\<lambda>de. (fst de, val)) d"

definition dictReplace :: "'k dictType \<Rightarrow> dictResizeEnable \<Rightarrow> ('k, 'v) dict \<Rightarrow> 'k \<Rightarrow> 'v \<Rightarrow> (('k, 'v) dict \<times> bool) option" where
  "dictReplace ty rs d key val =
    do { (d', added, existing) \<leftarrow> dictAddRaw ty rs d key val;
         if added then Some (d', True) else map_option (\<lambda>l. (dictSetVal d' l val, False)) existing }"

text \<open>\<^verbatim>\<open>dictSetKeyAtLink\<close> for the dictionaries whose stored key carries the value. A new item goes to the
  given bucket unless the tables were reallocated; otherwise the stored key at the link is replaced.\<close>

definition dictSetKeyAtLink_new :: "'k dictType \<Rightarrow> dictResizeEnable \<Rightarrow> ('k, 'v) dict \<Rightarrow> 'k \<times> 'v \<Rightarrow> bucket_link option
    \<Rightarrow> ('k, 'v) dict option" where
  "dictSetKeyAtLink_new ty rs d de link =
    do { (d1, _) \<leftarrow> dictExpandIfNeeded ty rs d;
         (d2, b) \<leftarrow> (if ht_size_exp (ht0 d1) \<noteq> ht_size_exp (ht0 d) \<or> ht_size_exp (ht1 d1) \<noteq> ht_size_exp (ht1 d) \<or> link = None
           then do { (d2, l, b) \<leftarrow> dictFindLinkInternal ty rs d1 (fst de) True;
                     if b = None \<or> l \<noteq> None then None else Some (d2, the b) }
           else Some (d1, the link));
         dictInsertKeyAtLink d2 de b }"

definition dictSetKeyAtLink_old :: "'k dictType \<Rightarrow> dictResizeEnable \<Rightarrow> ('k, 'v) dict \<Rightarrow> 'k \<times> 'v \<Rightarrow> link option
    \<Rightarrow> ('k, 'v) dict option" where
  "dictSetKeyAtLink_old ty rs d de link =
    do { (d', l) \<leftarrow> (case link of
             Some l \<Rightarrow> Some (d, l)
           | None \<Rightarrow> do { (d', l, _) \<leftarrow> dictFindLink ty rs d (fst de) False; map_option (Pair d') l });
         Some (set_entry l (\<lambda>_. de) d') }"

section \<open>Removal\<close>

definition unlink :: "link \<Rightarrow> ('k, 'v) dict \<Rightarrow> ('k, 'v) dict" where
  "unlink l d = (case l of (t, i, p) \<Rightarrow>
    upd_ht t (\<lambda>x. x\<lparr>ht_table := (ht_table x)[i := take p (ht_table x ! i) @ drop (Suc p) (ht_table x ! i)],
                    ht_used := ht_used x - 1\<rparr>) d)"

definition dictGenericDelete :: "'k dictType \<Rightarrow> dictResizeEnable \<Rightarrow> ('k, 'v) dict \<Rightarrow> 'k
    \<Rightarrow> (('k, 'v) dict \<times> ('k \<times> 'v) option) option" where
  "dictGenericDelete ty rs d key =
    (if dictSize d = 0 then Some (d, None)
     else let h = hashFunction ty key; idx = masked h (ht_size_exp (ht0 d)) in
       do { d1 \<leftarrow> dictRehashStepIfNeeded ty rs d idx;
            (he, _) \<leftarrow> find_in_tables d1 key h idx (tables d1) None;
            case he of
              None \<Rightarrow> Some (d1, None)
            | Some l \<Rightarrow> do { d2 \<leftarrow> p_dictShrinkIfNeeded ty rs (unlink l d1); Some (d2, Some (entry_at d1 l)) } })"

definition dictDelete :: "'k dictType \<Rightarrow> dictResizeEnable \<Rightarrow> ('k, 'v) dict \<Rightarrow> 'k \<Rightarrow> (('k, 'v) dict \<times> bool) option" where
  "dictDelete ty rs d key = do { (d', he) \<leftarrow> dictGenericDelete ty rs d key; Some (d', he \<noteq> None) }"

definition dictTwoPhaseUnlinkFind :: "'k dictType \<Rightarrow> dictResizeEnable \<Rightarrow> ('k, 'v) dict \<Rightarrow> 'k
    \<Rightarrow> (('k, 'v) dict \<times> link option) option" where
  "dictTwoPhaseUnlinkFind ty rs d key =
    (if dictSize d = 0 then Some (d, None)
     else do { d1 \<leftarrow> (if dictIsRehashing d then dictRehashStep ty rs d else Some d);
               let h = hashFunction ty key;
               (l, _) \<leftarrow> find_in_tables d1 key h (masked h (ht_size_exp (ht0 d1))) (tables d1) None;
               Some (if l = None then d1 else d1\<lparr>pauserehash := pauserehash d1 + 1\<rparr>, l) })"

definition dictTwoPhaseUnlinkFree :: "'k dictType \<Rightarrow> dictResizeEnable \<Rightarrow> ('k, 'v) dict \<Rightarrow> link option \<Rightarrow> ('k, 'v) dict option" where
  "dictTwoPhaseUnlinkFree ty rs d plink = (case plink of
      None \<Rightarrow> Some d
    | Some l \<Rightarrow> do { d' \<leftarrow> p_dictShrinkIfNeeded ty rs (unlink l d); Some (d'\<lparr>pauserehash := pauserehash d' - 1\<rparr>) })"

text \<open>\<^verbatim>\<open>_dictClear\<close> frees every chain and resets the table.\<close>

definition dictClear :: "nat \<Rightarrow> ('k, 'v) dict \<Rightarrow> ('k, 'v) dict" where
  "dictClear t d = upd_ht t (\<lambda>_. dictReset) d"

text \<open>What the owner is told before the tables go away.\<close>

definition announce_end :: "('k, 'v) dict \<Rightarrow> ('k, 'v) dict" where
  "announce_end d = emit (BucketChanged (- int (dictBuckets d)))
    (if dictIsRehashing d then emit (RehashingCompleted (DICTHT_SIZE (ht_size_exp (ht0 d)))) d else d)"

definition dictEmpty :: "('k, 'v) dict \<Rightarrow> ('k, 'v) dict" where
  "dictEmpty d = (dictClear 1 (dictClear 0 (announce_end d)))
    \<lparr>rehashidx := - 1, pauserehash := 0, pauseAutoResize := 0\<rparr>"

text \<open>\<^verbatim>\<open>dictRelease\<close> returns the callbacks of its last moments.\<close>

definition dictRelease :: "('k, 'v) dict \<Rightarrow> dictEvent list" where
  "dictRelease d = d_log (announce_end d)"

end
