(* ===== verification/MapMachine.thy ===== *)
theory MapMachine
  imports Main
begin

text \<open>
  The contract of the components that store values under keys: a step function whose answers and
  effect are those of the same operation on a finite map. Hash tables, key-value stores and sets of
  integers are instances.
\<close>

section \<open>Operations on a map\<close>

text \<open>What the users of a key-value component see: operations with their answers, and their meaning on
  a map. The policy that accompanies an operation, such as the global resize setting, has no
  influence on the answers.\<close>

datatype ('k, 'v) map_op = Fetch 'k | Add 'k 'v | Replace 'k 'v | Delete 'k

datatype 'v map_out = Value "'v option" | Flag bool

fun map_spec :: "('k, 'v) map_op \<Rightarrow> ('k \<Rightarrow> 'v option) \<Rightarrow> ('k \<Rightarrow> 'v option) \<times> 'v map_out" where
  "map_spec (Fetch k) m = (m, Value (m k))"
| "map_spec (Add k v) m = (if m k = None then m(k \<mapsto> v) else m, Flag (m k = None))"
| "map_spec (Replace k v) m = (m(k \<mapsto> v), Flag (m k = None))"
| "map_spec (Delete k) m = (m(k := None), Flag (m k \<noteq> None))"

fun spec_outs :: "('k, 'v) map_op list \<Rightarrow> ('k \<Rightarrow> 'v option) \<Rightarrow> ('k \<Rightarrow> 'v option) \<times> 'v map_out list" where
  "spec_outs [] m = (m, [])"
| "spec_outs (x # xs) m = (case map_spec x m of (m', r) \<Rightarrow> case spec_outs xs m' of (m'', rs) \<Rightarrow> (m'', r # rs))"

fun run_ops :: "('p \<Rightarrow> ('k, 'v) map_op \<Rightarrow> 'd \<Rightarrow> ('d \<times> 'v map_out) option) \<Rightarrow> ('p \<times> ('k, 'v) map_op) list \<Rightarrow> 'd
    \<Rightarrow> ('d \<times> 'v map_out list) option" where
  "run_ops step [] d = Some (d, [])"
| "run_ops step ((p, x) # xs) d = (case step p x d of
      None \<Rightarrow> None
    | Some (d', r) \<Rightarrow> (case run_ops step xs d' of None \<Rightarrow> None | Some (d'', rs) \<Rightarrow> Some (d'', r # rs)))"

text \<open>Some components accept an operation only within a limit on the map, as a condition on it.\<close>

fun all_legal :: "(('k, 'v) map_op \<Rightarrow> ('k \<Rightarrow> 'v option) \<Rightarrow> bool) \<Rightarrow> ('k, 'v) map_op list \<Rightarrow> ('k \<Rightarrow> 'v option) \<Rightarrow> bool" where
  "all_legal legal [] m = True"
| "all_legal legal (x # xs) m = (legal x m \<and> all_legal legal xs (fst (map_spec x m)))"

lemma all_legal_True [simp]: "all_legal (\<lambda>_ _. True) xs m"
  by (induction xs arbitrary: m) auto

locale map_machine =
  fixes ok :: "'d \<Rightarrow> bool" and content :: "'d \<Rightarrow> 'k \<Rightarrow> 'v option"
    and legal :: "('k, 'v) map_op \<Rightarrow> ('k \<Rightarrow> 'v option) \<Rightarrow> bool"
    and step :: "'p \<Rightarrow> ('k, 'v) map_op \<Rightarrow> 'd \<Rightarrow> ('d \<times> 'v map_out) option"
  assumes step_refines: "ok d \<Longrightarrow> legal x (content d) \<Longrightarrow> \<exists>d'. step p x d = Some (d', snd (map_spec x (content d))) \<and> ok d'
      \<and> content d' = fst (map_spec x (content d))"
begin

lemma run_refines:
  "ok d \<Longrightarrow> all_legal legal (map snd pxs) (content d) \<Longrightarrow>
    \<exists>d'. run_ops step pxs d = Some (d', snd (spec_outs (map snd pxs) (content d))) \<and> ok d'
    \<and> content d' = fst (spec_outs (map snd pxs) (content d))"
proof (induction pxs arbitrary: d)
  case (Cons px pxs)
  obtain p x where px: "px = (p, x)" by fastforce
  have l: "legal x (content d)" "all_legal legal (map snd pxs) (fst (map_spec x (content d)))" using Cons.prems(2) px by auto
  obtain d' where d': "step p x d = Some (d', snd (map_spec x (content d)))" "ok d'" "content d' = fst (map_spec x (content d))"
    using step_refines[OF Cons.prems(1) l(1)] by blast
  then show ?case using Cons.IH[OF d'(2)] l(2) px by (auto split: prod.splits)
qed simp

end

end
