(* ===== verification/DictCorrect.thy ===== *)
theory DictCorrect
  imports Dict MapMachine "HOL-Library.Multiset"
begin

text \<open>
  The hash table implements a finite map. The invariant places every entry in the bucket its hash
  selects, keeps the counters exact, empties the buckets behind the rehash index and holds each key
  once over both tables. Rehashing and resizing rearrange the entries and report every change of
  the number of buckets; lookup, insertion and removal compute on the map.
\<close>

section \<open>Buckets\<close>

lemma masked_mod:
  assumes "e \<noteq> - 1" "nat e < 64"
  shows "masked h e = unat h mod 2 ^ nat e"
proof -
  have "of_nat (DICTHT_SIZE_MASK e) = (mask (nat e) :: u64)"
    using assms(1) by (simp add: DICTHT_SIZE_MASK_def DICTHT_SIZE_def mask_eq_exp_minus_1 of_nat_diff)
  then have "masked h e = take_bit (nat e) (unat h)"
    by (simp add: masked_def unsigned_take_bit_eq flip: take_bit_eq_mask)
  then show ?thesis by (simp add: take_bit_eq_mod)
qed

lemma masked_less: "e \<noteq> - 1 \<Longrightarrow> nat e < 64 \<Longrightarrow> masked h e < DICTHT_SIZE e"
  by (simp add: masked_mod DICTHT_SIZE_def)

text \<open>When the table shrinks, the old bucket index determines the new one.\<close>

lemma masked_shrink:
  assumes "e0 \<noteq> - 1" "nat e0 < 64" "e1 \<noteq> - 1" "0 \<le> e1" "e1 \<le> e0"
  shows "masked (of_nat (masked h e0)) e1 = masked h e1"
proof -
  have "nat e1 \<le> nat e0" "nat e1 < 64" using assms by auto
  then have "(2 :: nat) ^ nat e1 dvd 2 ^ nat e0" by (simp add: le_imp_power_dvd)
  moreover have "unat h mod 2 ^ nat e0 < 2 ^ 64"
    using unsigned_less[of h] by (intro le_less_trans[OF mod_less_eq_dividend]) simp
  ultimately show ?thesis
    using assms \<open>nat e1 < 64\<close> by (simp add: masked_mod unat_of_nat take_bit_nat_eq_self mod_mod_cancel)
qed

lemma mset_concat_update:
  "i < length T \<Longrightarrow> mset (concat (T[i := ys])) + mset (T ! i) = mset (concat T) + mset ys"
proof (induction T arbitrary: i)
  case (Cons c T)
  then show ?case by (cases i) (auto simp: ac_simps)
qed simp

lemma mset_concat_push:
  "i < length T \<Longrightarrow> mset (concat (T[i := x # T ! i])) = add_mset x (mset (concat T))"
  using mset_concat_update[of i T "x # T ! i"] by simp

lemma length_concat_mset: "mset (concat T) = M \<Longrightarrow> length (concat T) = size M"
  by auto

section \<open>The invariant\<close>

definition in_place :: "'k dictType \<Rightarrow> int \<Rightarrow> ('k \<times> 'v) list list \<Rightarrow> bool" where
  "in_place ty e T \<longleftrightarrow> (\<forall>i < length T. \<forall>de \<in> set (T ! i). masked (hashFunction ty (fst de)) e = i)"

definition ht_live :: "'k dictType \<Rightarrow> ('k, 'v) htable \<Rightarrow> bool" where
  "ht_live ty t \<longleftrightarrow> 2 \<le> ht_size_exp t \<and> ht_size_exp t \<le> 60 \<and> length (ht_table t) = DICTHT_SIZE (ht_size_exp t)
    \<and> ht_used t = length (concat (ht_table t)) \<and> in_place ty (ht_size_exp t) (ht_table t)"

definition entries :: "('k, 'v) dict \<Rightarrow> ('k \<times> 'v) list" where
  "entries d = concat (ht_table (ht0 d)) @ concat (ht_table (ht1 d))"

definition dict_ok :: "'k dictType \<Rightarrow> ('k, 'v) dict \<Rightarrow> bool" where
  "dict_ok ty d \<longleftrightarrow>
    (if dictIsRehashing d
     then ht_live ty (ht0 d) \<and> ht_live ty (ht1 d) \<and> 0 \<le> rehashidx d \<and> rehashidx d \<le> int (DICTHT_SIZE (ht_size_exp (ht0 d)))
       \<and> (\<forall>i < nat (rehashidx d). ht_table (ht0 d) ! i = [])
     else (ht0 d = dictReset \<or> ht_live ty (ht0 d)) \<and> ht1 d = dictReset)
    \<and> distinct (map fst (entries d))"

text \<open>What the dictionary stores.\<close>

definition dict_map :: "('k, 'v) dict \<Rightarrow> 'k \<Rightarrow> 'v option" where
  "dict_map d = map_of (entries d)"

lemma dict_map_mset:
  "mset (entries d') = mset (entries d) \<Longrightarrow> distinct (map fst (entries d)) \<Longrightarrow> dict_map d' = dict_map d"
proof -
  assume m: "mset (entries d') = mset (entries d)" and dist: "distinct (map fst (entries d))"
  have "mset (map fst (entries d')) = mset (map fst (entries d))" using m by simp
  then have "distinct (map fst (entries d'))" using dist by (metis mset_eq_imp_distinct_iff)
  then show ?thesis using dist m unfolding dict_map_def by (metis map_of_inject_set mset_eq_setD)
qed

lemma DICTHT_SIZE_reset [simp]: "DICTHT_SIZE (- 1) = 0"
  by (simp add: DICTHT_SIZE_def)

lemma dictReset_simps [simp]:
  "ht_table dictReset = []" "ht_used dictReset = 0" "ht_size_exp dictReset = - 1"
  by (simp_all add: dictReset_def)

lemma ht_live_size: "ht_live ty t \<Longrightarrow> 0 < length (ht_table t)"
  by (simp add: ht_live_def DICTHT_SIZE_def)

lemma ht_live_masked: "ht_live ty t \<Longrightarrow> masked h (ht_size_exp t) < length (ht_table t)"
  by (auto simp: ht_live_def intro!: masked_less)

lemma dictSize_entries: "dict_ok ty d \<Longrightarrow> dictSize d = length (entries d)"
  by (auto simp: dict_ok_def dictSize_def entries_def ht_live_def split: if_splits)

lemma dictCreate_ok: "dict_ok ty dictCreate" "dict_map dictCreate = Map.empty"
  by (simp_all add: dict_ok_def dictCreate_def dictIsRehashing_def entries_def dict_map_def)

section \<open>Moving a bucket\<close>

lemma move_chain_moves:
  assumes "ht_live ty (ht1 d)" "2 \<le> ht_size_exp (ht0 d)" "ht_size_exp (ht0 d) \<le> 60"
    "\<forall>de \<in> set c. masked (hashFunction ty (fst de)) (ht_size_exp (ht0 d)) = idx"
  shows "ht_live ty (ht1 (move_chain ty idx c d))
    \<and> mset (concat (ht_table (ht1 (move_chain ty idx c d)))) = mset (concat (ht_table (ht1 d))) + mset c
    \<and> ht_used (ht0 (move_chain ty idx c d)) = ht_used (ht0 d) - length c"
  using assms
proof (induction c arbitrary: d)
  case (Cons de c)
  let ?e0 = "ht_size_exp (ht0 d)" and ?e1 = "ht_size_exp (ht1 d)" and ?T = "ht_table (ht1 d)"
  let ?h = "masked (hashFunction ty (fst de)) ?e1"
  have e1: "2 \<le> ?e1" "?e1 \<le> 60" using Cons.prems(1) by (auto simp: ht_live_def)
  have h: "(if ?e0 < ?e1 then ?h else masked (of_nat idx) ?e1) = ?h"
    using masked_shrink[of ?e0 ?e1 "hashFunction ty (fst de)"] Cons.prems(2-4) e1 by auto
  have lt: "?h < length ?T" using Cons.prems(1) by (rule ht_live_masked)
  let ?d = "d\<lparr>ht0 := (ht0 d)\<lparr>ht_used := ht_used (ht0 d) - 1\<rparr>,
    ht1 := (ht1 d)\<lparr>ht_table := ?T[?h := de # ?T ! ?h], ht_used := ht_used (ht1 d) + 1\<rparr>\<rparr>"
  have step: "move_chain ty idx (de # c) d = move_chain ty idx c ?d" by (simp add: h Let_def)
  have push: "mset (concat (?T[?h := de # ?T ! ?h])) = add_mset de (mset (concat ?T))"
    using lt by (rule mset_concat_push)
  have "ht_live ty (ht1 ?d)"
    using Cons.prems(1) lt length_concat_mset[OF push]
    by (auto simp: ht_live_def in_place_def nth_list_update)
  from Cons.IH[OF this] Cons.prems show ?case unfolding step using push by auto
qed simp

section \<open>Rearrangements\<close>

text \<open>What the log reports: the change of the number of buckets, and of the size of the old tables
  that are being moved.\<close>

fun bucket_delta :: "dictEvent list \<Rightarrow> int" where
  "bucket_delta [] = 0"
| "bucket_delta (BucketChanged n # es) = n + bucket_delta es"
| "bucket_delta (_ # es) = bucket_delta es"

fun overhead_delta :: "dictEvent list \<Rightarrow> int" where
  "overhead_delta [] = 0"
| "overhead_delta (RehashingStarted n # es) = int n + overhead_delta es"
| "overhead_delta (RehashingCompleted n # es) = overhead_delta es - int n"
| "overhead_delta (BucketChanged n # es) = overhead_delta es"

lemma bucket_delta_append [simp]: "bucket_delta (xs @ ys) = bucket_delta xs + bucket_delta ys"
  by (induction xs rule: bucket_delta.induct) auto

lemma overhead_delta_append [simp]: "overhead_delta (xs @ ys) = overhead_delta xs + overhead_delta ys"
  by (induction xs rule: overhead_delta.induct) auto

text \<open>Whether a rehash is in progress after the reports, which must alternate.\<close>

fun rehash_after :: "bool \<Rightarrow> dictEvent list \<Rightarrow> bool option" where
  "rehash_after b [] = Some b"
| "rehash_after b (RehashingStarted _ # es) = (if b then None else rehash_after True es)"
| "rehash_after b (RehashingCompleted _ # es) = (if b then rehash_after False es else None)"
| "rehash_after b (BucketChanged _ # es) = rehash_after b es"

lemma rehash_after_append [simp]: "rehash_after b (xs @ ys) = Option.bind (rehash_after b xs) (\<lambda>b'. rehash_after b' ys)"
  by (induction b xs rule: rehash_after.induct) auto

definition overhead :: "('k, 'v) dict \<Rightarrow> int" where
  "overhead d = (if dictIsRehashing d then int (DICTHT_SIZE (ht_size_exp (ht0 d))) else 0)"

definition accounted :: "('k, 'v) dict \<Rightarrow> ('k, 'v) dict \<Rightarrow> bool" where
  "accounted d d' \<longleftrightarrow> (\<exists>evs. d_log d' = d_log d @ evs \<and> int (dictBuckets d') = int (dictBuckets d) + bucket_delta evs
    \<and> overhead d' = overhead d + overhead_delta evs \<and> rehash_after (dictIsRehashing d) evs = Some (dictIsRehashing d'))"

lemma accounted_refl: "accounted d d"
  by (simp add: accounted_def)

lemma accounted_trans: "accounted a b \<Longrightarrow> accounted b c \<Longrightarrow> accounted a c"
  unfolding accounted_def by (elim exE conjE, rule_tac x = "evs @ evsa" in exI) simp

lemma accounted_silent:
  "d_log d' = d_log d \<Longrightarrow> dictBuckets d' = dictBuckets d \<Longrightarrow> overhead d' = overhead d \<Longrightarrow>
    dictIsRehashing d' = dictIsRehashing d \<Longrightarrow> accounted d d'"
  by (simp add: accounted_def)

text \<open>\<^term>\<open>d'\<close> holds the same entries as \<^term>\<open>d\<close>, with the same pauses.\<close>

definition rearranged :: "'k dictType \<Rightarrow> ('k, 'v) dict \<Rightarrow> ('k, 'v) dict \<Rightarrow> bool" where
  "rearranged ty d d' \<longleftrightarrow> dict_ok ty d' \<and> mset (entries d') = mset (entries d) \<and> pauserehash d' = pauserehash d
    \<and> pauseAutoResize d' = pauseAutoResize d \<and> accounted d d'
    \<and> (ht_table (ht0 d) \<noteq> [] \<longrightarrow> ht_table (ht0 d') \<noteq> [])"

lemma rearranged_refl: "dict_ok ty d \<Longrightarrow> rearranged ty d d"
  by (simp add: rearranged_def accounted_refl)

lemma rearranged_trans: "rearranged ty a b \<Longrightarrow> rearranged ty b c \<Longrightarrow> rearranged ty a c"
  by (auto simp: rearranged_def intro: accounted_trans)

lemma rearranged_ok: "rearranged ty d d' \<Longrightarrow> dict_ok ty d'"
  by (simp add: rearranged_def)

lemma rearranged_map: "rearranged ty d d' \<Longrightarrow> dict_map d' = dict_map d"
  unfolding rearranged_def by (metis dict_map_mset dict_ok_def)

lemma rearranged_size: "dict_ok ty d \<Longrightarrow> rearranged ty d d' \<Longrightarrow> dictSize d' = dictSize d"
  by (metis dictSize_entries rearranged_def mset_eq_length)

lemma distinct_fst_mset:
  "mset xs = mset ys \<Longrightarrow> distinct (map fst xs) \<Longrightarrow> distinct (map fst ys)"
  by (metis mset_eq_imp_distinct_iff mset_map)

section \<open>Incremental rehashing\<close>

lemma in_place_clear: "in_place ty e T \<Longrightarrow> in_place ty e (T[i := []])"
  by (cases "i < length T") (auto simp: in_place_def nth_list_update split: if_splits)

lemma nth_clear: "T ! i = [] \<Longrightarrow> T[j := []] ! i = []"
  by (metis list_update_beyond not_le nth_list_update_eq nth_list_update_neq)

lemma rehashEntries_rearranged:
  assumes ok: "dict_ok ty d" and r: "dictIsRehashing d" and idx: "idx < length (ht_table (ht0 d))"
  shows "rearranged ty d (rehashEntriesInBucketAtIndex ty d idx)"
proof -
  let ?d = "rehashEntriesInBucketAtIndex ty d idx" and ?T = "ht_table (ht0 d)"
  have live: "ht_live ty (ht0 d)" "ht_live ty (ht1 d)" using ok r by (auto simp: dict_ok_def)
  have "\<forall>de \<in> set (?T ! idx). masked (hashFunction ty (fst de)) (ht_size_exp (ht0 d)) = idx"
    using live(1) idx by (simp add: ht_live_def in_place_def)
  note mv = move_chain_moves[OF live(2) _ _ this]
  have mv: "ht_live ty (ht1 ?d)" "mset (concat (ht_table (ht1 ?d))) = mset (concat (ht_table (ht1 d))) + mset (?T ! idx)"
      "ht_used (ht0 ?d) = ht_used (ht0 d) - length (?T ! idx)"
    using mv live(1) by (auto simp: ht_live_def)
  have cl: "mset (concat (?T[idx := []])) + mset (?T ! idx) = mset (concat ?T)"
    using mset_concat_update[OF idx, of "[]"] by simp
  then have "length (concat (?T[idx := []])) + length (?T ! idx) = length (concat ?T)"
    by (metis size_mset size_union)
  then have live0: "ht_live ty (ht0 ?d)"
    using live(1) mv(3) by (auto simp: ht_live_def in_place_clear)
  have ent: "mset (entries ?d) = mset (entries d)"
    unfolding entries_def using mv(2) cl by (simp add: ac_simps)
  have rr: "dictIsRehashing ?d" using r by (simp add: dictIsRehashing_def)
  have "\<forall>i < nat (rehashidx ?d). ht_table (ht0 ?d) ! i = []"
    using ok r live(1) by (auto simp: dict_ok_def nth_clear)
  then have "dict_ok ty ?d"
    using ok r rr live0 mv(1) distinct_fst_mset[OF ent[symmetric]] by (auto simp: dict_ok_def)
  moreover have "accounted d ?d"
    by (rule accounted_silent) (simp_all add: dictBuckets_def overhead_def dictIsRehashing_def)
  ultimately show ?thesis using ent by (simp add: rearranged_def)
qed

lemma rearranged_rehashidx:
  assumes "rearranged ty d0 d" "dictIsRehashing d" "0 \<le> j" "j \<le> int (DICTHT_SIZE (ht_size_exp (ht0 d)))"
    "\<forall>i < nat j. ht_table (ht0 d) ! i = []"
  shows "rearranged ty d0 (d\<lparr>rehashidx := j\<rparr>)"
proof -
  have "rearranged ty d (d\<lparr>rehashidx := j\<rparr>)"
    using assms unfolding rearranged_def
    by (auto simp: dict_ok_def dictIsRehashing_def entries_def dictBuckets_def overhead_def intro!: accounted_silent)
  then show ?thesis using assms(1) rearranged_trans by blast
qed

lemma completed_rearranged:
  assumes ok: "dict_ok ty d" and r: "dictIsRehashing d"
  shows "rearranged ty d (fst (dictCheckRehashingCompleted d))"
    "snd (dictCheckRehashingCompleted d) \<longleftrightarrow> \<not> dictIsRehashing (fst (dictCheckRehashingCompleted d))"
    "dictIsRehashing (fst (dictCheckRehashingCompleted d)) \<Longrightarrow> fst (dictCheckRehashingCompleted d) = d"
proof -
  let ?d = "fst (dictCheckRehashingCompleted d)"
  show "snd (dictCheckRehashingCompleted d) \<longleftrightarrow> \<not> dictIsRehashing ?d" "dictIsRehashing ?d \<Longrightarrow> ?d = d"
    using r by (auto simp: dictCheckRehashingCompleted_def dictIsRehashing_def Let_def split: if_splits)
  show "rearranged ty d ?d"
  proof (cases "ht_used (ht0 d) = 0")
    case True
    then have "concat (ht_table (ht0 d)) = []" using ok r by (auto simp: dict_ok_def ht_live_def)
    moreover have "ht_table (ht1 d) \<noteq> []" using ok r ht_live_size[of ty "ht1 d"] by (auto simp: dict_ok_def)
    ultimately show ?thesis using True ok r
      by (auto simp: rearranged_def dict_ok_def dictCheckRehashingCompleted_def Let_def dictIsRehashing_def entries_def
        emit_def accounted_def dictBuckets_def overhead_def)
  next
    case False
    then show ?thesis using ok by (simp add: dictCheckRehashingCompleted_def rearranged_refl)
  qed
qed

lemma skip_empty_finds:
  assumes "idx \<le> j" "j < length T" "T ! j \<noteq> []" "0 < ev"
  shows "\<exists>r. skip_empty T idx ev = Some r \<and>
    (case r of Inl i \<Rightarrow> idx < i \<and> i \<le> j \<and> (\<forall>k. idx \<le> k \<and> k < i \<longrightarrow> T ! k = [])
     | Inr (i, ev') \<Rightarrow> idx \<le> i \<and> i \<le> j \<and> 0 < ev' \<and> (\<forall>k. idx \<le> k \<and> k < i \<longrightarrow> T ! k = []))"
  using assms
proof (induction T idx ev rule: skip_empty.induct)
  case (1 T idx ev)
  show ?case
  proof (cases "T ! idx = []")
    case False
    then show ?thesis using 1(2-5) by (subst skip_empty.simps) auto
  next
    case True
    then have j: "Suc idx \<le> j" using 1(2,4) by (metis le_neq_implies_less Suc_leI)
    have un: "skip_empty T idx ev = (if ev - 1 = 0 then Some (Inl (Suc idx)) else skip_empty T (Suc idx) (ev - 1))"
      using True 1(2,3) by (subst skip_empty.simps) auto
    show ?thesis
    proof (cases "ev - 1 = 0")
      case e: True
      then show ?thesis using un True j 1(2) by (auto simp: le_less_Suc_eq less_Suc_eq)
    next
      case False
      have gap: "(\<forall>k. idx \<le> k \<and> k < i \<longrightarrow> T ! k = []) \<longleftrightarrow> (\<forall>k. Suc idx \<le> k \<and> k < i \<longrightarrow> T ! k = [])" for i
        using True by (metis Suc_leI le_neq_implies_less le_SucI Suc_le_lessD less_imp_le_nat)
      have "\<exists>r. skip_empty T (Suc idx) (ev - 1) = Some r \<and>
        (case r of Inl i \<Rightarrow> Suc idx < i \<and> i \<le> j \<and> (\<forall>k. Suc idx \<le> k \<and> k < i \<longrightarrow> T ! k = [])
         | Inr (i, ev') \<Rightarrow> Suc idx \<le> i \<and> i \<le> j \<and> 0 < ev' \<and> (\<forall>k. Suc idx \<le> k \<and> k < i \<longrightarrow> T ! k = []))"
        using 1(1)[OF _ True _ j] 1(2-5) False by auto
      then show ?thesis unfolding un gap using False by (auto split: sum.splits)
    qed
  qed
qed

lemma used_bucket:
  assumes "dict_ok ty d" "dictIsRehashing d" "ht_used (ht0 d) \<noteq> 0"
  obtains j where "nat (rehashidx d) \<le> j" "j < length (ht_table (ht0 d))" "ht_table (ht0 d) ! j \<noteq> []"
proof -
  have "concat (ht_table (ht0 d)) \<noteq> []" using assms by (auto simp: dict_ok_def ht_live_def)
  then obtain j where j: "j < length (ht_table (ht0 d))" "ht_table (ht0 d) ! j \<noteq> []"
    by (auto simp: in_set_conv_nth)
  moreover have "nat (rehashidx d) \<le> j"
    using assms j by (meson dict_ok_def linorder_not_less)
  ultimately show thesis using that by blast
qed

lemma rehash_steps_rearranged:
  assumes "dict_ok ty d" "dictIsRehashing d" "0 < ev"
  shows "\<exists>r. rehash_steps ty n ev d = Some r \<and> rearranged ty d (case_sum id id r) \<and> dictIsRehashing (case_sum id id r)"
  using assms
proof (induction n arbitrary: ev d)
  case 0
  then show ?case by (simp add: rearranged_refl)
next
  case (Suc n)
  show ?case
  proof (cases "ht_used (ht0 d) = 0")
    case True
    then show ?thesis using Suc.prems by (simp add: rearranged_refl)
  next
    case False
    let ?T = "ht_table (ht0 d)" and ?i0 = "nat (rehashidx d)"
    obtain j where j: "?i0 \<le> j" "j < length ?T" "?T ! j \<noteq> []" using used_bucket[OF Suc.prems(1,2) False] .
    have idx: "0 \<le> rehashidx d" "length ?T = DICTHT_SIZE (ht_size_exp (ht0 d))" "\<forall>i < ?i0. ?T ! i = []"
      using Suc.prems(1,2) by (auto simp: dict_ok_def ht_live_def)
    then have lt: "\<not> int (DICTHT_SIZE (ht_size_exp (ht0 d))) \<le> rehashidx d" using j by linarith
    obtain s where s: "skip_empty ?T ?i0 ev = Some s"
      "case s of Inl i \<Rightarrow> ?i0 < i \<and> i \<le> j \<and> (\<forall>k. ?i0 \<le> k \<and> k < i \<longrightarrow> ?T ! k = [])
       | Inr (i, ev') \<Rightarrow> ?i0 \<le> i \<and> i \<le> j \<and> 0 < ev' \<and> (\<forall>k. ?i0 \<le> k \<and> k < i \<longrightarrow> ?T ! k = [])"
      using skip_empty_finds[OF j Suc.prems(3)] by blast
    show ?thesis
    proof (cases s)
      case (Inl i)
      have "\<forall>k < i. ?T ! k = []" using s(2) Inl idx(3) by simp (meson leI)
      then have "rearranged ty d (d\<lparr>rehashidx := int i\<rparr>)"
        using s(2) Inl j idx by (intro rearranged_rehashidx rearranged_refl Suc.prems) auto
      then show ?thesis using Inl s(1) lt False by (auto simp: dictIsRehashing_def)
    next
      case (Inr p)
      obtain i ev' where p: "p = (i, ev')" by fastforce
      let ?m = "rehashEntriesInBucketAtIndex ty d i"
      let ?d = "?m\<lparr>rehashidx := int i + 1\<rparr>"
      have i: "i < length ?T" "0 < ev'" using s(2) Inr p j by auto
      have "\<forall>k < i. ?T ! k = []" using s(2) Inr p idx(3) by simp (meson leI)
      then have "\<forall>k < Suc i. ?T[i := []] ! k = []" using i(1) by (auto simp: less_Suc_eq)
      then have m: "rearranged ty d ?d"
        using i(1) idx Suc.prems by (intro rearranged_rehashidx rehashEntries_rearranged) (auto simp: dictIsRehashing_def nat_add_distrib)
      have rd: "dictIsRehashing ?d" by (simp add: dictIsRehashing_def)
      obtain r where r: "rehash_steps ty n ev' ?d = Some r" "rearranged ty ?d (case_sum id id r)" "dictIsRehashing (case_sum id id r)"
        using Suc.IH[OF rearranged_ok[OF m] rd i(2)] by blast
      have "rehash_steps ty (Suc n) ev d = Some r" using Inr p s(1) lt False r(1) by simp
      then show ?thesis using r(2,3) rearranged_trans[OF m] by blast
    qed
  qed
qed

lemma rehash_steps_exp1:
  "rehash_steps ty n ev d = Some r \<Longrightarrow> ht_size_exp (ht1 (case_sum id id r)) = ht_size_exp (ht1 d)"
proof (induction n arbitrary: ev d)
  case (Suc n)
  show ?case
  proof (cases "ht_used (ht0 d) = 0")
    case False
    then obtain s where s: "skip_empty (ht_table (ht0 d)) (nat (rehashidx d)) ev = Some s"
      using Suc.prems by (auto split: if_splits option.splits)
    then show ?thesis using Suc.prems Suc.IH False
      by (cases s) (auto split: if_splits simp del: rehashEntries_frame(5))
  qed (use Suc.prems in auto)
qed auto

definition blocked :: "dictResizeEnable \<Rightarrow> ('k, 'v) dict \<Rightarrow> bool" where
  "blocked rs d \<longleftrightarrow> rs = DICT_RESIZE_FORBID \<or> \<not> dictIsRehashing d \<or> rehash_avoided rs d"

lemma dictRehash_rearranged:
  assumes ok: "dict_ok ty d" and n: "0 < n"
  shows "\<exists>d' again. dictRehash ty rs d n = Some (d', again) \<and> rearranged ty d d'
    \<and> (dictIsRehashing d' \<longrightarrow> ht_size_exp (ht0 d') = ht_size_exp (ht0 d))
    \<and> (if again then \<not> blocked rs d' else d' = d \<and> blocked rs d \<or> \<not> dictIsRehashing d')"
proof (cases "blocked rs d")
  case True
  then show ?thesis using ok by (auto simp: blocked_def dictRehash_def rearranged_refl)
next
  case False
  then have r: "dictIsRehashing d" by (simp add: blocked_def)
  obtain x where x: "rehash_steps ty n (int n * 10) d = Some x" "rearranged ty d (case_sum id id x)"
    "dictIsRehashing (case_sum id id x)" using rehash_steps_rearranged[OF ok r, of "int n * 10" n] n by auto
  have e: "ht_size_exp (ht0 (case_sum id id x)) = ht_size_exp (ht0 d)" "ht_size_exp (ht1 (case_sum id id x)) = ht_size_exp (ht1 d)"
    using rehash_steps_progress[OF x(1)] rehash_steps_exp1[OF x(1)] by (auto split: sum.splits)
  then have nb: "\<not> blocked rs (case_sum id id x)" using False x(3) by (simp add: blocked_def rehash_avoided_def)
  show ?thesis
  proof (cases x)
    case (Inl d')
    then show ?thesis using x e(1) nb False by (auto simp: dictRehash_def blocked_def)
  next
    case (Inr d1)
    then have d1: "rearranged ty d d1" "dictIsRehashing d1" using x(2,3) by auto
    note c = completed_rearranged[OF rearranged_ok[OF d1(1)] d1(2)]
    let ?c = "dictCheckRehashingCompleted d1"
    have "dictRehash ty rs d n = Some (fst ?c, \<not> snd ?c)"
      using Inr x(1) False by (simp add: dictRehash_def blocked_def split: prod.split)
    moreover have "rearranged ty d (fst ?c)" using rearranged_trans[OF d1(1) c(1)] .
    ultimately show ?thesis using c(2,3) e(1) nb Inr by (intro exI[of _ "fst ?c"] exI[of _ "\<not> snd ?c"]) auto
  qed
qed

lemma rehash_all_rearranged:
  "dict_ok ty d \<Longrightarrow> \<exists>d'. rehash_all ty rs d = Some d' \<and> rearranged ty d d' \<and> (d' = d \<and> blocked rs d \<or> \<not> dictIsRehashing d')"
proof (induction ty rs d rule: rehash_all.induct)
  case (1 ty rs d)
  obtain d' again where r: "dictRehash ty rs d 1000 = Some (d', again)" "rearranged ty d d'"
    "if again then \<not> blocked rs d' else d' = d \<and> blocked rs d \<or> \<not> dictIsRehashing d'"
    using dictRehash_rearranged[OF 1(2), of 1000 rs] by auto
  show ?case
  proof (cases again)
    case True
    obtain d'' where "rehash_all ty rs d' = Some d''" "rearranged ty d' d''" "d'' = d' \<and> blocked rs d' \<or> \<not> dictIsRehashing d''"
      using 1(1)[OF r(1) refl True rearranged_ok[OF r(2)]] by blast
    then show ?thesis using r True rearranged_trans[OF r(2)] by (subst rehash_all.simps) auto
  next
    case False
    then show ?thesis using r by (subst rehash_all.simps) simp
  qed
qed

lemma dictRehashStep_rearranged: "dict_ok ty d \<Longrightarrow> \<exists>d'. dictRehashStep ty rs d = Some d' \<and> rearranged ty d d'"
  using dictRehash_rearranged[of ty d 1 rs] by (auto simp: dictRehashStep_def rearranged_refl)

lemma dictBucketRehash_rearranged:
  assumes "dict_ok ty d" "idx < length (ht_table (ht0 d))"
  shows "rearranged ty d (fst (dictBucketRehash ty rs d idx))"
    "dictIsRehashing (fst (dictBucketRehash ty rs d idx)) \<Longrightarrow> ht_size_exp (ht0 (fst (dictBucketRehash ty rs d idx))) = ht_size_exp (ht0 d)"
proof -
  let ?m = "rehashEntriesInBucketAtIndex ty d idx"
  have "rearranged ty d ?m \<and> dictIsRehashing ?m" if "dictIsRehashing d"
    using rehashEntries_rearranged[OF assms(1) that assms(2)] that by (simp add: dictIsRehashing_def)
  note m = this and c = completed_rearranged[OF rearranged_ok]
  show "rearranged ty d (fst (dictBucketRehash ty rs d idx))"
    using m c[of ty d ?m] rearranged_refl[OF assms(1)] rearranged_trans[of ty d ?m] by (auto simp: dictBucketRehash_def)
  show "dictIsRehashing (fst (dictBucketRehash ty rs d idx)) \<Longrightarrow> ht_size_exp (ht0 (fst (dictBucketRehash ty rs d idx))) = ht_size_exp (ht0 d)"
    using m c(3)[of ty d ?m] by (auto simp: dictBucketRehash_def split: if_splits)
qed

lemma dictRehashStepIfNeeded_rearranged:
  assumes ok: "dict_ok ty d" and idx: "dictIsRehashing d \<longrightarrow> idx < length (ht_table (ht0 d))"
  shows "\<exists>d'. dictRehashStepIfNeeded ty rs d idx = Some d' \<and> rearranged ty d d'
    \<and> (dictIsRehashing d' \<longrightarrow> ht_size_exp (ht0 d') = ht_size_exp (ht0 d))"
  using dictRehash_rearranged[OF ok, of 1 rs] dictBucketRehash_rearranged[OF ok, of idx rs] idx rearranged_refl[OF ok]
  by (auto simp: dictRehashStepIfNeeded_def)

section \<open>Resizing\<close>

text \<open>The size of a new table is the least power of two that is at least 4 and holds the request.\<close>

lemma bit_length_bounds: "0 < n \<Longrightarrow> n < 2 ^ bit_length n \<and> 2 ^ (bit_length n - 1) \<le> n"
proof (induction n rule: bit_length.induct)
  case (1 n)
  show ?case
  proof (cases "n div 2 = 0")
    case True
    then have "n = 1" using 1(2) by auto
    then show ?thesis by (simp add: bit_length.simps)
  next
    case False
    then have IH: "n div 2 < 2 ^ bit_length (n div 2)" "2 ^ (bit_length (n div 2) - 1) \<le> n div 2" using 1 by auto
    have b: "bit_length n = Suc (bit_length (n div 2))" "bit_length (n div 2) \<noteq> 0"
      using 1(2) False by (simp_all add: bit_length.simps[of n] bit_length.simps[of "n div 2"])
    then obtain m where m: "bit_length (n div 2) = Suc m" by (metis not0_implies_Suc)
    have "n < 2 * 2 ^ bit_length (n div 2)" using IH(1) by auto
    moreover have "2 * 2 ^ m \<le> n" using IH(2) m by auto
    ultimately show ?thesis using b m by simp
  qed
qed

lemma bit_length_le: "n < 2 ^ k \<Longrightarrow> bit_length n \<le> k"
proof (cases "n = 0")
  case False
  assume "n < 2 ^ k"
  then have "(2 :: nat) ^ (bit_length n - 1) < 2 ^ k" using bit_length_bounds[of n] False by linarith
  then show ?thesis by simp
qed (simp add: bit_length.simps)

lemma dictNextExp_eq: "4 < sz \<Longrightarrow> int sz < LLONG_MAX \<Longrightarrow> dictNextExp sz = int (bit_length (sz - 1))"
proof -
  assume sz: "4 < sz" "int sz < LLONG_MAX"
  then have "bit_length (sz - 1) \<le> 63" by (intro bit_length_le) simp
  then show ?thesis using sz by (simp add: dictNextExp_def clzl_def of_nat_diff)
qed

lemma dictNextExp_range: "2 \<le> dictNextExp sz \<and> dictNextExp sz \<le> 63"
proof (cases "4 < sz \<and> int sz < LLONG_MAX")
  case True
  then have "4 < (2 :: nat) ^ bit_length (sz - 1) + 1" using bit_length_bounds[of "sz - 1"] by linarith
  then have "(2 :: nat) ^ 1 < 2 ^ bit_length (sz - 1)" by simp
  then have "1 < bit_length (sz - 1)" by (rule power_less_imp_less_exp[rotated]) simp
  moreover have "sz - 1 < 2 ^ 63" using True by auto
  then have "bit_length (sz - 1) \<le> 63" by (rule bit_length_le)
  ultimately show ?thesis using dictNextExp_eq[of sz] True by simp
qed (auto simp: dictNextExp_def not_less)

lemma dictNextExp_least:
  assumes "int sz < LLONG_MAX"
  shows "sz \<le> DICTHT_SIZE (dictNextExp sz)" "2 ^ e < sz \<or> sz \<le> 4 \<or> DICTHT_SIZE (dictNextExp sz) \<le> 2 ^ e"
proof -
  show "sz \<le> DICTHT_SIZE (dictNextExp sz)"
    using bit_length_bounds[of "sz - 1"] dictNextExp_eq[of sz] assms
    by (cases "4 < sz") (auto simp: DICTHT_SIZE_def dictNextExp_def)
  show "2 ^ e < sz \<or> sz \<le> 4 \<or> DICTHT_SIZE (dictNextExp sz) \<le> 2 ^ e"
  proof (cases "4 < sz \<and> sz \<le> 2 ^ e")
    case True
    then have "sz - 1 < 2 ^ e" by linarith
    then have "bit_length (sz - 1) \<le> e" by (rule bit_length_le)
    then show ?thesis using True assms by (simp add: dictNextExp_eq DICTHT_SIZE_def)
  qed auto
qed

lemma no_overflow_exp:
  assumes "2 \<le> e" "e \<le> 63" "\<not> DICTHT_SIZE e * 8 mod 2 ^ 64 < DICTHT_SIZE e"
  shows "e \<le> 60"
proof (rule ccontr)
  assume "\<not> e \<le> 60"
  then have "(2 :: nat) ^ 64 dvd 2 ^ (nat e + 3)" using assms by (intro le_imp_power_dvd) auto
  moreover have "DICTHT_SIZE e * 8 = 2 ^ (nat e + 3)" using assms by (simp add: DICTHT_SIZE_def power_add)
  ultimately have "DICTHT_SIZE e * 8 mod 2 ^ 64 = 0" by (metis dvd_imp_mod_0)
  then show False using assms by (simp add: DICTHT_SIZE_def)
qed

lemma fresh_ht_live: "2 \<le> e \<Longrightarrow> e \<le> 60 \<Longrightarrow> ht_live ty \<lparr>ht_table = replicate (DICTHT_SIZE e) [], ht_used = 0, ht_size_exp = e\<rparr>"
  by (simp add: ht_live_def in_place_def)

lemma start_rehash_rearranged:
  fixes d :: "('k, 'v) dict"
  defines "s0 \<equiv> DICTHT_SIZE (ht_size_exp (ht0 d))"
  assumes ok: "dict_ok ty d" and r: "\<not> dictIsRehashing d" and t: "ht_table (ht0 d) \<noteq> []" and e: "2 \<le> e" "e \<le> 60"
  shows "rearranged ty d (emit (BucketChanged (int (DICTHT_SIZE e))) (emit (RehashingStarted s0)
    (d\<lparr>ht1 := \<lparr>ht_table = replicate (DICTHT_SIZE e) [], ht_used = 0, ht_size_exp = e\<rparr>, rehashidx := 0\<rparr>)))"
proof -
  have "ht_live ty (ht0 d)" "ht1 d = dictReset" using ok r t by (auto simp: dict_ok_def)
  then show ?thesis using ok r fresh_ht_live[OF e, of ty]
    by (auto simp: rearranged_def dict_ok_def emit_def dictIsRehashing_def entries_def accounted_def dictBuckets_def overhead_def s0_def)
qed

lemma replace_table_rearranged:
  fixes d :: "('k, 'v) dict"
  defines "s0 \<equiv> DICTHT_SIZE (ht_size_exp (ht0 d))"
  assumes ok: "dict_ok ty d" and r: "\<not> dictIsRehashing d" and t: "ht_table (ht0 d) = [] \<or> ht_used (ht0 d) = 0"
    and e: "2 \<le> e" "e \<le> 60"
  shows "rearranged ty d ((emit (BucketChanged (- int s0)) (emit (RehashingCompleted s0)
    (emit (BucketChanged (int (DICTHT_SIZE e))) (emit (RehashingStarted s0)
      (d\<lparr>ht1 := \<lparr>ht_table = replicate (DICTHT_SIZE e) [], ht_used = 0, ht_size_exp = e\<rparr>, rehashidx := 0\<rparr>)))))
    \<lparr>ht0 := \<lparr>ht_table = replicate (DICTHT_SIZE e) [], ht_used = 0, ht_size_exp = e\<rparr>, ht1 := dictReset, rehashidx := - 1\<rparr>)"
proof -
  have "concat (ht_table (ht0 d)) = []" "ht1 d = dictReset" using ok r t by (auto simp: dict_ok_def ht_live_def)
  moreover have "0 < DICTHT_SIZE e" using e by (simp add: DICTHT_SIZE_def)
  ultimately show ?thesis using ok r fresh_ht_live[OF e, of ty]
    by (auto simp: rearranged_def dict_ok_def emit_def dictIsRehashing_def entries_def accounted_def dictBuckets_def overhead_def s0_def)
qed

text \<open>Resizing starts a rehash at bucket 0, or ends with none.\<close>

definition resized :: "'k dictType \<Rightarrow> ('k, 'v) dict \<Rightarrow> ('k, 'v) dict \<Rightarrow> bool" where
  "resized ty d d' \<longleftrightarrow> rearranged ty d d' \<and> (d' = d \<or> rehashidx d' \<le> 0 \<and> ht_table (ht0 d') \<noteq> [])"

lemma resized_refl: "dict_ok ty d \<Longrightarrow> resized ty d d"
  by (simp add: resized_def rearranged_refl)

lemma not_rehashing_idx: "\<not> dictIsRehashing d \<Longrightarrow> rehashidx d \<le> 0"
  by (simp add: dictIsRehashing_def)

lemma nonempty_table: "dict_ok ty d \<Longrightarrow> entries d \<noteq> [] \<Longrightarrow> ht_table (ht0 d) \<noteq> []"
  by (auto simp: dict_ok_def entries_def dest: ht_live_size split: if_splits)

lemma dictResize_resized:
  assumes ok: "dict_ok ty d" and r: "\<not> dictIsRehashing d"
  shows "\<exists>d' b f. dictResize ty rs d sz try_alloc = Some (d', b, f) \<and> resized ty d d' \<and> (b \<longrightarrow> ht_table (ht0 d') \<noteq> [])"
proof (cases "DICTHT_SIZE (dictNextExp sz) < sz \<or> DICTHT_SIZE (dictNextExp sz) * 8 mod 2 ^ 64 < DICTHT_SIZE (dictNextExp sz)
    \<or> dictNextExp sz = ht_size_exp (ht0 d) \<or> try_alloc = Some False")
  case True
  then show ?thesis using r resized_refl[OF ok] by (auto simp: dictResize_def Let_def)
next
  case False
  let ?e = "dictNextExp sz"
  have e: "2 \<le> ?e" "?e \<le> 60" using dictNextExp_range[of sz] no_overflow_exp[of ?e] False by auto
  have pos: "0 < DICTHT_SIZE ?e" using e by (simp add: DICTHT_SIZE_def)
  show ?thesis
  proof (cases "ht_table (ht0 d) = [] \<or> ht_used (ht0 d) = 0")
    case True
    from replace_table_rearranged[OF ok r this e] show ?thesis
      using True False r pos by (auto simp: dictResize_def Let_def resized_def)
  next
    case t: False
    let ?d1 = "emit (BucketChanged (int (DICTHT_SIZE ?e))) (emit (RehashingStarted (DICTHT_SIZE (ht_size_exp (ht0 d))))
      (d\<lparr>ht1 := \<lparr>ht_table = replicate (DICTHT_SIZE ?e) [], ht_used = 0, ht_size_exp = ?e\<rparr>, rehashidx := 0\<rparr>))"
    have d1: "rearranged ty d ?d1" using start_rehash_rearranged[OF ok r _ e] t by simp
    then have res1: "resized ty d ?d1" using t by (simp add: resized_def emit_def)
    obtain d2 where d2: "rehash_all ty rs ?d1 = Some d2" "rearranged ty ?d1 d2" "d2 = ?d1 \<or> \<not> dictIsRehashing d2"
      using rehash_all_rearranged[OF rearranged_ok[OF d1], of rs] by blast
    have "entries d2 \<noteq> []"
      using rearranged_trans[OF d1 d2(2)] dictSize_entries[OF ok] t by (auto simp: rearranged_def dictSize_def)
    then have "ht_table (ht0 d2) \<noteq> []" using nonempty_table rearranged_ok[OF d2(2)] by blast
    then have res2: "resized ty d d2" using d2(3) rearranged_trans[OF d1 d2(2)] res1 not_rehashing_idx by (auto simp: resized_def)
    have run: "dictResize ty rs d sz try_alloc = Some (if force_full_rehash ty then d2 else ?d1, True, False)"
      using False t r d2(1) by (simp add: dictResize_def Let_def)
    have "ht_table (ht0 ?d1) \<noteq> []" using t by (simp add: emit_def)
    then show ?thesis unfolding run using res1 res2 \<open>ht_table (ht0 d2) \<noteq> []\<close>
      by (intro exI[of _ "if force_full_rehash ty then d2 else ?d1"] exI[of _ True] exI[of _ False]) (cases "force_full_rehash ty"; simp)
  qed
qed

text \<open>The functions that decide when to resize.\<close>

lemma p_dictExpand_resized:
  assumes "dict_ok ty d"
  shows "\<exists>d' b f. p_dictExpand ty rs d sz try_alloc = Some (d', b, f) \<and> resized ty d d' \<and> (b \<longrightarrow> ht_table (ht0 d') \<noteq> [])"
  using dictResize_resized[OF assms, of rs sz try_alloc] resized_refl[OF assms] by (auto simp: p_dictExpand_def)

lemma dictExpand_resized:
  "dict_ok ty d \<Longrightarrow> \<exists>d' b. dictExpand ty rs d sz = Some (d', b) \<and> resized ty d d' \<and> (b \<longrightarrow> ht_table (ht0 d') \<noteq> [])"
  using p_dictExpand_resized[of ty d rs sz None] by (auto simp: dictExpand_def)

lemma dictTryExpand_resized:
  "dict_ok ty d \<Longrightarrow> \<exists>d' b. dictTryExpand ty rs d sz mem = Some (d', b) \<and> resized ty d d'"
  using p_dictExpand_resized[of ty d rs sz "Some mem"] by (auto simp: dictTryExpand_def)

lemma dictShrink_resized:
  assumes "dict_ok ty d"
  shows "\<exists>d' b. dictShrink ty rs d sz = Some (d', b) \<and> resized ty d d'"
  using dictResize_resized[OF assms, of rs sz None] resized_refl[OF assms] by (auto simp: dictShrink_def)

lemma dictExpand_initial:
  assumes ok: "dict_ok ty d" and s0: "DICTHT_SIZE (ht_size_exp (ht0 d)) = 0"
  shows "\<exists>d'. dictExpand ty rs d 4 = Some (d', True)"
proof -
  have r: "\<not> dictIsRehashing d" and t: "ht0 d = dictReset"
    using ok s0 ht_live_size[of ty "ht0 d"] by (auto simp: dict_ok_def ht_live_def split: if_splits)
  then show ?thesis
    by (simp add: dictExpand_def p_dictExpand_def dictResize_def Let_def dictNextExp_def DICTHT_SIZE_def)
qed

lemma dictExpandIfNeeded_resized:
  assumes ok: "dict_ok ty d"
  shows "\<exists>d' b. dictExpandIfNeeded ty rs d = Some (d', b) \<and> resized ty d d' \<and> ht_table (ht0 d') \<noteq> []"
proof (cases "DICTHT_SIZE (ht_size_exp (ht0 d)) = 0")
  case True
  then have "\<not> dictIsRehashing d" using ok by (auto simp: dict_ok_def ht_live_def DICTHT_SIZE_def split: if_splits)
  then show ?thesis
    using dictExpand_initial[OF ok True, of rs] dictExpand_resized[OF ok, of rs 4] True
    by (auto simp: dictExpandIfNeeded_def Let_def)
next
  case False
  then have t: "ht_table (ht0 d) \<noteq> []"
    using ok by (auto simp: dict_ok_def dest: ht_live_size split: if_splits)
  moreover have "ht_table (ht0 d') \<noteq> []" if "resized ty d d'" for d' using that t by (auto simp: resized_def)
  ultimately show ?thesis
    using False dictExpand_resized[OF ok, of rs "ht_used (ht0 d) + 1"] resized_refl[OF ok]
    by (auto simp: dictExpandIfNeeded_def Let_def)
qed

lemma p_dictExpandIfNeeded_resized:
  assumes "dict_ok ty d" "ht_table (ht0 d) \<noteq> [] \<or> pauseAutoResize d \<le> 0"
  shows "\<exists>d' b. p_dictExpandIfNeeded ty rs d = Some (d', b) \<and> resized ty d d' \<and> ht_table (ht0 d') \<noteq> []"
  using dictExpandIfNeeded_resized[OF assms(1), of rs] resized_refl[OF assms(1)] assms(2) by (auto simp: p_dictExpandIfNeeded_def)

lemma dictShrinkIfNeeded_resized:
  assumes "dict_ok ty d"
  shows "\<exists>d' b. dictShrinkIfNeeded ty rs d = Some (d', b) \<and> resized ty d d'"
  using dictShrink_resized[OF assms, of rs "ht_used (ht0 d)"] resized_refl[OF assms]
  by (auto simp: dictShrinkIfNeeded_def Let_def)

lemma p_dictShrinkIfNeeded_resized:
  "dict_ok ty d \<Longrightarrow> \<exists>d'. p_dictShrinkIfNeeded ty rs d = Some d' \<and> resized ty d d'"
  using dictShrinkIfNeeded_resized[of ty d rs] resized_refl[of ty d] by (auto simp: p_dictShrinkIfNeeded_def)

section \<open>Lookup\<close>

lemma find_pos_None: "find_pos key c = None \<longleftrightarrow> key \<notin> fst ` set c"
  by (induction c) auto

lemma find_pos_Some: "find_pos key c = Some p \<Longrightarrow> p < length c \<and> fst (c ! p) = key"
  by (induction c arbitrary: p) (auto split: if_splits)

definition valid_link :: "('k, 'v) dict \<Rightarrow> link \<Rightarrow> bool" where
  "valid_link d l \<longleftrightarrow> (case l of (t, i, p) \<Rightarrow>
    t \<le> 1 \<and> i < length (ht_table (ht d t)) \<and> p < length (ht_table (ht d t) ! i))"

definition insert_table :: "('k, 'v) dict \<Rightarrow> nat" where
  "insert_table d = (if dictIsRehashing d then 1 else 0)"

lemma ht_simps [simp]: "ht d 0 = ht0 d" "ht d (Suc 0) = ht1 d"
  by (simp_all add: ht_def)

lemma in_bucket:
  assumes "ht_live ty t" "key \<in> fst ` set (concat (ht_table t))"
  shows "key \<in> fst ` set (ht_table t ! masked (hashFunction ty key) (ht_size_exp t))"
proof -
  obtain v i where "i < length (ht_table t)" "(key, v) \<in> set (ht_table t ! i)"
    using assms(2) by (auto simp: in_set_conv_nth[of _ "ht_table t"])
  moreover have "masked (hashFunction ty key) (ht_size_exp t) = i"
    using assms(1) calculation by (fastforce simp: ht_live_def in_place_def)
  ultimately show ?thesis by force
qed

lemma entries_dom: "dom (dict_map d) = fst ` set (entries d)"
  by (simp add: dict_map_def dom_map_of_conv_image_fst)

lemma live_tables:
  assumes "dict_ok ty d" "ht_table (ht0 d) \<noteq> []"
  shows "ht_live ty (ht0 d)" "dictIsRehashing d \<Longrightarrow> ht_live ty (ht1 d)" "\<not> dictIsRehashing d \<Longrightarrow> ht1 d = dictReset"
    "ht_live ty (ht d (insert_table d))"
  using assms by (auto simp: dict_ok_def insert_table_def split: if_splits)

lemma entry_in_entries: "valid_link d l \<Longrightarrow> entry_at d l \<in> set (entries d)"
proof -
  assume v: "valid_link d l"
  obtain t i p where l: "l = (t, i, p)" by (cases l)
  have "t = 0 \<or> t = 1" "ht_table (ht d t) ! i ! p \<in> set (concat (ht_table (ht d t)))"
    using v l by (auto simp: valid_link_def intro!: bexI[of _ "ht_table (ht d t) ! i"])
  then show ?thesis using l by (auto simp: entry_at_def entries_def)
qed

lemma link_map: "dict_ok ty d \<Longrightarrow> valid_link d l \<Longrightarrow> dict_map d (fst (entry_at d l)) = Some (snd (entry_at d l))"
  using entry_in_entries[of d l] by (simp add: dict_map_def dict_ok_def map_of_eq_Some_iff)

lemma bucket_at_live: "ht_live ty (ht d t) \<Longrightarrow>
    bucket_at d (t, masked h (ht_size_exp (ht d t))) = Some (ht_table (ht d t) ! masked h (ht_size_exp (ht d t)))"
  using ht_live_masked by (auto simp: bucket_at_def)

lemma valid_found: "ht_live ty (ht d t) \<Longrightarrow> t \<le> 1 \<Longrightarrow>
    find_pos key (ht_table (ht d t) ! masked h (ht_size_exp (ht d t))) = Some p \<Longrightarrow>
    valid_link d (t, masked h (ht_size_exp (ht d t)), p) \<and> fst (entry_at d (t, masked h (ht_size_exp (ht d t)), p)) = key"
  using ht_live_masked[of ty "ht d t" h] by (auto simp: valid_link_def entry_at_def dest: find_pos_Some)

lemma find_in_tables_spec:
  assumes ok: "dict_ok ty d" and t: "ht_table (ht0 d) \<noteq> []"
    and skip: "int idx < rehashidx d \<longrightarrow> idx = masked (hashFunction ty key) (ht_size_exp (ht0 d))"
  shows "\<exists>l b. find_in_tables d key (hashFunction ty key) idx (tables d) None = Some (l, b) \<and>
    (case l of Some l' \<Rightarrow> valid_link d l' \<and> fst (entry_at d l') = key
     | None \<Rightarrow> key \<notin> dom (dict_map d)
         \<and> b = Some (insert_table d, masked (hashFunction ty key) (ht_size_exp (ht d (insert_table d)))))"
proof -
  let ?h = "hashFunction ty key"
  let ?c0 = "ht_table (ht0 d) ! masked ?h (ht_size_exp (ht0 d))" and ?c1 = "ht_table (ht1 d) ! masked ?h (ht_size_exp (ht1 d))"
  note live = live_tables[OF ok t]
  have "bucket_at d (0, masked ?h (ht_size_exp (ht0 d))) = Some ?c0" using bucket_at_live[of ty d 0] live(1) by simp
  note b0 = this
  have b1: "bucket_at d (1, masked ?h (ht_size_exp (ht1 d))) = Some ?c1" if "dictIsRehashing d"
    using bucket_at_live[of ty d 1] live(2)[OF that] by simp
  have skipped: "?c0 = []" if "int idx < rehashidx d"
  proof -
    have "idx < nat (rehashidx d)" "dictIsRehashing d" using that by (auto simp: dictIsRehashing_def)
    then show ?thesis using ok skip that by (auto simp: dict_ok_def)
  qed
  have absent: "key \<notin> dom (dict_map d)"
    if "find_pos key ?c0 = None" "dictIsRehashing d \<Longrightarrow> find_pos key ?c1 = None"
    using that in_bucket[OF live(1), of key] in_bucket[OF live(2), of key] live(3)
    by (cases "dictIsRehashing d") (auto simp: entries_dom entries_def find_pos_None image_Un simp del: set_concat)
  show ?thesis
  proof (cases "dictIsRehashing d")
    case False
    then have "\<not> int idx < rehashidx d" by (simp add: dictIsRehashing_def)
    then show ?thesis using False b0 absent valid_found[of ty d 0 key ?h] live(1)
      by (cases "find_pos key ?c0") (auto simp: tables_def insert_table_def Let_def)
  next
    case True
    note v0 = valid_found[of ty d 0 key ?h] and v1 = valid_found[of ty d 1 key ?h]
    show ?thesis using True b0 b1[OF True] absent v0 v1 live(1) live(2)[OF True] skipped
      by (cases "find_pos key ?c0"; cases "find_pos key ?c1"; cases "int idx < rehashidx d")
        (auto simp: tables_def insert_table_def Let_def)
  qed
qed

section \<open>Changing a chain\<close>

text \<open>Insertion, removal and replacement all store a new chain in one bucket.\<close>

definition put_chain :: "nat \<Rightarrow> nat \<Rightarrow> ('k \<times> 'v) list \<Rightarrow> nat \<Rightarrow> ('k, 'v) dict \<Rightarrow> ('k, 'v) dict" where
  "put_chain t i c u d = upd_ht t (\<lambda>x. x\<lparr>ht_table := (ht_table x)[i := c], ht_used := u\<rparr>) d"

lemma put_chain_frame [simp]:
  "ht_size_exp (ht0 (put_chain t i c u d)) = ht_size_exp (ht0 d)"
  "ht_size_exp (ht1 (put_chain t i c u d)) = ht_size_exp (ht1 d)"
  "rehashidx (put_chain t i c u d) = rehashidx d"
  "pauserehash (put_chain t i c u d) = pauserehash d"
  "pauseAutoResize (put_chain t i c u d) = pauseAutoResize d"
  "d_log (put_chain t i c u d) = d_log d"
  "dictIsRehashing (put_chain t i c u d) = dictIsRehashing d"
  by (simp_all add: put_chain_def upd_ht_def dictIsRehashing_def)

lemma put_chain_accounted: "accounted d (put_chain t i c u d)"
  by (rule accounted_silent) (simp_all add: dictBuckets_def overhead_def)

lemma put_chain_entries:
  assumes "t \<le> 1" "i < length (ht_table (ht d t))"
  shows "mset (entries (put_chain t i c u d)) + mset (ht_table (ht d t) ! i) = mset (entries d) + mset c"
  using assms mset_concat_update[of i "ht_table (ht d t)" c]
  by (cases "t = 0") (auto simp: put_chain_def upd_ht_def entries_def ht_def ac_simps)

lemma put_chain_live:
  assumes "ht_live ty x" "i < length (ht_table x)" "\<forall>de \<in> set c. masked (hashFunction ty (fst de)) (ht_size_exp x) = i"
    "u + length (ht_table x ! i) = ht_used x + length c"
  shows "ht_live ty (x\<lparr>ht_table := (ht_table x)[i := c], ht_used := u\<rparr>)"
proof -
  have "size (mset (concat ((ht_table x)[i := c]))) + size (mset (ht_table x ! i)) = size (mset (concat (ht_table x))) + size (mset c)"
    by (metis mset_concat_update[OF assms(2)] size_union)
  then show ?thesis using assms by (auto simp: ht_live_def in_place_def nth_list_update)
qed

lemma put_chain_ok:
  assumes ok: "dict_ok ty d" and t: "t \<le> 1" "i < length (ht_table (ht d t))"
    and c: "\<forall>de \<in> set c. masked (hashFunction ty (fst de)) (ht_size_exp (ht d t)) = i"
      "u + length (ht_table (ht d t) ! i) = ht_used (ht d t) + length c"
    and idx: "t = 0 \<and> int i < rehashidx d \<longrightarrow> c = []"
    and dist: "distinct (map fst (entries (put_chain t i c u d)))"
  shows "dict_ok ty (put_chain t i c u d)"
proof -
  have live: "ht_live ty (ht d t)"
    using ok t by (auto simp: dict_ok_def ht_def split: if_splits)
  note live' = put_chain_live[OF live t(2) c]
  show ?thesis
  proof (cases "t = 0")
    case True
    have "\<forall>j < nat (rehashidx d). (ht_table (ht0 d))[i := c] ! j = []" if "dictIsRehashing d"
      using ok that idx True by (auto simp: dict_ok_def nth_list_update_neq) (metis nth_list_update_neq nth_list_update_eq nat_less_iff list_update_beyond not_le zless_nat_eq_int_zless)
    then show ?thesis using True ok dist live' by (auto simp: dict_ok_def put_chain_def upd_ht_def dictIsRehashing_def)
  next
    case False
    then have "dictIsRehashing d" using ok t by (auto simp: dict_ok_def ht_def split: if_splits)
    then show ?thesis using False ok dist live' t by (auto simp: dict_ok_def put_chain_def upd_ht_def dictIsRehashing_def ht_def)
  qed
qed

lemma map_of_mset: "mset xs = mset ys \<Longrightarrow> distinct (map fst ys) \<Longrightarrow> map_of xs = map_of ys"
  by (metis distinct_fst_mset map_of_inject_set mset_eq_setD)

lemma link_chain:
  assumes ok: "dict_ok ty d" and l: "valid_link d (t, i, p)"
  shows "t \<le> 1" "i < length (ht_table (ht d t))" "p < length (ht_table (ht d t) ! i)"
    "\<forall>de \<in> set (ht_table (ht d t) ! i). masked (hashFunction ty (fst de)) (ht_size_exp (ht d t)) = i"
    "\<not> (t = 0 \<and> int i < rehashidx d)" "0 < ht_used (ht d t)"
proof -
  show v: "t \<le> 1" "i < length (ht_table (ht d t))" "p < length (ht_table (ht d t) ! i)"
    using l by (auto simp: valid_link_def)
  have live: "ht_live ty (ht d t)" using ok v(1,2) by (auto simp: dict_ok_def ht_def split: if_splits)
  then show "\<forall>de \<in> set (ht_table (ht d t) ! i). masked (hashFunction ty (fst de)) (ht_size_exp (ht d t)) = i"
    using v(2) by (auto simp: ht_live_def in_place_def)
  show "\<not> (t = 0 \<and> int i < rehashidx d)"
  proof
    assume a: "t = 0 \<and> int i < rehashidx d"
    then have "dictIsRehashing d" "i < nat (rehashidx d)" by (auto simp: dictIsRehashing_def)
    then have "ht_table (ht0 d) ! i = []" using ok by (auto simp: dict_ok_def)
    then show False using v(3) a by simp
  qed
  have "concat (ht_table (ht d t)) \<noteq> []" using v(2,3) by (auto intro!: bexI[of _ "ht_table (ht d t) ! i"])
  then show "0 < ht_used (ht d t)" using live by (auto simp: ht_live_def)
qed

text \<open>\<^term>\<open>d'\<close> is a dictionary that stores \<^term>\<open>m\<close>, reached from \<^term>\<open>d\<close> with the bucket changes reported.\<close>

definition stores :: "'k dictType \<Rightarrow> ('k, 'v) dict \<Rightarrow> ('k, 'v) dict \<Rightarrow> ('k \<Rightarrow> 'v option) \<Rightarrow> bool" where
  "stores ty d d' m \<longleftrightarrow> dict_ok ty d' \<and> dict_map d' = m \<and> pauserehash d' = pauserehash d
    \<and> pauseAutoResize d' = pauseAutoResize d \<and> accounted d d'"

lemma rearranged_stores: "rearranged ty d d' \<Longrightarrow> stores ty d d' (dict_map d)"
  by (auto simp: stores_def rearranged_def intro: rearranged_map[unfolded rearranged_def])

lemma stores_trans: "stores ty a b m \<Longrightarrow> stores ty b c m' \<Longrightarrow> stores ty a c m'"
  by (auto simp: stores_def intro: accounted_trans)

lemma rearranged_stores_trans: "rearranged ty a b \<Longrightarrow> stores ty b c m \<Longrightarrow> stores ty a c m"
  using rearranged_stores stores_trans by blast

lemma put_chain_stores:
  assumes "dict_ok ty (put_chain t i c u d)" "dict_map (put_chain t i c u d) = m"
  shows "stores ty d (put_chain t i c u d) m"
  using assms put_chain_accounted by (simp add: stores_def)

lemma insert_stores:
  assumes ok: "dict_ok ty d" and tab: "ht_table (ht0 d) \<noteq> []" and new: "fst de \<notin> dom (dict_map d)"
  shows "\<exists>d'. dictInsertKeyAtLink d de (insert_table d, masked (hashFunction ty (fst de)) (ht_size_exp (ht d (insert_table d)))) = Some d'
    \<and> stores ty d d' ((dict_map d)(fst de \<mapsto> snd de))"
proof -
  let ?t = "insert_table d"
  let ?x = "ht d ?t" and ?i = "masked (hashFunction ty (fst de)) (ht_size_exp (ht d ?t))"
  let ?c = "ht_table ?x ! ?i"
  let ?d = "put_chain ?t ?i (de # ?c) (ht_used ?x + 1) d"
  have live: "ht_live ty ?x" using live_tables(4)[OF ok tab] .
  have t: "?t \<le> 1" and i: "?i < length (ht_table ?x)" using ht_live_masked[OF live] by (auto simp: insert_table_def)
  have "mset (entries ?d) + mset ?c = mset (de # entries d) + mset ?c" using put_chain_entries[OF t i, of "de # ?c"] by simp
  then have ms: "mset (entries ?d) = mset (de # entries d)" by simp
  have dist: "distinct (map fst (de # entries d))" using ok new by (auto simp: dict_ok_def entries_dom)
  have "dict_ok ty ?d"
  proof (rule put_chain_ok[OF ok t i])
    show "\<forall>de' \<in> set (de # ?c). masked (hashFunction ty (fst de')) (ht_size_exp ?x) = ?i"
      using live i by (auto simp: ht_live_def in_place_def)
    show "?t = 0 \<and> int ?i < rehashidx d \<longrightarrow> de # ?c = []" by (auto simp: insert_table_def dictIsRehashing_def)
    show "distinct (map fst (entries ?d))" using distinct_fst_mset[OF ms[symmetric] dist] .
  qed simp
  moreover have "dict_map ?d = (dict_map d)(fst de \<mapsto> snd de)"
    unfolding dict_map_def using map_of_mset[OF ms dist] by simp
  moreover have "?i \<le> DICTHT_SIZE_MASK (ht_size_exp ?x)"
    using live i by (auto simp: ht_live_def DICTHT_SIZE_MASK_def)
  then have "dictInsertKeyAtLink d de (?t, ?i) = Some ?d"
    by (auto simp: dictInsertKeyAtLink_def insert_table_def put_chain_def upd_ht_def)
  ultimately show ?thesis using put_chain_stores by metis
qed

lemma unlink_stores:
  assumes ok: "dict_ok ty d" and l: "valid_link d l"
  shows "stores ty d (unlink l d) ((dict_map d)(fst (entry_at d l) := None))"
proof -
  obtain t i p where lp: "l = (t, i, p)" by (cases l)
  let ?c = "ht_table (ht d t) ! i" and ?de = "entry_at d l"
  let ?c' = "take p ?c @ drop (Suc p) ?c"
  let ?d = "put_chain t i ?c' (ht_used (ht d t) - 1) d"
  note v = link_chain[OF ok l[unfolded lp]]
  have un: "unlink l d = ?d" by (auto simp: unlink_def lp put_chain_def upd_ht_def ht_def)
  have de: "?de = ?c ! p" by (simp add: entry_at_def lp)
  have c: "?c = take p ?c @ ?de # drop (Suc p) ?c" using v(3) by (simp add: de id_take_nth_drop)
  then have mc: "mset ?c = add_mset ?de (mset ?c')" by (metis mset.simps(2) mset_append union_mset_add_mset_right)
  have "mset (entries ?d) + mset ?c = mset (entries d) + mset ?c'" using put_chain_entries[OF v(1,2)] .
  then have ms: "mset (entries d) = mset (?de # entries ?d)" using mc by simp
  have dist: "distinct (map fst (?de # entries ?d))" using distinct_fst_mset[OF ms] ok by (simp add: dict_ok_def)
  have "dict_ok ty ?d"
  proof (rule put_chain_ok[OF ok v(1,2)])
    show "\<forall>x \<in> set ?c'. masked (hashFunction ty (fst x)) (ht_size_exp (ht d t)) = i"
      using v(4) by (auto dest: in_set_takeD in_set_dropD)
    show "ht_used (ht d t) - 1 + length ?c = ht_used (ht d t) + length ?c'" using v(3,6) by simp
  qed (use v(5) dist in auto)
  moreover have "map_of (entries d) = map_of (?de # entries ?d)" using map_of_mset[OF ms dist] .
  then have "dict_map ?d = (dict_map d)(fst ?de := None)"
    using dist by (auto simp: dict_map_def map_of_eq_None_iff)
  ultimately show ?thesis unfolding un using put_chain_stores by blast
qed

lemma set_entry_stores:
  assumes ok: "dict_ok ty d" and l: "valid_link d l" and f: "fst (f (entry_at d l)) = fst (entry_at d l)"
  shows "stores ty d (set_entry l f d) ((dict_map d)(fst (entry_at d l) \<mapsto> snd (f (entry_at d l))))"
proof -
  obtain t i p where lp: "l = (t, i, p)" by (cases l)
  let ?c = "ht_table (ht d t) ! i" and ?de = "entry_at d l"
  let ?c' = "?c[p := f ?de]"
  let ?d = "put_chain t i ?c' (ht_used (ht d t)) d"
  note v = link_chain[OF ok l[unfolded lp]]
  have de: "?de = ?c ! p" by (simp add: entry_at_def lp)
  have un: "set_entry l f d = ?d" unfolding de by (auto simp: set_entry_def lp put_chain_def upd_ht_def ht_def)
  have mc: "add_mset ?de (mset ?c') = add_mset (f ?de) (mset ?c)"
    using v(3) by (simp add: de mset_update)
  have "add_mset ?de (mset (entries ?d)) + mset ?c = mset (entries d) + add_mset ?de (mset ?c')"
    using put_chain_entries[OF v(1,2), of ?c'] by simp
  also have "\<dots> = add_mset (f ?de) (mset (entries d)) + mset ?c" unfolding mc by simp
  finally have ms: "add_mset ?de (mset (entries ?d)) = add_mset (f ?de) (mset (entries d))" by simp
  have "?de \<in> set (entries d)" using entry_in_entries[OF l] .
  then obtain ys where ys: "mset (entries d) = mset (?de # ys)" by (metis ex_mset insert_DiffM mset.simps(2) set_mset_mset)
  then have ms': "mset (entries ?d) = mset (f ?de # ys)" using ms by (simp add: add_mset_commute)
  have dist: "distinct (map fst (?de # ys))" using distinct_fst_mset[OF ys] ok by (simp add: dict_ok_def)
  then have dist': "distinct (map fst (f ?de # ys))" using f by simp
  have "dict_ok ty ?d"
  proof (rule put_chain_ok[OF ok v(1,2)])
    show "\<forall>x \<in> set ?c'. masked (hashFunction ty (fst x)) (ht_size_exp (ht d t)) = i"
      using v(3,4) f by (auto simp: de dest!: subsetD[OF set_update_subset_insert])
    show "distinct (map fst (entries ?d))" using distinct_fst_mset[OF ms'[symmetric] dist'] .
  qed (use v(5) in auto)
  moreover have "dict_map ?d = (dict_map d)(fst ?de \<mapsto> snd (f ?de))"
    using map_of_mset[OF ys dist] map_of_mset[OF ms' dist'] f by (simp add: dict_map_def)
  ultimately show ?thesis unfolding un using put_chain_stores by blast
qed

section \<open>The operations compute on the map\<close>

definition looked_up :: "'k dictType \<Rightarrow> ('k, 'v) dict \<Rightarrow> 'k \<Rightarrow> link option \<Rightarrow> bucket_link option \<Rightarrow> bool" where
  "looked_up ty d key l b \<longleftrightarrow> (case l of
      Some l' \<Rightarrow> valid_link d l' \<and> fst (entry_at d l') = key
    | None \<Rightarrow> key \<notin> dom (dict_map d)
        \<and> b = Some (insert_table d, masked (hashFunction ty key) (ht_size_exp (ht d (insert_table d)))))"

lemma looked_up_map:
  assumes "dict_ok ty d" "looked_up ty d key l b"
  shows "map_option (entry_at d) l = map_option (Pair key) (dict_map d key)"
  using assms link_map[OF assms(1)] by (cases l) (auto simp: looked_up_def dom_def prod_eq_iff)

lemma table_of_nonempty: "dict_ok ty d \<Longrightarrow> dictSize d \<noteq> 0 \<Longrightarrow> ht_table (ht0 d) \<noteq> []"
  using nonempty_table[of ty d] by (auto simp: dictSize_entries)

lemma empty_map: "dict_ok ty d \<Longrightarrow> dictSize d = 0 \<Longrightarrow> dict_map d = Map.empty"
  by (simp add: dictSize_entries dict_map_def)

lemma step_ok:
  assumes ok: "dict_ok ty d"
  obtains d' where "dictRehashStepIfNeeded ty rs d (masked h (ht_size_exp (ht0 d))) = Some d'" "rearranged ty d d'"
    "int (masked h (ht_size_exp (ht0 d))) < rehashidx d' \<longrightarrow> masked h (ht_size_exp (ht0 d)) = masked h (ht_size_exp (ht0 d'))"
proof -
  have "dictIsRehashing d \<longrightarrow> masked h (ht_size_exp (ht0 d)) < length (ht_table (ht0 d))"
    using ok ht_live_masked by (auto simp: dict_ok_def)
  from dictRehashStepIfNeeded_rearranged[OF ok this, of rs] obtain d' where d':
    "dictRehashStepIfNeeded ty rs d (masked h (ht_size_exp (ht0 d))) = Some d'" "rearranged ty d d'"
    "dictIsRehashing d' \<longrightarrow> ht_size_exp (ht0 d') = ht_size_exp (ht0 d)" by blast
  moreover have "int i < rehashidx d' \<Longrightarrow> dictIsRehashing d'" for i by (simp add: dictIsRehashing_def)
  ultimately show thesis using that by auto
qed

lemma dictFindLinkInternal_ok:
  assumes ok: "dict_ok ty d" and t: "ht_table (ht0 d) \<noteq> []" and s: "want \<or> dictSize d \<noteq> 0"
  shows "\<exists>d' l b. dictFindLinkInternal ty rs d key want = Some (d', l, b) \<and> rearranged ty d d' \<and> looked_up ty d' key l b"
proof -
  let ?h = "hashFunction ty key"
  obtain d' where d': "dictRehashStepIfNeeded ty rs d (masked ?h (ht_size_exp (ht0 d))) = Some d'" "rearranged ty d d'"
    "int (masked ?h (ht_size_exp (ht0 d))) < rehashidx d' \<longrightarrow> masked ?h (ht_size_exp (ht0 d)) = masked ?h (ht_size_exp (ht0 d'))"
    using step_ok[OF ok, of rs ?h] by blast
  have "ht_table (ht0 d') \<noteq> []" using d'(2) t by (simp add: rearranged_def)
  from find_in_tables_spec[OF rearranged_ok[OF d'(2)] this d'(3)] obtain l b where
    "find_in_tables d' key ?h (masked ?h (ht_size_exp (ht0 d))) (tables d') None = Some (l, b)" "looked_up ty d' key l b"
    unfolding looked_up_def by blast
  then show ?thesis using d' s by (auto simp: dictFindLinkInternal_def Let_def)
qed

lemma dictFindLink_ok:
  assumes ok: "dict_ok ty d"
  shows "\<exists>d' l b. dictFindLink ty rs d key want = Some (d', l, b) \<and> rearranged ty d d'
    \<and> map_option (entry_at d') l = map_option (Pair key) (dict_map d key) \<and> (\<forall>l'. l = Some l' \<longrightarrow> valid_link d' l')
    \<and> (dictSize d \<noteq> 0 \<longrightarrow> looked_up ty d' key l b)"
proof (cases "dictSize d = 0")
  case True
  then show ?thesis using empty_map[OF ok True] rearranged_refl[OF ok] by (auto simp: dictFindLink_def)
next
  case False
  obtain d' l b where "dictFindLinkInternal ty rs d key want = Some (d', l, b)" "rearranged ty d d'" "looked_up ty d' key l b"
    using dictFindLinkInternal_ok[OF ok table_of_nonempty[OF ok False], of want rs key] False by blast
  moreover have "map_option (entry_at d') l = map_option (Pair key) (dict_map d key)"
    using looked_up_map[OF rearranged_ok] calculation(2,3) rearranged_map[of ty d d'] by metis
  moreover have "\<forall>l'. l = Some l' \<longrightarrow> valid_link d' l'" using calculation(3) by (auto simp: looked_up_def)
  ultimately show ?thesis using False by (auto simp: dictFindLink_def)
qed

lemma dictFind_ok:
  assumes "dict_ok ty d"
  shows "\<exists>d'. dictFind ty rs d key = Some (d', map_option (Pair key) (dict_map d key)) \<and> rearranged ty d d'"
  using dictFindLink_ok[OF assms, of rs key False] by (auto simp: dictFind_def)

lemma dictFetchValue_ok:
  assumes "dict_ok ty d"
  shows "\<exists>d'. dictFetchValue ty rs d key = Some (d', dict_map d key) \<and> rearranged ty d d'"
  using dictFind_ok[OF assms, of rs key] by (auto simp: dictFetchValue_def option.map_comp comp_def option.map_ident)

lemma dictFindLinkForInsert_ok:
  assumes ok: "dict_ok ty d" and p: "ht_table (ht0 d) \<noteq> [] \<or> pauseAutoResize d \<le> 0"
  shows "\<exists>d' l b. dictFindLinkForInsert ty rs d key = Some (d', if l = None then b else None, l)
    \<and> rearranged ty d d' \<and> looked_up ty d' key l b \<and> ht_table (ht0 d') \<noteq> []"
proof -
  let ?h = "hashFunction ty key"
  let ?i = "masked ?h (ht_size_exp (ht0 d))"
  obtain d1 where d1: "dictRehashStepIfNeeded ty rs d ?i = Some d1" "rearranged ty d d1"
    "int ?i < rehashidx d1 \<longrightarrow> ?i = masked ?h (ht_size_exp (ht0 d1))"
    using step_ok[OF ok, of rs ?h] by blast
  have "ht_table (ht0 d1) \<noteq> [] \<or> pauseAutoResize d1 \<le> 0" using p d1(2) by (auto simp: rearranged_def)
  from p_dictExpandIfNeeded_resized[OF rearranged_ok[OF d1(2)] this, of rs] obtain d2 b2 where
    d2: "p_dictExpandIfNeeded ty rs d1 = Some (d2, b2)" "resized ty d1 d2" "ht_table (ht0 d2) \<noteq> []" by blast
  have r2: "rearranged ty d1 d2" "dict_ok ty d2" using d2(2) by (auto simp: resized_def rearranged_def)
  have "int ?i < rehashidx d2 \<longrightarrow> ?i = masked ?h (ht_size_exp (ht0 d2))"
    using d2(2) d1(3) by (auto simp: resized_def)
  from find_in_tables_spec[OF r2(2) d2(3) this] obtain l b where
    "find_in_tables d2 key ?h ?i (tables d2) None = Some (l, b)" "looked_up ty d2 key l b"
    unfolding looked_up_def by blast
  then show ?thesis using d1(1) d2(1,3) rearranged_trans[OF d1(2) r2(1)]
    by (auto simp: dictFindLinkForInsert_def Let_def)
qed

lemma dictAddRaw_ok:
  assumes ok: "dict_ok ty d" and p: "ht_table (ht0 d) \<noteq> [] \<or> pauseAutoResize d \<le> 0"
  shows "\<exists>d' l. dictAddRaw ty rs d key val = Some (d', dict_map d key = None, l)
    \<and> stores ty d d' (if dict_map d key = None then (dict_map d)(key \<mapsto> val) else dict_map d)
    \<and> (dict_map d key \<noteq> None \<longrightarrow> (\<exists>l'. l = Some l' \<and> valid_link d' l' \<and> fst (entry_at d' l') = key))"
proof -
  obtain d1 l b where f: "dictFindLinkForInsert ty rs d key = Some (d1, if l = None then b else None, l)"
    "rearranged ty d d1" "looked_up ty d1 key l b" "ht_table (ht0 d1) \<noteq> []"
    using dictFindLinkForInsert_ok[OF ok p] by blast
  note m = rearranged_map[OF f(2)] and ok1 = rearranged_ok[OF f(2)]
  show ?thesis
  proof (cases l)
    case None
    have new: "key \<notin> dom (dict_map d1)" and b: "b = Some (insert_table d1, masked (hashFunction ty key) (ht_size_exp (ht d1 (insert_table d1))))"
      using f(3) None by (auto simp: looked_up_def)
    obtain d2 where "dictInsertKeyAtLink d1 (key, val) (the b) = Some d2" "stores ty d1 d2 ((dict_map d1)(key \<mapsto> val))"
      using insert_stores[OF ok1 f(4), of "(key, val)"] new b by auto
    then show ?thesis using None f(1) b new m rearranged_stores_trans[OF f(2)]
      by (auto simp: dictAddRaw_def dom_def)
  next
    case (Some l')
    then have "valid_link d1 l'" "fst (entry_at d1 l') = key" using f(3) by (auto simp: looked_up_def)
    moreover have "dict_map d key \<noteq> None" using link_map[OF ok1 calculation(1)] calculation(2) m by simp
    ultimately show ?thesis using Some f(1) rearranged_stores[OF f(2)] by (auto simp: dictAddRaw_def simp del: split_paired_Ex)
  qed
qed

lemma dictAdd_ok:
  assumes "dict_ok ty d" "ht_table (ht0 d) \<noteq> [] \<or> pauseAutoResize d \<le> 0"
  shows "\<exists>d'. dictAdd ty rs d key val = Some (d', dict_map d key = None)
    \<and> stores ty d d' (if dict_map d key = None then (dict_map d)(key \<mapsto> val) else dict_map d)"
  using dictAddRaw_ok[OF assms, of rs key val] by (auto simp: dictAdd_def)

lemma dictReplace_ok:
  assumes ok: "dict_ok ty d" and p: "ht_table (ht0 d) \<noteq> [] \<or> pauseAutoResize d \<le> 0"
  shows "\<exists>d'. dictReplace ty rs d key val = Some (d', dict_map d key = None) \<and> stores ty d d' ((dict_map d)(key \<mapsto> val))"
proof -
  obtain d' l where a: "dictAddRaw ty rs d key val = Some (d', dict_map d key = None, l)"
    "stores ty d d' (if dict_map d key = None then (dict_map d)(key \<mapsto> val) else dict_map d)"
    "dict_map d key \<noteq> None \<longrightarrow> (\<exists>l'. l = Some l' \<and> valid_link d' l' \<and> fst (entry_at d' l') = key)"
    using dictAddRaw_ok[OF ok p, of rs key val] by blast
  show ?thesis
  proof (cases "dict_map d key")
    case None
    then show ?thesis using a by (auto simp: dictReplace_def)
  next
    case (Some v)
    then obtain l' where l': "l = Some l'" "valid_link d' l'" "fst (entry_at d' l') = key" using a(3) by blast
    have s: "dict_ok ty d'" "dict_map d' = dict_map d" using a(2) Some by (auto simp: stores_def)
    have "stores ty d' (dictSetVal d' l' val) ((dict_map d)(key \<mapsto> val))"
      using set_entry_stores[OF s(1) l'(2), of "\<lambda>de. (fst de, val)"] l'(3) s(2) by (simp add: dictSetVal_def)
    then show ?thesis using a(1,2) l'(1) Some stores_trans by (fastforce simp: dictReplace_def)
  qed
qed

lemma rehashing_exp: "dict_ok ty d \<Longrightarrow> dictIsRehashing d \<longleftrightarrow> ht_size_exp (ht1 d) \<noteq> - 1"
  by (auto simp: dict_ok_def ht_live_def split: if_splits)

lemma resized_rearranged: "resized ty d d' \<Longrightarrow> rearranged ty d d'"
  by (simp add: resized_def)

lemma dictSetKeyAtLink_new_ok:
  assumes ok: "dict_ok ty d" and new: "fst de \<notin> dom (dict_map d)"
    and link: "link = None \<or> link = Some (insert_table d, masked (hashFunction ty (fst de)) (ht_size_exp (ht d (insert_table d))))"
  shows "\<exists>d'. dictSetKeyAtLink_new ty rs d de link = Some d' \<and> stores ty d d' ((dict_map d)(fst de \<mapsto> snd de))"
proof -
  let ?h = "hashFunction ty (fst de)"
  obtain d1 b1 where d1: "dictExpandIfNeeded ty rs d = Some (d1, b1)" "rearranged ty d d1" "ht_table (ht0 d1) \<noteq> []"
    using dictExpandIfNeeded_resized[OF ok, of rs] resized_rearranged by blast
  note ok1 = rearranged_ok[OF d1(2)] and m1 = rearranged_map[OF d1(2)]
  let ?moved = "ht_size_exp (ht0 d1) \<noteq> ht_size_exp (ht0 d) \<or> ht_size_exp (ht1 d1) \<noteq> ht_size_exp (ht1 d) \<or> link = None"
  obtain d2 where d2: "rearranged ty d1 d2" "ht_table (ht0 d2) \<noteq> []"
    and run: "dictSetKeyAtLink_new ty rs d de link =
      dictInsertKeyAtLink d2 de (insert_table d2, masked ?h (ht_size_exp (ht d2 (insert_table d2))))"
  proof (cases ?moved)
    case True
    obtain d2 l b where f: "dictFindLinkInternal ty rs d1 (fst de) True = Some (d2, l, b)" "rearranged ty d1 d2" "looked_up ty d2 (fst de) l b"
      using dictFindLinkInternal_ok[OF ok1 d1(3), of True rs "fst de"] by blast
    have m2: "dict_map d2 = dict_map d" using rearranged_map[OF f(2)] m1 by simp
    have "l = None"
      using looked_up_map[OF rearranged_ok[OF f(2)] f(3)] new m2 by (simp add: domIff)
    then show thesis using that[OF f(2)] f d1(1,3) True by (auto simp: dictSetKeyAtLink_new_def looked_up_def rearranged_def)
  next
    case False
    then have "insert_table d1 = insert_table d"
      using rehashing_exp[OF ok] rehashing_exp[OF ok1] by (simp add: insert_table_def)
    then have "link = Some (insert_table d1, masked ?h (ht_size_exp (ht d1 (insert_table d1))))"
      using link False by (auto simp: ht_def)
    then show thesis using that[OF rearranged_refl[OF ok1] d1(3)] d1(1) False by (auto simp: dictSetKeyAtLink_new_def)
  qed
  have "dict_map d2 = dict_map d" using rearranged_map[OF d2(1)] m1 by simp
  then obtain d' where "dictInsertKeyAtLink d2 de (insert_table d2, masked ?h (ht_size_exp (ht d2 (insert_table d2)))) = Some d'"
    "stores ty d2 d' ((dict_map d)(fst de \<mapsto> snd de))"
    using insert_stores[OF rearranged_ok[OF d2(1)] d2(2), of de] new by auto
  then show ?thesis using run rearranged_stores_trans[OF rearranged_trans[OF d1(2) d2(1)]] by auto
qed

lemma dictSetKeyAtLink_old_ok:
  assumes ok: "dict_ok ty d" and old: "fst de \<in> dom (dict_map d)"
    and link: "\<forall>l. link = Some l \<longrightarrow> valid_link d l \<and> fst (entry_at d l) = fst de"
  shows "\<exists>d'. dictSetKeyAtLink_old ty rs d de link = Some d' \<and> stores ty d d' ((dict_map d)(fst de \<mapsto> snd de))"
proof (cases link)
  case (Some l)
  then have l: "valid_link d l" "fst (entry_at d l) = fst de" using link by auto
  have "stores ty d (set_entry l (\<lambda>_. de) d) ((dict_map d)(fst de \<mapsto> snd de))"
    using set_entry_stores[OF ok l(1), of "\<lambda>_. de"] l(2) by simp
  then show ?thesis using Some by (simp add: dictSetKeyAtLink_old_def)
next
  case None
  obtain d' l b where f: "dictFindLink ty rs d (fst de) False = Some (d', l, b)" "rearranged ty d d'"
    "map_option (entry_at d') l = map_option (Pair (fst de)) (dict_map d (fst de))" "\<forall>l'. l = Some l' \<longrightarrow> valid_link d' l'"
    using dictFindLink_ok[OF ok, of rs "fst de" False] by blast
  obtain l' where l': "l = Some l'" "valid_link d' l'" "fst (entry_at d' l') = fst de" using f(3,4) old by (cases l) auto
  have "stores ty d' (set_entry l' (\<lambda>_. de) d') ((dict_map d)(fst de \<mapsto> snd de))"
    using set_entry_stores[OF rearranged_ok[OF f(2)] l'(2), of "\<lambda>_. de"] l'(3) rearranged_map[OF f(2)] by simp
  then show ?thesis using None f(1) l'(1) rearranged_stores_trans[OF f(2)] by (auto simp: dictSetKeyAtLink_old_def)
qed

lemma unlink_shrink_ok:
  assumes "dict_ok ty d" "valid_link d l"
  shows "\<exists>d'. p_dictShrinkIfNeeded ty rs (unlink l d) = Some d' \<and> stores ty d d' ((dict_map d)(fst (entry_at d l) := None))"
proof -
  note u = unlink_stores[OF assms]
  obtain d' where "p_dictShrinkIfNeeded ty rs (unlink l d) = Some d'" "rearranged ty (unlink l d) d'"
    using p_dictShrinkIfNeeded_resized[of ty "unlink l d" rs] u resized_rearranged by (auto simp: stores_def)
  then show ?thesis using stores_trans[OF u] rearranged_stores[of ty "unlink l d" d'] u by (auto simp: stores_def)
qed

lemma dictGenericDelete_ok:
  assumes ok: "dict_ok ty d"
  shows "\<exists>d'. dictGenericDelete ty rs d key = Some (d', map_option (Pair key) (dict_map d key))
    \<and> stores ty d d' ((dict_map d)(key := None))"
proof (cases "dictSize d = 0")
  case True
  then show ?thesis using empty_map[OF ok True] rearranged_stores[OF rearranged_refl[OF ok]]
    by (auto simp: dictGenericDelete_def)
next
  case False
  obtain d1 l b where f: "dictFindLinkInternal ty rs d key False = Some (d1, l, b)" "rearranged ty d d1" "looked_up ty d1 key l b"
    using dictFindLinkInternal_ok[OF ok table_of_nonempty[OF ok False], of False rs key] False by blast
  let ?h = "hashFunction ty key"
  have steps: "dictRehashStepIfNeeded ty rs d (masked ?h (ht_size_exp (ht0 d))) = Some d1"
    "find_in_tables d1 key ?h (masked ?h (ht_size_exp (ht0 d))) (tables d1) None = Some (l, b)"
    using f(1) False by (auto simp: dictFindLinkInternal_def Let_def bind_eq_Some_conv)
  note m = rearranged_map[OF f(2)] and lm = looked_up_map[OF rearranged_ok[OF f(2)] f(3)]
  show ?thesis
  proof (cases l)
    case None
    then have "dict_map d key = None" using lm m by simp
    then have "stores ty d d1 ((dict_map d)(key := None))" using rearranged_stores[OF f(2)] by (simp add: fun_upd_idem)
    then show ?thesis using steps None False \<open>dict_map d key = None\<close> by (auto simp: dictGenericDelete_def Let_def)
  next
    case (Some l')
    then have v: "valid_link d1 l'" "fst (entry_at d1 l') = key" using f(3) by (auto simp: looked_up_def)
    obtain d2 where d2: "p_dictShrinkIfNeeded ty rs (unlink l' d1) = Some d2" "stores ty d1 d2 ((dict_map d1)(key := None))"
      using unlink_shrink_ok[OF rearranged_ok[OF f(2)] v(1), of rs] v(2) by auto
    have "Some (entry_at d1 l') = map_option (Pair key) (dict_map d key)" using lm m Some by simp
    then show ?thesis using steps Some False d2 rearranged_stores_trans[OF f(2) d2(2)] m
      by (auto simp: dictGenericDelete_def Let_def)
  qed
qed

lemma dictDelete_ok:
  assumes "dict_ok ty d"
  shows "\<exists>d'. dictDelete ty rs d key = Some (d', key \<in> dom (dict_map d)) \<and> stores ty d d' ((dict_map d)(key := None))"
  using dictGenericDelete_ok[OF assms, of rs key] by (cases "dict_map d key") (auto simp: dictDelete_def dom_def)

lemma pause_simps [simp]:
  "dict_ok ty (d\<lparr>pauserehash := n\<rparr>) = dict_ok ty d" "dict_map (d\<lparr>pauserehash := n\<rparr>) = dict_map d"
  "valid_link (d\<lparr>pauserehash := n\<rparr>) l = valid_link d l" "entry_at (d\<lparr>pauserehash := n\<rparr>) l = entry_at d l"
  "accounted (d\<lparr>pauserehash := n\<rparr>) d' = accounted d d'" "accounted d' (d\<lparr>pauserehash := n\<rparr>) = accounted d' d"
  by (auto simp: dict_ok_def dict_map_def entries_def dictIsRehashing_def valid_link_def entry_at_def ht_def accounted_def
      dictBuckets_def overhead_def split: prod.split)

text \<open>The first phase of an unlink finds the entry and, if there is one, pauses rehashing; the second
  removes the entry and undoes the pause.\<close>

lemma dictTwoPhaseUnlinkFind_ok:
  assumes ok: "dict_ok ty d"
  shows "\<exists>d1 l. dictTwoPhaseUnlinkFind ty rs d key = Some (d1, l) \<and> (\<forall>l'. l = Some l' \<longrightarrow> valid_link d1 l')
    \<and> map_option (entry_at d1) l = map_option (Pair key) (dict_map d key)
    \<and> stores ty d (d1\<lparr>pauserehash := pauserehash d\<rparr>) (dict_map d) \<and> pauserehash d1 = pauserehash d + of_bool (l \<noteq> None)"
proof (cases "dictSize d = 0")
  case True
  then show ?thesis using ok empty_map[OF ok True] rearranged_stores[OF rearranged_refl[OF ok]]
    by (auto simp: dictTwoPhaseUnlinkFind_def)
next
  case False
  let ?h = "hashFunction ty key"
  obtain d0 where d0: "(if dictIsRehashing d then dictRehashStep ty rs d else Some d) = Some d0" "rearranged ty d d0"
    using dictRehashStep_rearranged[OF ok, of rs] rearranged_refl[OF ok] by (cases "dictIsRehashing d") auto
  note ok0 = rearranged_ok[OF d0(2)] and m = rearranged_map[OF d0(2)] and st = rearranged_stores[OF d0(2)]
  have "ht_table (ht0 d0) \<noteq> []" using table_of_nonempty[OF ok False] d0(2) by (simp add: rearranged_def)
  from find_in_tables_spec[OF ok0 this] obtain l b where
    f: "find_in_tables d0 key ?h (masked ?h (ht_size_exp (ht0 d0))) (tables d0) None = Some (l, b)" "looked_up ty d0 key l b"
    unfolding looked_up_def by blast
  let ?d1 = "if l = None then d0 else d0\<lparr>pauserehash := pauserehash d0 + 1\<rparr>"
  have find: "dictTwoPhaseUnlinkFind ty rs d key = Some (?d1, l)"
    using d0(1) f(1) False by (auto simp: dictTwoPhaseUnlinkFind_def Let_def)
  have "map_option (entry_at ?d1) l = map_option (Pair key) (dict_map d key)" "\<forall>l'. l = Some l' \<longrightarrow> valid_link ?d1 l'"
    using looked_up_map[OF ok0 f(2)] m f(2) by (cases l; auto simp: looked_up_def)+
  moreover have "stores ty d (?d1\<lparr>pauserehash := pauserehash d\<rparr>) (dict_map d)" "pauserehash ?d1 = pauserehash d + of_bool (l \<noteq> None)"
    using st by (auto simp: stores_def)
  ultimately show ?thesis using find by blast
qed

lemma dictTwoPhaseUnlinkFree_ok:
  assumes ok: "dict_ok ty d" and l: "valid_link d l"
  shows "\<exists>d'. dictTwoPhaseUnlinkFree ty rs d (Some l) = Some d'
    \<and> stores ty (d\<lparr>pauserehash := pauserehash d - 1\<rparr>) d' ((dict_map d)(fst (entry_at d l) := None))"
  using unlink_shrink_ok[OF assms, of rs] by (auto simp: dictTwoPhaseUnlinkFree_def stores_def)

lemma dictEmpty_ok:
  "dict_ok ty (dictEmpty d)" "dict_map (dictEmpty d) = Map.empty" "accounted d (dictEmpty d)"
  by (simp_all add: dictEmpty_def dictClear_def upd_ht_def dict_ok_def dictIsRehashing_def entries_def dict_map_def
      accounted_def announce_end_def emit_def dictBuckets_def overhead_def)

lemma dictRelease_log:
  "\<exists>evs. dictRelease d = d_log d @ evs \<and> bucket_delta evs = - int (dictBuckets d) \<and> overhead_delta evs = - overhead d
    \<and> rehash_after (dictIsRehashing d) evs = Some False"
  by (simp add: dictRelease_def announce_end_def emit_def dictBuckets_def overhead_def dictIsRehashing_def)

lemma dictSize_card:
  assumes "dict_ok ty d"
  shows "dictSize d = card (dom (dict_map d))" "finite (dom (dict_map d))"
proof -
  have "distinct (map fst (entries d))" using assms by (simp add: dict_ok_def)
  then have "card (set (map fst (entries d))) = length (entries d)" by (metis distinct_card length_map)
  then show "dictSize d = card (dom (dict_map d))" using dictSize_entries[OF assms] by (simp add: entries_dom)
  show "finite (dom (dict_map d))" by (simp add: entries_dom)
qed

section \<open>The interface\<close>

fun dict_step :: "'k dictType \<Rightarrow> dictResizeEnable \<Rightarrow> ('k, 'v) map_op \<Rightarrow> ('k, 'v) dict \<Rightarrow> (('k, 'v) dict \<times> 'v map_out) option" where
  "dict_step ty rs (Fetch k) d = map_option (\<lambda>(d', v). (d', Value v)) (dictFetchValue ty rs d k)"
| "dict_step ty rs (Add k v) d = map_option (\<lambda>(d', b). (d', Flag b)) (dictAdd ty rs d k v)"
| "dict_step ty rs (Replace k v) d = map_option (\<lambda>(d', b). (d', Flag b)) (dictReplace ty rs d k v)"
| "dict_step ty rs (Delete k) d = map_option (\<lambda>(d', b). (d', Flag b)) (dictDelete ty rs d k)"

text \<open>A dictionary whose automatic resizing is not paused.\<close>

definition dict_ready :: "'k dictType \<Rightarrow> ('k, 'v) dict \<Rightarrow> bool" where
  "dict_ready ty d \<longleftrightarrow> dict_ok ty d \<and> pauseAutoResize d \<le> 0"

lemma stores_ready: "dict_ready ty d \<Longrightarrow> stores ty d d' m \<Longrightarrow> dict_ready ty d'"
  by (simp add: dict_ready_def stores_def)

lemma dict_step_refines:
  assumes "dict_ready ty d"
  shows "\<exists>d'. dict_step ty rs x d = Some (d', snd (map_spec x (dict_map d))) \<and> stores ty d d' (fst (map_spec x (dict_map d)))"
proof -
  have ok: "dict_ok ty d" and p: "ht_table (ht0 d) \<noteq> [] \<or> pauseAutoResize d \<le> 0" using assms by (auto simp: dict_ready_def)
  show ?thesis
  proof (cases x)
    case (Fetch k)
    then show ?thesis using dictFetchValue_ok[OF ok, of rs k] rearranged_stores[of ty d] by auto
  next
    case (Add k v)
    then show ?thesis using dictAdd_ok[OF ok p, of rs k v] by auto
  next
    case (Replace k v)
    then show ?thesis using dictReplace_ok[OF ok p, of rs k v] by auto
  next
    case (Delete k)
    then show ?thesis using dictDelete_ok[OF ok, of rs k] by (auto simp: domIff)
  qed
qed

interpretation dict_machine: map_machine "dict_ready ty" dict_map "\<lambda>_ _. True" "dict_step ty" for ty
proof
  fix d :: "('a, 'b) dict" and x p
  assume "dict_ready ty d"
  from dict_step_refines[OF this, of p x] stores_ready[OF this]
  show "\<exists>d'. dict_step ty p x d = Some (d', snd (map_spec x (dict_map d))) \<and> dict_ready ty d'
    \<and> dict_map d' = fst (map_spec x (dict_map d))"
    by (auto simp: stores_def)
qed

section \<open>Properties\<close>

text \<open>C1. The hash table is a finite map. Any sequence of lookups, insertions, replacements and
  removals, with the global resize setting changing at will between them and incremental
  rehashing, expansion and shrinking going on inside, fails no assertion, reads no missing table,
  gives exactly the answers of the same operations on a map, and keeps the number of
  entries the table reports equal to the number of keys of the map.\<close>

theorem dict_refines_map:
  assumes "dict_ready ty d"
  shows "\<exists>d'. run_ops (dict_step ty) pxs d = Some (d', snd (spec_outs (map snd pxs) (dict_map d)))
    \<and> dict_map d' = fst (spec_outs (map snd pxs) (dict_map d)) \<and> dictSize d' = card (dom (dict_map d'))"
  using dict_machine.run_refines[OF assms, of pxs] dictSize_card by (fastforce simp: dict_ready_def)

definition demo_type :: "nat dictType" where
  "demo_type = \<lparr>hashFunction = of_nat, resizeAllowed = None, force_full_rehash = False\<rparr>"

theorem dict_refines_map_witness:
  "\<exists>d'. run_ops (dict_step demo_type) [(DICT_RESIZE_ENABLE, Add 3 True), (DICT_RESIZE_AVOID, Fetch 3), (DICT_RESIZE_FORBID, Delete 4)] dictCreate
     = Some (d', [Flag True, Value (Some True), Flag False]) \<and> dict_map d' = [3 \<mapsto> True]"
proof -
  have r: "dict_ready demo_type (dictCreate :: (nat, bool) dict)"
    using dictCreate_ok(1)[of demo_type] by (simp add: dict_ready_def dictCreate_def)
  have "dict_map (dictCreate :: (nat, bool) dict) = Map.empty" by (rule dictCreate_ok(2))
  then show ?thesis
    using dict_refines_map[OF r, of "[(DICT_RESIZE_ENABLE, Add 3 True), (DICT_RESIZE_AVOID, Fetch 3), (DICT_RESIZE_FORBID, Delete 4)]"]
    by (auto simp: fun_upd_idem)
qed

text \<open>C32. A step of incremental rehashing neither loses, duplicates nor changes an entry, keeps the
  invariant, and reports every change of the number of buckets and of the table being moved to
  the owner of the dictionary.\<close>

theorem rehash_keeps_entries:
  assumes "dict_ok ty d" "0 < n"
  shows "\<exists>d' again. dictRehash ty rs d n = Some (d', again) \<and> dict_ok ty d' \<and> mset (entries d') = mset (entries d)
    \<and> accounted d d' \<and> (again \<longrightarrow> dictIsRehashing d')"
  using dictRehash_rearranged[OF assms, of rs] by (auto simp: rearranged_def blocked_def)

definition demo_rehashing :: "(nat, bool) dict" where
  "demo_rehashing = \<lparr>ht0 = \<lparr>ht_table = [[], [(5, True), (1, False)], [], []], ht_used = 2, ht_size_exp = 2\<rparr>,
    ht1 = \<lparr>ht_table = replicate 8 [], ht_used = 0, ht_size_exp = 3\<rparr>, rehashidx = 0, pauserehash = 0, pauseAutoResize = 0, d_log = []\<rparr>"

lemma demo_rehashing_ok: "dict_ok demo_type demo_rehashing"
proof -
  let ?T = "[[], [(5, True), (1, False)], [], []] :: (nat \<times> bool) list list"
  have m: "masked 5 2 = 1" "masked 1 2 = 1" by (simp_all add: masked_mod)
  have "\<forall>i \<in> {0, 1, 2, 3}. \<forall>de \<in> set (?T ! i). masked (hashFunction demo_type (fst de)) 2 = i"
    by (simp add: demo_type_def m)
  moreover have "{..<length ?T} = {0, 1, 2, 3}" by auto
  ultimately have "in_place demo_type 2 ?T" unfolding in_place_def by (metis lessThan_iff)
  then have "ht_live demo_type (ht0 demo_rehashing)" by (simp add: ht_live_def demo_rehashing_def DICTHT_SIZE_def)
  moreover have "ht_live demo_type (ht1 demo_rehashing)"
    using fresh_ht_live[of 3 demo_type] by (simp add: demo_rehashing_def DICTHT_SIZE_def)
  ultimately show ?thesis by (simp add: dict_ok_def dictIsRehashing_def demo_rehashing_def entries_def)
qed

theorem rehash_keeps_entries_witness:
  "\<exists>d' again. dictRehash demo_type DICT_RESIZE_ENABLE demo_rehashing 1 = Some (d', again) \<and> mset (entries d') = {#(5, True), (1, False)#}"
  using rehash_keeps_entries[OF demo_rehashing_ok, of 1 DICT_RESIZE_ENABLE] by (auto simp: demo_rehashing_def entries_def)

text \<open>C33. The table for a request of \<^term>\<open>sz\<close> entries has at least \<^term>\<open>sz\<close> buckets, and no smaller power
  of two from 4 on has.\<close>

theorem next_exp_is_least:
  assumes "int sz < LLONG_MAX"
  shows "sz \<le> DICTHT_SIZE (dictNextExp sz) \<and> 4 \<le> DICTHT_SIZE (dictNextExp sz)
    \<and> (\<forall>e. sz \<le> 2 ^ e \<and> 2 \<le> e \<longrightarrow> DICTHT_SIZE (dictNextExp sz) \<le> 2 ^ e)"
proof -
  have e: "2 \<le> dictNextExp sz" using dictNextExp_range by blast
  then have "(2 :: nat) ^ 2 \<le> 2 ^ nat (dictNextExp sz)" by (intro power_increasing) auto
  then have "4 \<le> DICTHT_SIZE (dictNextExp sz)" using e by (simp add: DICTHT_SIZE_def)
  moreover have "DICTHT_SIZE (dictNextExp sz) \<le> 2 ^ e" if "sz \<le> 2 ^ e" "2 \<le> e" for e
  proof (cases "sz \<le> 4")
    case True
    have "(2 :: nat) ^ 2 \<le> 2 ^ e" using that(2) by (intro power_increasing) auto
    then show ?thesis using True by (simp add: dictNextExp_def DICTHT_SIZE_def)
  qed (use dictNextExp_least(2)[OF assms, of e] that in auto)
  ultimately show ?thesis using dictNextExp_least(1)[OF assms] by blast
qed

theorem next_exp_is_least_witness: "9 \<le> DICTHT_SIZE (dictNextExp 9) \<and> DICTHT_SIZE (dictNextExp 9) \<le> 2 ^ 4"
  using next_exp_is_least[of 9] by (auto dest!: spec[of _ "4 :: nat"])

end
