(* ===== verification/FwTree.thy ===== *)
theory FwTree
  imports Prelude
begin

text \<open>
  The Fenwick tree of \<^verbatim>\<open>src/src/fwtree.c\<close>, which keeps cumulative key counts per slot. The node
  array holds 64 bit words and indices are naturals once the guards on negative values have
  passed; a read outside the array and a failing \<^verbatim>\<open>assert\<close> have no result. The specification
  is the plain array of counts, and each operation is proved to compute on it.
\<close>

unbundle bit_operations_syntax

section \<open>The tree\<close>

record fenwickTree =
  ft_tree :: "u64 list"
  ft_size_bits :: nat
  ft_size :: nat
  ft_total :: u64

definition fwTreeCreate :: "nat \<Rightarrow> fenwickTree" where
  "fwTreeCreate sizeBits =
    \<lparr>ft_tree = replicate (2 ^ sizeBits + 1) 0, ft_size_bits = sizeBits, ft_size = 2 ^ sizeBits, ft_total = 0\<rparr>"

text \<open>\<^verbatim>\<open>idx & -idx\<close>.\<close>

definition lowbit :: "nat \<Rightarrow> nat" where
  "lowbit n = nat (int n AND - int n)"

section \<open>The lowest set bit\<close>

lemma and_minus_odd: "odd (a :: int) \<Longrightarrow> a AND - a = 1"
proof -
  assume "odd a"
  then obtain b where b: "a = 2 * b + 1" by (auto elim: oddE)
  then have "- a = 2 * (NOT b) + 1" by (simp add: not_int_def)
  then show ?thesis using b by (simp add: and_rec[of "2 * b + 1"])
qed

lemma lowbit_odd_times: "odd m \<Longrightarrow> lowbit (2 ^ k * m) = 2 ^ k"
proof -
  assume "odd m"
  then have "int m AND - int m = 1" by (simp add: and_minus_odd)
  then have "push_bit k (int m) AND push_bit k (- int m) = push_bit k 1"
    by (simp flip: push_bit_and)
  then show ?thesis by (simp add: lowbit_def push_bit_eq_mult mult.commute nat_power_eq)
qed

lemma odd_part: "0 < n \<Longrightarrow> \<exists>k m. n = 2 ^ k * m \<and> odd (m :: nat)"
proof (induction n rule: less_induct)
  case (less n)
  show ?case
  proof (cases "odd n")
    case True
    then show ?thesis by (intro exI[of _ 0] exI[of _ n]) simp
  next
    case False
    then obtain h where h: "n = 2 * h" by (auto elim: evenE)
    then obtain k m where "h = 2 ^ k * m" "odd m" using less.IH[of h] less.prems by auto
    then show ?thesis using h by (intro exI[of _ "Suc k"] exI[of _ m]) simp
  qed
qed

text \<open>The lowest set bit of a positive number, by divisibility.\<close>

lemma lowbit_cases:
  assumes "0 < n"
  obtains k where "lowbit n = 2 ^ k" "2 ^ k dvd n" "2 ^ Suc k dvd n + 2 ^ k" "2 ^ Suc k dvd n - 2 ^ k" "2 ^ k \<le> n"
proof -
  obtain k m where n: "n = 2 ^ k * m" "odd m" using odd_part[OF assms] by blast
  obtain b where b: "m = 2 * b + 1" using n(2) by (auto elim: oddE)
  have sums: "n + 2 ^ k = 2 ^ Suc k * (b + 1)" "n - 2 ^ k = 2 ^ Suc k * b" "n = 2 ^ k + 2 ^ Suc k * b"
    using n(1) b by (simp_all add: algebra_simps)
  show thesis
  proof (rule that[of k])
    show "lowbit n = 2 ^ k" using lowbit_odd_times[OF n(2)] n(1) by simp
    show "2 ^ k dvd n" using n(1) by simp
    show "2 ^ Suc k dvd n + 2 ^ k" unfolding sums(1) by (rule dvd_triv_left)
    show "2 ^ Suc k dvd n - 2 ^ k" unfolding sums(2) by (rule dvd_triv_left)
    show "2 ^ k \<le> n" using sums(3) by simp
  qed
qed

lemma lowbit_pos [simp]: "0 < n \<Longrightarrow> 0 < lowbit n"
  by (erule lowbit_cases) simp

lemma lowbit_le: "0 < n \<Longrightarrow> lowbit n \<le> n"
  by (erule lowbit_cases) simp

lemma lowbit_add:
  assumes "2 ^ Suc k dvd r"
  shows "lowbit (r + 2 ^ k) = 2 ^ k"
proof -
  obtain b where "r = 2 ^ Suc k * b" using assms by (rule dvdE)
  then have eq: "r + 2 ^ k = 2 ^ k * (2 * b + 1)" by (simp add: algebra_simps)
  show ?thesis unfolding eq by (rule lowbit_odd_times) simp
qed

lemma dvd_gap: "(d :: nat) dvd a \<Longrightarrow> d dvd b \<Longrightarrow> a < b \<Longrightarrow> a + d \<le> b"
  by (metis add.commute dvd_diff_nat dvd_imp_le le_diff_conv less_imp_le_nat zero_less_diff le_diff_conv2)

text \<open>The nodes that cover an index are visited by the ascent from it: going from \<^term>\<open>p\<close> to the next
  index loses no node above \<^term>\<open>p\<close> and adds none.\<close>

lemma cover_step:
  assumes p: "0 < p" and i: "p < i"
  shows "i - lowbit i < p \<longleftrightarrow> p + lowbit p \<le> i \<and> i - lowbit i < p + lowbit p"
proof -
  obtain k where k: "lowbit p = 2 ^ k" "2 ^ k dvd p" "2 ^ Suc k dvd p + 2 ^ k" "2 ^ Suc k dvd p - 2 ^ k" "2 ^ k \<le> p"
    using lowbit_cases[OF p] by blast
  obtain l where l: "lowbit i = 2 ^ l" "2 ^ l dvd i" "2 ^ Suc l dvd i + 2 ^ l" "2 ^ Suc l dvd i - 2 ^ l" "2 ^ l \<le> i"
    using lowbit_cases[of i] p i by auto
  have pos: "(0 :: nat) < 2 ^ k" "(0 :: nat) < 2 ^ l" by simp_all
  show ?thesis
  proof
    assume near: "i - lowbit i < p"
    have "k < l"
    proof (rule ccontr)
      assume "\<not> k < l"
      then have "(2 :: nat) ^ l dvd p" using k(2) by (meson dvd_trans le_imp_power_dvd linorder_not_less)
      from dvd_gap[OF this l(2) i] near l(1) show False by linarith
    qed
    then have "(2 :: nat) ^ Suc k dvd i" using l(2) by (meson Suc_leI dvd_trans le_imp_power_dvd)
    from dvd_gap[OF k(4) this] i have "p - 2 ^ k + 2 ^ Suc k \<le> i" by simp
    then show "p + lowbit p \<le> i \<and> i - lowbit i < p + lowbit p" using k(1,5) near by simp
  next
    assume far: "p + lowbit p \<le> i \<and> i - lowbit i < p + lowbit p"
    show "i - lowbit i < p"
    proof (rule ccontr)
      assume no: "\<not> i - lowbit i < p"
      show False
      proof (cases "k \<le> l")
        case True
        then have "(2 :: nat) ^ Suc k dvd i - 2 ^ l" using l(4) by (meson Suc_le_mono dvd_trans le_imp_power_dvd)
        from dvd_gap[OF k(4) this] no l(1) k(5) pos have "p - 2 ^ k + 2 ^ Suc k \<le> i - 2 ^ l" by linarith
        then show False using far k(1,5) l(1) by simp
      next
        case False
        then have "(2 :: nat) ^ Suc l dvd p + 2 ^ k" using k(3) by (meson Suc_le_mono dvd_trans le_imp_power_dvd nat_le_linear)
        from dvd_gap[OF l(4) this] far k(1) l(1) have "i - 2 ^ l + 2 ^ Suc l \<le> p + 2 ^ k" by simp
        then show False using far k(1) l(5) pos by simp
      qed
    qed
  qed
qed

section \<open>Operations\<close>

text \<open>The loop of \<^verbatim>\<open>fwTreePrefixSum\<close>. The subtraction makes the index smaller, because the
  lowest set bit of a positive number is positive.\<close>

function prefix_loop :: "u64 list \<Rightarrow> nat \<Rightarrow> u64 \<Rightarrow> u64" where
  "prefix_loop tree idx acc =
    (if 0 < idx then prefix_loop tree (idx - lowbit idx) (acc + tree ! idx) else acc)"
  by auto
termination
  by (relation "measure (\<lambda>(_, idx, _). idx)") (auto simp: lowbit_le)

definition fwTreePrefixSum :: "fenwickTree option \<Rightarrow> int \<Rightarrow> u64" where
  "fwTreePrefixSum p idx = (case p of None \<Rightarrow> 0 | Some ft \<Rightarrow>
    if idx < 0 then 0
    else prefix_loop (ft_tree ft) (Suc (nat (if int (ft_size ft) \<le> idx then int (ft_size ft) - 1 else idx))) 0)"

text \<open>The loop of \<^verbatim>\<open>fwTreeUpdate\<close>; a failing \<^verbatim>\<open>assert\<close> ends the process. The index is positive
  when the loop is entered and grows.\<close>

function update_loop :: "nat \<Rightarrow> int \<Rightarrow> u64 list \<Rightarrow> nat \<Rightarrow> u64 list option" where
  "update_loop sz delta tree idx =
    (if 0 < idx \<and> idx \<le> sz
     then if delta < 0 \<and> \<not> word_of_int (- delta) \<le> tree ! idx then None
          else update_loop sz delta (tree[idx := tree ! idx + word_of_int delta]) (idx + lowbit idx)
     else Some tree)"
  by auto
termination
  by (relation "measure (\<lambda>(sz, _, _, idx). Suc sz - idx)") (auto intro!: diff_less_mono2)

definition fwTreeUpdate :: "fenwickTree option \<Rightarrow> int \<Rightarrow> int \<Rightarrow> fenwickTree option option" where
  "fwTreeUpdate p idx delta = (case p of None \<Rightarrow> Some None | Some ft \<Rightarrow>
    if idx < 0 \<or> int (ft_size ft) \<le> idx then Some (Some ft)
    else (case update_loop (ft_size ft) delta (ft_tree ft) (Suc (nat idx)) of
        None \<Rightarrow> None
      | Some tree \<Rightarrow> Some (Some (ft\<lparr>ft_total := ft_total ft + word_of_int delta, ft_tree := tree\<rparr>))))"

text \<open>The descent of \<^verbatim>\<open>fwTreeFindIndex\<close>. Reading past the end of the node array has no result.\<close>

function find_loop :: "u64 list \<Rightarrow> u64 \<Rightarrow> nat \<Rightarrow> nat \<Rightarrow> nat option" where
  "find_loop tree target result i =
    (if i = 0 then Some result
     else let current = result + i in
       if length tree \<le> current then None
       else if tree ! current < target then find_loop tree (target - tree ! current) current (i div 2)
       else find_loop tree target result (i div 2))"
  by auto
termination
  by (relation "measure (\<lambda>(_, _, _, i). i)") auto

definition fwTreeFindIndex :: "fenwickTree \<Rightarrow> u64 \<Rightarrow> nat option" where
  "fwTreeFindIndex ft target =
    (if target \<le> 0 then Some 0 else find_loop (ft_tree ft) target 0 (2 ^ ft_size_bits ft))"

definition fwTreeFindFirstNonEmpty :: "fenwickTree \<Rightarrow> nat option" where
  "fwTreeFindFirstNonEmpty ft = fwTreeFindIndex ft 1"

definition fwTreeFindNextNonEmpty :: "fenwickTree option \<Rightarrow> int \<Rightarrow> int option" where
  "fwTreeFindNextNonEmpty p idx = (case p of None \<Rightarrow> Some (- 1) | Some ft \<Rightarrow>
    if idx < 0 \<or> int (ft_size ft) \<le> idx then Some (- 1)
    else let next_sum = fwTreePrefixSum p idx + 1 in
      if next_sum \<le> ft_total ft then map_option int (fwTreeFindIndex ft next_sum) else Some (- 1))"

definition fwTreeClear :: "fenwickTree \<Rightarrow> fenwickTree" where
  "fwTreeClear ft = ft\<lparr>ft_tree := replicate (ft_size ft + 1) 0, ft_total := 0\<rparr>"

declare prefix_loop.simps [simp del] update_loop.simps [simp del] find_loop.simps [simp del]

section \<open>The array of counts\<close>

definition psum :: "nat list \<Rightarrow> nat \<Rightarrow> nat" where
  "psum a n = sum_list (take n a)"

text \<open>The tree represents the array of counts \<^term>\<open>a\<close>: node \<^term>\<open>i\<close> holds the sum of the
  \<^term>\<open>lowbit i\<close> counts that end at it, and no sum overflows. The bound on the bits keeps the
  indices of the ascent, at most twice the size, inside a C \<^verbatim>\<open>int\<close>.\<close>

definition fw_rep :: "fenwickTree \<Rightarrow> nat list \<Rightarrow> bool" where
  "fw_rep ft a \<longleftrightarrow> ft_size_bits ft < 30 \<and> ft_size ft = 2 ^ ft_size_bits ft \<and> length a = ft_size ft
    \<and> length (ft_tree ft) = Suc (ft_size ft)
    \<and> (\<forall>i. 0 < i \<and> i \<le> ft_size ft \<longrightarrow> ft_tree ft ! i = of_nat (psum a i) - of_nat (psum a (i - lowbit i)))
    \<and> ft_total ft = of_nat (sum_list a) \<and> sum_list a < 2 ^ 64"

lemma psum_0 [simp]: "psum a 0 = 0"
  by (simp add: psum_def)

lemma psum_all [simp]: "length a \<le> n \<Longrightarrow> psum a n = sum_list a"
  by (simp add: psum_def)

lemma psum_Suc: "n < length a \<Longrightarrow> psum a (Suc n) = psum a n + a ! n"
  by (simp add: psum_def take_Suc_conv_app_nth)

lemma psum_mono: "i \<le> j \<Longrightarrow> psum a i \<le> psum a j"
  by (metis psum_def le_add1 le_Suc_ex sum_list_append take_add)

lemma psum_le: "psum a i \<le> sum_list a"
  using psum_mono[of i "i + length a" a] by simp

lemma psum_update:
  assumes "k < length a"
  shows "psum (a[k := v]) n + (if k < n then a ! k else 0) = psum a n + (if k < n then v else 0)"
proof (cases "k < n")
  case True
  then have k: "k < length (take n a)" using assms by simp
  have "sum_list ((take n a)[k := v]) + take n a ! k = sum_list (take n a) + v"
    using k elem_le_sum_list[OF k] True by (simp add: sum_list_update)
  then show ?thesis using True by (simp add: psum_def take_update_swap)
qed (simp add: psum_def)

lemma fw_rep_size: "fw_rep ft a \<Longrightarrow> ft_size ft = length a"
  by (simp add: fw_rep_def)

lemma fw_rep_node:
  assumes rep: "fw_rep ft a" and i: "0 < i" "i \<le> length a"
  shows "ft_tree ft ! i = of_nat (psum a i - psum a (i - lowbit i))"
  using assms psum_mono[of "i - lowbit i" i a] by (simp add: fw_rep_def of_nat_diff)

lemma unat_count: "n \<le> sum_list a \<Longrightarrow> sum_list a < 2 ^ 64 \<Longrightarrow> unat (of_nat n :: u64) = n"
  by (simp add: unat_of_nat take_bit_nat_eq_self)

lemma fwTreeCreate_rep: "bits < 30 \<Longrightarrow> fw_rep (fwTreeCreate bits) (replicate (2 ^ bits) 0)"
  by (simp add: fw_rep_def fwTreeCreate_def psum_def sum_list_replicate nth_append nth_Cons' del: replicate.simps)

lemma fwTreeClear_rep: "fw_rep ft a \<Longrightarrow> fw_rep (fwTreeClear ft) (replicate (length a) 0)"
  by (auto simp: fw_rep_def fwTreeClear_def psum_def sum_list_replicate simp del: replicate.simps)

section \<open>Prefix sums\<close>

lemma prefix_loop_sum:
  assumes "fw_rep ft a" "idx \<le> length a"
  shows "prefix_loop (ft_tree ft) idx acc = acc + of_nat (psum a idx)"
  using assms
proof (induction idx arbitrary: acc rule: less_induct)
  case (less idx)
  show ?case
  proof (cases "0 < idx")
    case True
    then have "idx - lowbit idx < idx" by simp
    note IH = less.IH[OF this less.prems(1)]
    have "ft_tree ft ! idx = of_nat (psum a idx) - of_nat (psum a (idx - lowbit idx))"
      using less.prems True by (simp add: fw_rep_def)
    then show ?thesis using IH less.prems(2) True by (simp add: prefix_loop.simps[of _ idx])
  qed (simp add: prefix_loop.simps)
qed

section \<open>Updates\<close>

text \<open>The ascent from \<^term>\<open>idx\<close> adds to exactly the nodes that cover it.\<close>

definition covers :: "nat \<Rightarrow> nat \<Rightarrow> bool" where
  "covers idx i \<longleftrightarrow> i - lowbit i < idx \<and> idx \<le> i"

lemma covers_self: "0 < idx \<Longrightarrow> covers idx idx"
  by (simp add: covers_def)

lemma covers_next: "0 < idx \<Longrightarrow> i \<noteq> idx \<Longrightarrow> covers (idx + lowbit idx) i \<longleftrightarrow> covers idx i"
  using cover_step[of idx i] lowbit_pos[of idx] by (cases "idx < i") (auto simp: covers_def)

lemma update_loop_covers:
  assumes "0 < idx" "length tree = Suc sz"
    and "\<And>i. covers idx i \<Longrightarrow> i \<le> sz \<Longrightarrow> 0 \<le> delta \<or> word_of_int (- delta) \<le> tree ! i"
  shows "\<exists>tree'. update_loop sz delta tree idx = Some tree' \<and> length tree' = Suc sz
    \<and> (\<forall>i\<le> sz. tree' ! i = tree ! i + (if covers idx i then word_of_int delta else 0))"
  using assms
proof (induction "Suc sz - idx" arbitrary: idx tree rule: less_induct)
  case less
  show ?case
  proof (cases "idx \<le> sz")
    case True
    let ?t = "tree[idx := tree ! idx + word_of_int delta]"
    have ok: "\<not> (delta < 0 \<and> \<not> word_of_int (- delta) \<le> tree ! idx)"
      using less.prems(3)[OF covers_self[OF less.prems(1)] True] by auto
    have "Suc sz - (idx + lowbit idx) < Suc sz - idx" using True lowbit_pos[OF less.prems(1)] by linarith
    moreover have "0 \<le> delta \<or> word_of_int (- delta) \<le> ?t ! i" if "covers (idx + lowbit idx) i" "i \<le> sz" for i
    proof -
      have "i \<noteq> idx" using that(1) lowbit_pos[OF less.prems(1)] by (auto simp: covers_def)
      then show ?thesis using less.prems(3)[of i] that covers_next[OF less.prems(1)] by simp
    qed
    ultimately obtain t' where t': "update_loop sz delta ?t (idx + lowbit idx) = Some t'" "length t' = Suc sz"
      "\<forall>i\<le> sz. t' ! i = ?t ! i + (if covers (idx + lowbit idx) i then word_of_int delta else 0)"
      using less.hyps[of "idx + lowbit idx" ?t] less.prems(1,2) by auto
    have "t' ! i = tree ! i + (if covers idx i then word_of_int delta else 0)" if "i \<le> sz" for i
    proof (cases "i = idx")
      case True
      have "\<not> covers (idx + lowbit idx) idx" using lowbit_pos[OF less.prems(1)] by (simp add: covers_def)
      then show ?thesis using t'(3) that True less.prems(1,2) by (simp add: covers_self)
    next
      case False
      then show ?thesis using t'(3) that covers_next[OF less.prems(1) False] by simp
    qed
    then show ?thesis using t'(1,2) True ok less.prems(1) by (simp add: update_loop.simps[of _ _ tree])
  next
    case False
    then have "\<not> covers idx i" if "i \<le> sz" for i using that by (simp add: covers_def)
    then show ?thesis using False less.prems(2) by (simp add: update_loop.simps)
  qed
qed

lemma of_nat_add_int: "0 \<le> int n + d \<Longrightarrow> (of_nat (nat (int n + d)) :: u64) = of_nat n + word_of_int d"
  by (metis nat_0_le of_int_add of_int_of_nat_eq)

text \<open>The node sums of the updated array.\<close>

lemma psum_plus:
  assumes "k < length a" "0 \<le> int (a ! k) + d"
  shows "(of_nat (psum (a[k := nat (int (a ! k) + d)]) n) :: u64)
    = of_nat (psum a n) + (if k < n then word_of_int d else 0)"
proof -
  have "(of_nat (psum (a[k := nat (int (a ! k) + d)]) n + (if k < n then a ! k else 0)) :: u64)
      = of_nat (psum a n + (if k < n then nat (int (a ! k) + d) else 0))"
    using psum_update[OF assms(1)] by simp
  then show ?thesis using of_nat_add_int[OF assms(2)] by (simp split: if_splits)
qed

lemma node_ge:
  assumes "fw_rep ft a" "covers (Suc k) i" "i \<le> length a" "k < length a"
  shows "a ! k \<le> unat (ft_tree ft ! i)"
proof -
  have i: "0 < i" "i - lowbit i \<le> k" "Suc k \<le> i" using assms(2) by (auto simp: covers_def)
  have "psum a (i - lowbit i) + a ! k \<le> psum a i"
    using psum_mono[OF i(2), of a] psum_mono[OF i(3), of a] psum_Suc[OF assms(4)] by linarith
  moreover have "unat (ft_tree ft ! i) = psum a i - psum a (i - lowbit i)"
    unfolding fw_rep_node[OF assms(1) i(1) assms(3)]
    by (rule unat_count[of _ a]) (use psum_le[of a i] assms(1) in \<open>auto simp: fw_rep_def\<close>)
  ultimately show ?thesis by linarith
qed

lemma neg_le_node: "d < 0 \<Longrightarrow> 0 \<le> int n + d \<Longrightarrow> n \<le> unat (w :: u64) \<Longrightarrow> word_of_int (- d) \<le> w"
proof -
  assume d: "d < 0" "0 \<le> int n + d" "n \<le> unat w"
  have "(word_of_int (- d) :: u64) = of_nat (nat (- d))" using d(1) by (metis nat_0_le neg_0_le_iff_le of_int_of_nat_eq order_less_imp_le)
  moreover have "nat (- d) \<le> unat w" using d by linarith
  then have "(of_nat (nat (- d)) :: u64) \<le> w"
    using unsigned_less[of w] by (simp add: word_le_nat_alt unat_of_nat take_bit_nat_eq_self)
  ultimately show ?thesis by simp
qed

lemma fwTreeUpdate_rep:
  assumes rep: "fw_rep ft a" and k: "k < length a" and d: "0 \<le> int (a ! k) + d"
    and tot: "int (sum_list a) + d < 2 ^ 64"
  shows "\<exists>ft'. fwTreeUpdate (Some ft) (int k) d = Some (Some ft') \<and> fw_rep ft' (a[k := nat (int (a ! k) + d)])"
proof -
  let ?a = "a[k := nat (int (a ! k) + d)]"
  have sz: "ft_size ft = length a" "length (ft_tree ft) = Suc (length a)" using rep by (auto simp: fw_rep_def)
  have "0 \<le> d \<or> word_of_int (- d) \<le> ft_tree ft ! i" if "covers (Suc k) i" "i \<le> length a" for i
    using neg_le_node[OF _ d node_ge[OF rep that k]] by fastforce
  then obtain t where t: "update_loop (length a) d (ft_tree ft) (Suc k) = Some t" "length t = Suc (length a)"
    "\<forall>i\<le>length a. t ! i = ft_tree ft ! i + (if covers (Suc k) i then word_of_int d else 0)"
    using update_loop_covers[of "Suc k" "ft_tree ft" "length a" d] sz by auto
  let ?ft = "ft\<lparr>ft_total := ft_total ft + word_of_int d, ft_tree := t\<rparr>"
  have total: "(of_nat (sum_list ?a) :: u64) = of_nat (sum_list a) + word_of_int d"
    using psum_plus[OF k d, of "length a"] k by simp
  have "a ! k \<le> sum_list a" using k by (rule elem_le_sum_list)
  then have "int (sum_list ?a) = int (sum_list a) + d" using k d by (simp add: sum_list_update)
  then have small: "sum_list ?a < 2 ^ 64" using tot by (simp flip: of_nat_less_iff[where 'a = int])
  have "t ! i = of_nat (psum ?a i) - of_nat (psum ?a (i - lowbit i))" if i: "0 < i" "i \<le> length a" for i
  proof -
    have "ft_tree ft ! i = of_nat (psum a i) - of_nat (psum a (i - lowbit i))"
      using rep i by (simp add: fw_rep_def)
    moreover have "covers (Suc k) i \<longleftrightarrow> k < i \<and> \<not> k < i - lowbit i" using i by (auto simp: covers_def)
    moreover have "k < i - lowbit i \<Longrightarrow> k < i" by simp
    ultimately show ?thesis using t(3) i unfolding psum_plus[OF k d] by auto
  qed
  then have "fw_rep ?ft ?a" using rep t(2) total small by (auto simp: fw_rep_def)
  then show ?thesis using t(1) k sz by (simp add: fwTreeUpdate_def)
qed

section \<open>Finding an index\<close>

text \<open>\<^term>\<open>x\<close> is where the running sum first reaches \<^term>\<open>T\<close>.\<close>

definition reaches :: "nat list \<Rightarrow> nat \<Rightarrow> nat \<Rightarrow> bool" where
  "reaches a T x \<longleftrightarrow> x < length a \<and> psum a x < T \<and> T \<le> psum a (Suc x)"

lemma reaches_least: "reaches a T x \<Longrightarrow> T \<le> psum a (Suc j) \<Longrightarrow> x \<le> j"
  using psum_mono[of "Suc j" x a] by (force simp: reaches_def not_less_eq_eq)

lemma reaches_nonempty: "reaches a T x \<Longrightarrow> 0 < a ! x"
  by (auto simp: reaches_def psum_Suc)

lemma find_loop_reaches:
  assumes rep: "fw_rep ft a"
  shows "2 ^ k dvd r \<Longrightarrow> r + 2 ^ k \<le> length a \<Longrightarrow> psum a r < T \<Longrightarrow> T \<le> psum a (r + 2 ^ k)
    \<Longrightarrow> \<exists>x. find_loop (ft_tree ft) (of_nat (T - psum a r)) r (2 ^ k div 2) = Some x \<and> reaches a T x"
proof (induction k arbitrary: r)
  case 0
  then show ?case by (simp add: find_loop.simps reaches_def)
next
  case (Suc k)
  let ?c = "r + 2 ^ k"
  have half: "(2 :: nat) ^ Suc k div 2 = 2 ^ k" by simp
  have c: "?c \<le> length a" "0 < ?c" using Suc.prems(2) by auto
  have node: "ft_tree ft ! ?c = of_nat (psum a ?c - psum a r)"
    using fw_rep_node[OF rep c(2,1)] lowbit_add[OF Suc.prems(1)] by simp
  have len: "\<not> length (ft_tree ft) \<le> ?c" using rep c by (simp add: fw_rep_def)
  have sml: "sum_list a < 2 ^ 64" using rep by (simp add: fw_rep_def)
  have T: "T \<le> sum_list a" using Suc.prems(4) psum_le[of a "r + 2 ^ Suc k"] by linarith
  have u: "unat (of_nat (psum a ?c - psum a r) :: u64) = psum a ?c - psum a r"
    "unat (of_nat (T - psum a r) :: u64) = T - psum a r"
    by (rule unat_count[OF _ sml], use psum_le[of a ?c] T in linarith)+
  have cmp: "ft_tree ft ! ?c < of_nat (T - psum a r) \<longleftrightarrow> psum a ?c < T"
    unfolding node word_less_nat_alt u using psum_mono[of r ?c a] Suc.prems(3) by auto
  have dv: "(2 :: nat) ^ k dvd r" "(2 :: nat) ^ k dvd ?c" using Suc.prems(1) by (auto intro: dvd_trans[OF le_imp_power_dvd[of k "Suc k"]])
  have step: "find_loop (ft_tree ft) (of_nat (T - psum a r)) r (2 ^ k) =
      (if psum a ?c < T then find_loop (ft_tree ft) (of_nat (T - psum a r) - ft_tree ft ! ?c) ?c (2 ^ k div 2)
       else find_loop (ft_tree ft) (of_nat (T - psum a r)) r (2 ^ k div 2))"
    using cmp len by (simp add: find_loop.simps[of _ _ r "2 ^ k"] Let_def)
  show ?case
  proof (cases "psum a ?c < T")
    case True
    have "(of_nat (T - psum a r) :: u64) - ft_tree ft ! ?c = of_nat (T - psum a ?c)"
      using True psum_mono[of r ?c a] Suc.prems(3) unfolding node by (simp add: of_nat_diff)
    then show ?thesis using Suc.IH[OF dv(2) _ True] Suc.prems(2,4) True
      unfolding half step by (simp add: add.assoc flip: mult_2)
  next
    case False
    then show ?thesis using Suc.IH[OF dv(1) c(1) Suc.prems(3)] unfolding half step by simp
  qed
qed

lemma fwTreeFindIndex_reaches:
  assumes rep: "fw_rep ft a" and T: "0 < T" "T \<le> sum_list a"
  shows "\<exists>x. fwTreeFindIndex ft (of_nat T) = Some x \<and> reaches a T x"
proof -
  let ?n = "2 ^ ft_size_bits ft"
  have n: "length a = ?n" "length (ft_tree ft) = Suc ?n" "sum_list a < 2 ^ 64" using rep by (auto simp: fw_rep_def)
  have u: "unat (of_nat T :: u64) = T" using unat_count[OF T(2) n(3)] .
  have "lowbit ?n = ?n" using lowbit_odd_times[of 1] by simp
  then have "ft_tree ft ! ?n = of_nat (sum_list a)" using fw_rep_node[OF rep, of ?n] n(1) by simp
  then have "\<not> ft_tree ft ! ?n < of_nat T" using u unat_count[OF le_refl n(3)] T(2) by (simp add: word_less_nat_alt)
  then have "find_loop (ft_tree ft) (of_nat T) 0 ?n = find_loop (ft_tree ft) (of_nat T) 0 (?n div 2)"
    using n(2) by (simp add: find_loop.simps[of _ _ 0 ?n] Let_def)
  moreover have "(of_nat T :: u64) \<noteq> 0" using u T(1) by auto
  ultimately show ?thesis
    using find_loop_reaches[OF rep, of "ft_size_bits ft" 0 T] n(1) T by (simp add: fwTreeFindIndex_def)
qed

lemma fwTreePrefixSum_psum:
  assumes "fw_rep ft a"
  shows "fwTreePrefixSum (Some ft) idx = of_nat (psum a (nat (idx + 1)))"
proof (cases "idx < 0")
  case False
  have "0 < length a" using assms by (simp add: fw_rep_def)
  show ?thesis
  proof (cases "int (length a) \<le> idx")
    case True
    then have "Suc (nat (int (length a) - 1)) = length a" using \<open>0 < length a\<close> by arith
    then show ?thesis using assms False True by (simp add: fwTreePrefixSum_def prefix_loop_sum fw_rep_size)
  next
    case inside: False
    then have "Suc (nat idx) = nat (idx + 1)" "nat (idx + 1) \<le> length a" using False by auto
    then show ?thesis using assms False inside by (simp add: fwTreePrefixSum_def prefix_loop_sum fw_rep_size)
  qed
qed (simp add: fwTreePrefixSum_def)

section \<open>The interface\<close>

text \<open>What the users of the tree rely on: a representation of an array of counts with prefix
  sums and the search for the index where the running sum reaches a target.\<close>

definition next_nonempty :: "nat list \<Rightarrow> nat \<Rightarrow> nat \<Rightarrow> bool" where
  "next_nonempty a k x \<longleftrightarrow> k \<le> x \<and> x < length a \<and> 0 < a ! x \<and> (\<forall>j. k \<le> j \<and> j < x \<longrightarrow> a ! j = 0)"

lemma psum_gap: "k \<le> j \<Longrightarrow> j < length a \<Longrightarrow> psum a j \<le> psum a k \<Longrightarrow> (\<forall>i. k \<le> i \<and> i < j \<longrightarrow> a ! i = 0)"
proof (intro allI impI, elim conjE)
  fix i assume j: "k \<le> j" "j < length a" "psum a j \<le> psum a k" and i: "k \<le> i" "i < j"
  have "psum a k \<le> psum a i" "psum a (Suc i) \<le> psum a j" using i by (auto intro: psum_mono)
  then show "a ! i = 0" using psum_Suc[of i a] i j by simp
qed

lemma reaches_next:
  assumes "reaches a (Suc (psum a k)) x" "k < length a"
  shows "next_nonempty a k x"
proof -
  have x: "x < length a" "psum a x \<le> psum a k" "psum a k < psum a (Suc x)"
    using assms(1) by (auto simp: reaches_def)
  have "k \<le> x" using x(3) psum_mono[of "Suc x" k a] by linarith
  then show ?thesis using psum_gap[OF _ x(1,2)] x(1) reaches_nonempty[OF assms(1)] by (auto simp: next_nonempty_def)
qed

locale count_index =
  fixes rep :: "'t \<Rightarrow> nat list \<Rightarrow> bool" and prefix :: "'t \<Rightarrow> int \<Rightarrow> u64" and find :: "'t \<Rightarrow> u64 \<Rightarrow> nat option"
  assumes prefix_psum: "rep t a \<Longrightarrow> prefix t idx = of_nat (psum a (nat (idx + 1)))"
    and find_reaches: "rep t a \<Longrightarrow> 0 < T \<Longrightarrow> T \<le> sum_list a \<Longrightarrow> \<exists>x. find t (of_nat T) = Some x \<and> reaches a T x"
begin

lemma find_after:
  assumes "rep t a" "k < length a" "psum a k < sum_list a"
  shows "\<exists>x. find t (prefix t (int k - 1) + 1) = Some x \<and> next_nonempty a k x"
proof -
  have "prefix t (int k - 1) + 1 = of_nat (Suc (psum a k))" using prefix_psum[OF assms(1)] by (simp add: add.commute)
  moreover obtain x where "find t (of_nat (Suc (psum a k))) = Some x" "reaches a (Suc (psum a k)) x"
    using find_reaches[OF assms(1), of "Suc (psum a k)"] assms(3) by auto
  ultimately show ?thesis using reaches_next[OF _ assms(2)] by metis
qed

lemma find_first:
  assumes "rep t a" "0 < sum_list a"
  shows "\<exists>x. find t 1 = Some x \<and> next_nonempty a 0 x"
proof -
  have "0 < length a" using assms(2) by (cases a) auto
  then show ?thesis using find_after[OF assms(1), of 0] assms(2) prefix_psum[OF assms(1), of "- 1"] by simp
qed

lemma find_in_range:
  assumes "rep t a" "0 < T" "T \<le> sum_list a"
  shows "\<exists>x. find t (of_nat T) = Some x \<and> x < length a \<and> 0 < a ! x"
  using find_reaches[OF assms] reaches_nonempty by (fastforce simp: reaches_def)

end

interpretation fenwick: count_index fw_rep "\<lambda>ft. fwTreePrefixSum (Some ft)" fwTreeFindIndex
  by unfold_locales (auto simp: fwTreePrefixSum_psum fwTreeFindIndex_reaches)

lemma fwTreeFindFirstNonEmpty_ok:
  "fw_rep ft a \<Longrightarrow> 0 < sum_list a \<Longrightarrow> \<exists>x. fwTreeFindFirstNonEmpty ft = Some x \<and> next_nonempty a 0 x"
  unfolding fwTreeFindFirstNonEmpty_def by (rule fenwick.find_first)

lemma no_next_nonempty: "psum a k = sum_list a \<Longrightarrow> k \<le> j \<Longrightarrow> j < length a \<Longrightarrow> a ! j = 0"
  using psum_Suc[of j a] psum_mono[of k j a] psum_le[of a "Suc j"] by linarith

lemma fwTreeFindNextNonEmpty_ok:
  assumes rep: "fw_rep ft a" and k: "k < length a" and room: "sum_list a < 2 ^ 64 - 1"
  shows "(\<exists>x. fwTreeFindNextNonEmpty (Some ft) (int k) = Some (int x) \<and> next_nonempty a (Suc k) x)
    \<or> fwTreeFindNextNonEmpty (Some ft) (int k) = Some (- 1) \<and> (\<forall>j. k < j \<and> j < length a \<longrightarrow> a ! j = 0)"
proof -
  let ?s = "psum a (Suc k)"
  have next_sum: "fwTreePrefixSum (Some ft) (int k) + 1 = of_nat (Suc ?s)"
    using fwTreePrefixSum_psum[OF rep, of "int k"] by (simp add: add.commute nat_add_distrib)
  have "unat (of_nat (Suc ?s) :: u64) = Suc ?s" "unat (of_nat (sum_list a) :: u64) = sum_list a"
    using psum_le[of a "Suc k"] room by (simp_all add: unat_of_nat take_bit_nat_eq_self del: of_nat_Suc)
  then have cmp: "fwTreePrefixSum (Some ft) (int k) + 1 \<le> ft_total ft \<longleftrightarrow> ?s < sum_list a"
    using rep unfolding next_sum by (simp add: fw_rep_def word_le_nat_alt Suc_le_eq del: of_nat_Suc)
  have unf: "fwTreeFindNextNonEmpty (Some ft) (int k) = (if ?s < sum_list a
      then map_option int (fwTreeFindIndex ft (fwTreePrefixSum (Some ft) (int k) + 1)) else Some (- 1))"
    using k cmp fw_rep_size[OF rep] by (simp add: fwTreeFindNextNonEmpty_def Let_def)
  show ?thesis
  proof (cases "?s < sum_list a")
    case True
    then have "Suc k < length a" by (metis Suc_lessI k less_irrefl psum_all order_refl)
    from fenwick.find_after[OF rep this True] show ?thesis using True unf by auto
  next
    case False
    then have "?s = sum_list a" using psum_le[of a "Suc k"] by linarith
    then show ?thesis using False unf no_next_nonempty[of a "Suc k"] by (simp add: Suc_le_eq)
  qed
qed

section \<open>Properties\<close>

text \<open>C29. Adding a delta at an index computes on the array of counts: whenever the count at that
  index stays non-negative and the total stays below \<^term>\<open>2 ^ 64\<close>, no assertion of the update fails,
  and afterwards every prefix sum the tree returns is the one of the array with that count changed.\<close>

theorem fenwick_update_refines_counts:
  assumes "fw_rep ft a" "k < length a" "0 \<le> int (a ! k) + d" "int (sum_list a) + d < 2 ^ 64"
  shows "\<exists>ft'. fwTreeUpdate (Some ft) (int k) d = Some (Some ft')
    \<and> fw_rep ft' (a[k := nat (int (a ! k) + d)])
    \<and> (\<forall>idx. fwTreePrefixSum (Some ft') idx = of_nat (psum (a[k := nat (int (a ! k) + d)]) (nat (idx + 1))))"
  using fwTreeUpdate_rep[OF assms] fwTreePrefixSum_psum by blast

theorem fenwick_update_refines_counts_witness:
  "\<exists>ft'. fwTreeUpdate (Some (fwTreeCreate 3)) 5 7 = Some (Some ft')
    \<and> fw_rep ft' ((replicate 8 0)[5 := 7]) \<and> fwTreePrefixSum (Some ft') 6 = 7"
proof -
  have rep: "fw_rep (fwTreeCreate 3) (replicate 8 0)" using fwTreeCreate_rep[of 3] by simp
  have "psum ((replicate 8 0)[5 := 7]) 7 = 7" by (simp add: psum_def take_update_swap sum_list_update)
  then show ?thesis
    using fenwick_update_refines_counts[OF rep, of 5 7] by (auto simp: sum_list_replicate)
qed

text \<open>C30. The descent by powers of two finds the smallest index at which the running sum reaches the
  target. For every target from 1 to the total it returns, without reading outside the node array,
  an index inside the array of counts whose count is not zero.\<close>

theorem fenwick_find_is_least:
  assumes "fw_rep ft a" "0 < T" "T \<le> sum_list a"
  shows "\<exists>x. fwTreeFindIndex ft (of_nat T) = Some x \<and> x < ft_size ft \<and> 0 < a ! x
    \<and> T \<le> psum a (Suc x) \<and> (\<forall>j. T \<le> psum a (Suc j) \<longrightarrow> x \<le> j)"
proof -
  obtain x where x: "fwTreeFindIndex ft (of_nat T) = Some x" "reaches a T x"
    using fwTreeFindIndex_reaches[OF assms] by blast
  have "x < length a" "T \<le> psum a (Suc x)" using x(2) by (simp_all add: reaches_def)
  then show ?thesis using x(1) reaches_nonempty[OF x(2)] reaches_least[OF x(2)] fw_rep_size[OF assms(1)] by auto
qed

definition demo_tree :: fenwickTree where
  "demo_tree = \<lparr>ft_tree = [0, 2, 2, 3, 6], ft_size_bits = 2, ft_size = 4, ft_total = 6\<rparr>"

lemma demo_tree_rep: "fw_rep demo_tree [2, 0, 3, 1]"
proof -
  have "lowbit 1 = 1" "lowbit 2 = 2" "lowbit 3 = 1" "lowbit 4 = 4" by (simp_all add: lowbit_def)
  then have nodes: "\<forall>i\<in>{1, 2, 3, 4}. ft_tree demo_tree ! i
      = of_nat (psum [2, 0, 3, 1] i) - of_nat (psum [2, 0, 3, 1] (i - lowbit i))"
    by (simp add: demo_tree_def psum_def)
  have "{i. 0 < i \<and> i \<le> 4} = {1, 2, 3, 4 :: nat}" by auto
  then have "ft_tree demo_tree ! i
      = of_nat (psum [2, 0, 3, 1] i) - of_nat (psum [2, 0, 3, 1] (i - lowbit i))" if "0 < i" "i \<le> 4" for i
    using bspec[OF nodes, of i] that by blast
  then show ?thesis by (simp add: fw_rep_def demo_tree_def)
qed

theorem fenwick_find_is_least_witness: "fwTreeFindIndex demo_tree 3 = Some 2"
proof -
  obtain x where x: "fwTreeFindIndex demo_tree 3 = Some x" "x < 4" "0 < [2, 0, 3, 1 :: nat] ! x"
    "3 \<le> psum [2, 0, 3, 1] (Suc x)" "\<forall>j. 3 \<le> psum [2, 0, 3, 1] (Suc j) \<longrightarrow> x \<le> j"
    using fenwick_find_is_least[OF demo_tree_rep, of 3] by (auto simp: demo_tree_def)
  have "x \<le> 2" using x(5)[rule_format, of 2] by (simp add: psum_def)
  moreover have "x \<noteq> 0" "x \<noteq> 1" using x(3,4) by (auto simp: psum_def intro!: gr0I)
  ultimately show ?thesis using x(1) by (cases "x = 2") auto
qed

text \<open>C31. On an empty tree the search for the first non-empty index reads outside the node array. The
  comment of \<^verbatim>\<open>fwTreeFindIndex\<close> promises 0 for an empty tree; the callers in
  \<^verbatim>\<open>kvstore.c\<close> test for the empty store first.\<close>

theorem fenwick_empty_search_goes_wrong:
  assumes "0 < bits"
  shows "fwTreeFindFirstNonEmpty (fwTreeCreate bits) = None"
proof -
  obtain b where b: "bits = Suc b" using assms by (cases bits) auto
  have "fwTreeFindIndex (fwTreeCreate bits) 1 = find_loop (replicate (2 ^ bits + 1) 0) 1 (2 ^ bits) (2 ^ b)"
    by (simp add: fwTreeFindIndex_def fwTreeCreate_def find_loop.simps[of _ _ 0] b Let_def nth_append nth_Cons' del: replicate.simps)
  then show ?thesis by (simp add: fwTreeFindFirstNonEmpty_def find_loop.simps Let_def)
qed

theorem fenwick_empty_search_goes_wrong_witness: "fwTreeFindFirstNonEmpty (fwTreeCreate 14) = None"
  by (rule fenwick_empty_search_goes_wrong) simp

end
