(* ===== verification/KvStore.thy ===== *)
theory KvStore
  imports DictCorrect FwTree
begin

text \<open>
  The key-value store of \<^verbatim>\<open>src/src/kvstore.c\<close>: an array of dictionaries, one per hash slot in cluster
  mode, with counters over all of them and a Fenwick tree of their sizes. A dictionary is named
  by its index, so the list of rehashing dictionaries holds indices. The callbacks that the
  dictionaries log are run after each dictionary operation, in the order of the log. The hooks
  \<^verbatim>\<open>onDictEmpty\<close> and \<^verbatim>\<open>onKvstoreEmpty\<close> and the metadata they keep belong to the callers.
\<close>

section \<open>State\<close>

record ('k, 'v) kvstore =
  on_demand :: bool
  free_empty :: bool
  kv_dicts :: "('k, 'v) dict option list"
  num_dicts_bits :: nat
  kv_rehashing :: "nat list"
  resize_cursor :: nat
  allocated_dicts :: int
  non_empty_dicts :: int
  key_count :: u64
  bucket_count :: u64
  dict_sizes :: "fenwickTree option"
  overhead_hashtable_rehashing :: u64

definition num_dicts :: "('k, 'v) kvstore \<Rightarrow> nat" where
  "num_dicts kvs = 2 ^ num_dicts_bits kvs"

text \<open>An index outside the array has no result; inside, the slot may be NULL.\<close>

definition kvstoreGetDict :: "('k, 'v) kvstore \<Rightarrow> nat \<Rightarrow> ('k, 'v) dict option option" where
  "kvstoreGetDict kvs didx = (if didx < length (kv_dicts kvs) then Some (kv_dicts kvs ! didx) else None)"

section \<open>Callbacks\<close>

definition kvstoreDictRehashingStarted :: "nat \<Rightarrow> nat \<Rightarrow> ('k, 'v) kvstore \<Rightarrow> ('k, 'v) kvstore" where
  "kvstoreDictRehashingStarted didx from kvs = kvs\<lparr>kv_rehashing := kv_rehashing kvs @ [didx],
    overhead_hashtable_rehashing := overhead_hashtable_rehashing kvs + of_nat from\<rparr>"

definition kvstoreDictRehashingCompleted :: "nat \<Rightarrow> nat \<Rightarrow> ('k, 'v) kvstore \<Rightarrow> ('k, 'v) kvstore" where
  "kvstoreDictRehashingCompleted didx from kvs = kvs\<lparr>kv_rehashing := remove1 didx (kv_rehashing kvs),
    overhead_hashtable_rehashing := overhead_hashtable_rehashing kvs - of_nat from\<rparr>"

definition kvstoreDictBucketChanged :: "int \<Rightarrow> ('k, 'v) kvstore \<Rightarrow> ('k, 'v) kvstore" where
  "kvstoreDictBucketChanged delta kvs = kvs\<lparr>bucket_count := bucket_count kvs + word_of_int delta\<rparr>"

fun run_event :: "nat \<Rightarrow> dictEvent \<Rightarrow> ('k, 'v) kvstore \<Rightarrow> ('k, 'v) kvstore" where
  "run_event didx (RehashingStarted from) kvs = kvstoreDictRehashingStarted didx from kvs"
| "run_event didx (RehashingCompleted from) kvs = kvstoreDictRehashingCompleted didx from kvs"
| "run_event didx (BucketChanged delta) kvs = kvstoreDictBucketChanged delta kvs"

text \<open>Put a dictionary back after an operation on it.\<close>

definition settle :: "nat \<Rightarrow> ('k, 'v) dict \<Rightarrow> ('k, 'v) kvstore \<Rightarrow> ('k, 'v) kvstore" where
  "settle didx d kvs = (fold (run_event didx) (d_log d) kvs)\<lparr>kv_dicts := (kv_dicts kvs)[didx := Some (d\<lparr>d_log := []\<rparr>)]\<rparr>"

section \<open>Counters and slots\<close>

definition cumulativeKeyCountAdd :: "('k, 'v) kvstore \<Rightarrow> nat \<Rightarrow> int \<Rightarrow> ('k, 'v) kvstore option" where
  "cumulativeKeyCountAdd kvs didx delta =
    do { slot \<leftarrow> kvstoreGetDict kvs didx;
         d \<leftarrow> slot;
         let dsize = dictSize d;
         let non_empty_dicts_delta = (if dsize = 1 \<and> 0 < delta then 1 else if dsize = 0 then - 1 else 0);
         let kvs = kvs\<lparr>key_count := key_count kvs + word_of_int delta,
                       non_empty_dicts := non_empty_dicts kvs + non_empty_dicts_delta\<rparr>;
         if num_dicts kvs = 1 then Some kvs
         else do { sizes \<leftarrow> fwTreeUpdate (dict_sizes kvs) (int didx) delta; Some (kvs\<lparr>dict_sizes := sizes\<rparr>) } }"

definition createDictIfNeeded :: "('k, 'v) kvstore \<Rightarrow> nat \<Rightarrow> (('k, 'v) kvstore \<times> ('k, 'v) dict) option" where
  "createDictIfNeeded kvs didx =
    do { slot \<leftarrow> kvstoreGetDict kvs didx;
         case slot of
           Some d \<Rightarrow> Some (kvs, d)
         | None \<Rightarrow> Some (kvs\<lparr>kv_dicts := (kv_dicts kvs)[didx := Some dictCreate], allocated_dicts := allocated_dicts kvs + 1\<rparr>, dictCreate) }"

definition kvstoreDictSize :: "('k, 'v) kvstore \<Rightarrow> nat \<Rightarrow> nat option" where
  "kvstoreDictSize kvs didx = map_option (\<lambda>slot. case slot of None \<Rightarrow> 0 | Some d \<Rightarrow> dictSize d) (kvstoreGetDict kvs didx)"

text \<open>The callback \<^verbatim>\<open>canFreeDict\<close> is a parameter, constantly true when it is NULL.\<close>

definition freeDictIfNeeded :: "(('k, 'v) kvstore \<Rightarrow> nat \<Rightarrow> bool) \<Rightarrow> ('k, 'v) kvstore \<Rightarrow> nat \<Rightarrow> ('k, 'v) kvstore option" where
  "freeDictIfNeeded canFreeDict kvs didx =
    (if \<not> free_empty kvs then Some kvs
     else do { slot \<leftarrow> kvstoreGetDict kvs didx;
       case slot of
         None \<Rightarrow> Some kvs
       | Some d \<Rightarrow>
           if dictSize d \<noteq> 0 \<or> dictIsRehashingPaused d \<or> \<not> canFreeDict kvs didx then Some kvs
           else Some ((fold (run_event didx) (dictRelease d) kvs)
                  \<lparr>kv_dicts := (kv_dicts kvs)[didx := None], allocated_dicts := allocated_dicts kvs - 1\<rparr>) })"

section \<open>Creation and emptying\<close>

fun create_dicts :: "nat list \<Rightarrow> ('k, 'v) kvstore \<Rightarrow> ('k, 'v) kvstore option" where
  "create_dicts [] kvs = Some kvs"
| "create_dicts (i # is) kvs = do { (kvs', _) \<leftarrow> createDictIfNeeded kvs i; create_dicts is kvs' }"

definition fresh_store :: "nat \<Rightarrow> bool \<Rightarrow> bool \<Rightarrow> ('k, 'v) kvstore" where
  "fresh_store bits allocate_on_demand free_empty_dicts =
    \<lparr>on_demand = allocate_on_demand, free_empty = free_empty_dicts, kv_dicts = replicate (2 ^ bits) None,
     num_dicts_bits = bits, kv_rehashing = [], resize_cursor = 0, allocated_dicts = 0, non_empty_dicts = 0, key_count = 0,
     bucket_count = 0, dict_sizes = (if 2 ^ bits > (1 :: nat) then Some (fwTreeCreate bits) else None),
     overhead_hashtable_rehashing = 0\<rparr>"

definition kvstoreCreate :: "nat \<Rightarrow> bool \<Rightarrow> bool \<Rightarrow> ('k, 'v) kvstore option" where
  "kvstoreCreate bits allocate_on_demand free_empty_dicts =
    (if 16 < bits then None
     else let kvs = fresh_store bits allocate_on_demand free_empty_dicts
       in if allocate_on_demand then Some kvs else create_dicts [0..<2 ^ bits] kvs)"

fun empty_dicts :: "(('k, 'v) kvstore \<Rightarrow> nat \<Rightarrow> bool) \<Rightarrow> nat list \<Rightarrow> ('k, 'v) kvstore \<Rightarrow> ('k, 'v) kvstore option" where
  "empty_dicts canFreeDict [] kvs = Some kvs"
| "empty_dicts canFreeDict (i # is) kvs =
    do { slot \<leftarrow> kvstoreGetDict kvs i;
         case slot of
           None \<Rightarrow> empty_dicts canFreeDict is kvs
         | Some d \<Rightarrow> do { kvs' \<leftarrow> freeDictIfNeeded canFreeDict (settle i (dictEmpty d) kvs) i; empty_dicts canFreeDict is kvs' } }"

definition kvstoreEmpty :: "(('k, 'v) kvstore \<Rightarrow> nat \<Rightarrow> bool) \<Rightarrow> ('k, 'v) kvstore \<Rightarrow> ('k, 'v) kvstore option" where
  "kvstoreEmpty canFreeDict kvs =
    do { kvs' \<leftarrow> empty_dicts canFreeDict [0..<num_dicts kvs] kvs;
         Some (kvs'\<lparr>kv_rehashing := [], key_count := 0, non_empty_dicts := 0, resize_cursor := 0, bucket_count := 0,
                    dict_sizes := map_option fwTreeClear (dict_sizes kvs'), overhead_hashtable_rehashing := 0\<rparr>) }"

definition kvstoreSize :: "('k, 'v) kvstore \<Rightarrow> u64" where
  "kvstoreSize kvs = key_count kvs"

definition kvstoreBuckets :: "('k, 'v) kvstore \<Rightarrow> u64 option" where
  "kvstoreBuckets kvs = (if num_dicts kvs \<noteq> 1 then Some (bucket_count kvs)
    else map_option (\<lambda>slot. case slot of None \<Rightarrow> 0 | Some d \<Rightarrow> of_nat (dictBuckets d)) (kvstoreGetDict kvs 0))"

section \<open>Finding dictionaries\<close>

definition kvstoreFindDictIndexByKeyIndex :: "('k, 'v) kvstore \<Rightarrow> u64 \<Rightarrow> nat option" where
  "kvstoreFindDictIndexByKeyIndex kvs target =
    (if num_dicts kvs = 1 \<or> kvstoreSize kvs = 0 then Some 0
     else if kvstoreSize kvs < target then None
     else Option.bind (dict_sizes kvs) (\<lambda>ft. fwTreeFindIndex ft target))"

definition kvstoreGetFirstNonEmptyDictIndex :: "('k, 'v) kvstore \<Rightarrow> int option" where
  "kvstoreGetFirstNonEmptyDictIndex kvs =
    (if kvstoreSize kvs = 0 then Some (- 1)
     else if num_dicts kvs = 1 then Some 0
     else Option.bind (dict_sizes kvs) (\<lambda>ft. map_option int (fwTreeFindFirstNonEmpty ft)))"

definition kvstoreGetNextNonEmptyDictIndex :: "('k, 'v) kvstore \<Rightarrow> int \<Rightarrow> int option" where
  "kvstoreGetNextNonEmptyDictIndex kvs didx =
    (if num_dicts kvs = 1 then if didx = 0 then Some (- 1) else None
     else fwTreeFindNextNonEmpty (dict_sizes kvs) didx)"

text \<open>\<^verbatim>\<open>kvstoreGetFairRandomDictIndex\<close>. The numbers drawn with \<^verbatim>\<open>randomULong\<close> are a list, and a missing
  \<^verbatim>\<open>skip_cb\<close> is constantly false.\<close>

fun fair_loop :: "('k, 'v) kvstore \<Rightarrow> (nat \<Rightarrow> bool) \<Rightarrow> u64 list \<Rightarrow> (nat option) option" where
  "fair_loop kvs skip_cb [] = Some None"
| "fair_loop kvs skip_cb (rnd # rest) =
    do { didx \<leftarrow> kvstoreFindDictIndexByKeyIndex kvs (rnd mod kvstoreSize kvs + 1);
         if \<not> skip_cb didx then Some (Some didx) else fair_loop kvs skip_cb rest }"

definition slow_search :: "('k, 'v) kvstore \<Rightarrow> (nat \<Rightarrow> bool) \<Rightarrow> u64 \<Rightarrow> nat option" where
  "slow_search kvs skip_cb rnd =
    find (\<lambda>didx. kvstoreGetDict kvs didx \<noteq> Some None \<and> \<not> skip_cb didx)
      (map (\<lambda>i. (unat rnd mod num_dicts kvs + i) mod num_dicts kvs) [0..<num_dicts kvs])"

definition kvstoreGetFairRandomDictIndex :: "('k, 'v) kvstore \<Rightarrow> (nat \<Rightarrow> bool) \<Rightarrow> u64 list \<Rightarrow> u64 option \<Rightarrow> int option" where
  "kvstoreGetFairRandomDictIndex kvs skip_cb fair_attempts slow_fallback =
    (if num_dicts kvs = 1 \<or> kvstoreSize kvs = 0 then Some 0
     else do { fair \<leftarrow> fair_loop kvs skip_cb fair_attempts;
       case fair of
         Some didx \<Rightarrow> Some (int didx)
       | None \<Rightarrow> (case Option.bind slow_fallback (slow_search kvs skip_cb) of
             Some didx \<Rightarrow> Some (int didx)
           | None \<Rightarrow> Some (- 1)) })"

section \<open>Scan cursors\<close>

definition addDictIndexToCursor :: "('k, 'v) kvstore \<Rightarrow> int \<Rightarrow> u64 \<Rightarrow> u64" where
  "addDictIndexToCursor kvs didx cursor =
    (if num_dicts kvs = 1 then cursor
     else if didx < 0 then cursor
     else push_bit (num_dicts_bits kvs) cursor OR word_of_int didx)"

definition getAndClearDictIndexFromCursor :: "('k, 'v) kvstore \<Rightarrow> u64 \<Rightarrow> nat \<times> u64" where
  "getAndClearDictIndexFromCursor kvs cursor =
    (if num_dicts kvs = 1 then (0, cursor)
     else (unat (cursor AND of_nat (num_dicts kvs - 1)), drop_bit (num_dicts_bits kvs) cursor))"

section \<open>Operations on one dictionary\<close>

definition kvstoreDictFind :: "'k dictType \<Rightarrow> dictResizeEnable \<Rightarrow> ('k, 'v) kvstore \<Rightarrow> nat \<Rightarrow> 'k
    \<Rightarrow> (('k, 'v) kvstore \<times> ('k \<times> 'v) option) option" where
  "kvstoreDictFind ty rs kvs didx key =
    do { slot \<leftarrow> kvstoreGetDict kvs didx;
         case slot of
           None \<Rightarrow> Some (kvs, None)
         | Some d \<Rightarrow> do { (d', de) \<leftarrow> dictFind ty rs d key; Some (settle didx d' kvs, de) } }"

definition kvstoreDictFetchValue :: "'k dictType \<Rightarrow> dictResizeEnable \<Rightarrow> ('k, 'v) kvstore \<Rightarrow> nat \<Rightarrow> 'k
    \<Rightarrow> (('k, 'v) kvstore \<times> 'v option) option" where
  "kvstoreDictFetchValue ty rs kvs didx key =
    do { slot \<leftarrow> kvstoreGetDict kvs didx;
         case slot of
           None \<Rightarrow> Some (kvs, None)
         | Some d \<Rightarrow> do { (d', v) \<leftarrow> dictFetchValue ty rs d key; Some (settle didx d' kvs, v) } }"

definition kvstoreDictFindLink :: "'k dictType \<Rightarrow> dictResizeEnable \<Rightarrow> ('k, 'v) kvstore \<Rightarrow> nat \<Rightarrow> 'k
    \<Rightarrow> (('k, 'v) kvstore \<times> link option \<times> bucket_link option) option" where
  "kvstoreDictFindLink ty rs kvs didx key =
    do { slot \<leftarrow> kvstoreGetDict kvs didx;
         case slot of
           None \<Rightarrow> Some (kvs, None, None)
         | Some d \<Rightarrow> do { (d', l, b) \<leftarrow> dictFindLink ty rs d key True; Some (settle didx d' kvs, l, b) } }"

definition kvstoreDictSetAtLink_new :: "'k dictType \<Rightarrow> dictResizeEnable \<Rightarrow> ('k, 'v) kvstore \<Rightarrow> nat \<Rightarrow> 'k \<times> 'v
    \<Rightarrow> bucket_link option \<Rightarrow> ('k, 'v) kvstore option" where
  "kvstoreDictSetAtLink_new ty rs kvs didx kv link =
    do { (kvs', d) \<leftarrow> createDictIfNeeded kvs didx;
         d' \<leftarrow> dictSetKeyAtLink_new ty rs d kv link;
         cumulativeKeyCountAdd (settle didx d' kvs') didx 1 }"

definition kvstoreDictSetAtLink_old :: "'k dictType \<Rightarrow> dictResizeEnable \<Rightarrow> ('k, 'v) kvstore \<Rightarrow> nat \<Rightarrow> 'k \<times> 'v
    \<Rightarrow> link option \<Rightarrow> ('k, 'v) kvstore option" where
  "kvstoreDictSetAtLink_old ty rs kvs didx kv link =
    do { slot \<leftarrow> kvstoreGetDict kvs didx;
         d \<leftarrow> slot;
         d' \<leftarrow> dictSetKeyAtLink_old ty rs d kv link;
         Some (settle didx d' kvs) }"

definition kvstoreDictAddRaw :: "'k dictType \<Rightarrow> dictResizeEnable \<Rightarrow> ('k, 'v) kvstore \<Rightarrow> nat \<Rightarrow> 'k \<Rightarrow> 'v
    \<Rightarrow> (('k, 'v) kvstore \<times> bool) option" where
  "kvstoreDictAddRaw ty rs kvs didx key val =
    do { (kvs', d) \<leftarrow> createDictIfNeeded kvs didx;
         (d', added, _) \<leftarrow> dictAddRaw ty rs d key val;
         if added then do { kvs'' \<leftarrow> cumulativeKeyCountAdd (settle didx d' kvs') didx 1; Some (kvs'', True) }
         else Some (settle didx d' kvs', False) }"

definition kvstoreDictDelete :: "'k dictType \<Rightarrow> dictResizeEnable \<Rightarrow> (('k, 'v) kvstore \<Rightarrow> nat \<Rightarrow> bool) \<Rightarrow> ('k, 'v) kvstore \<Rightarrow> nat \<Rightarrow> 'k
    \<Rightarrow> (('k, 'v) kvstore \<times> bool) option" where
  "kvstoreDictDelete ty rs canFreeDict kvs didx key =
    do { slot \<leftarrow> kvstoreGetDict kvs didx;
         case slot of
           None \<Rightarrow> Some (kvs, False)
         | Some d \<Rightarrow>
             do { (d', ret) \<leftarrow> dictDelete ty rs d key;
                  if ret then do { kvs' \<leftarrow> cumulativeKeyCountAdd (settle didx d' kvs) didx (- 1);
                                   kvs'' \<leftarrow> freeDictIfNeeded canFreeDict kvs' didx; Some (kvs'', True) }
                  else Some (settle didx d' kvs, False) } }"

definition kvstoreDictTwoPhaseUnlinkFind :: "'k dictType \<Rightarrow> dictResizeEnable \<Rightarrow> ('k, 'v) kvstore \<Rightarrow> nat \<Rightarrow> 'k
    \<Rightarrow> (('k, 'v) kvstore \<times> link option) option" where
  "kvstoreDictTwoPhaseUnlinkFind ty rs kvs didx key =
    do { slot \<leftarrow> kvstoreGetDict kvs didx;
         case slot of
           None \<Rightarrow> Some (kvs, None)
         | Some d \<Rightarrow> do { (d', l) \<leftarrow> dictTwoPhaseUnlinkFind ty rs d key; Some (settle didx d' kvs, l) } }"

definition kvstoreDictTwoPhaseUnlinkFree :: "'k dictType \<Rightarrow> dictResizeEnable \<Rightarrow> (('k, 'v) kvstore \<Rightarrow> nat \<Rightarrow> bool) \<Rightarrow> ('k, 'v) kvstore
    \<Rightarrow> nat \<Rightarrow> link option \<Rightarrow> ('k, 'v) kvstore option" where
  "kvstoreDictTwoPhaseUnlinkFree ty rs canFreeDict kvs didx link =
    do { slot \<leftarrow> kvstoreGetDict kvs didx;
         d \<leftarrow> slot;
         d' \<leftarrow> dictTwoPhaseUnlinkFree ty rs d link;
         kvs' \<leftarrow> cumulativeKeyCountAdd (settle didx d' kvs) didx (- 1);
         freeDictIfNeeded canFreeDict kvs' didx }"

section \<open>Moving a dictionary\<close>

definition kvstoreMoveDict :: "('k, 'v) kvstore \<Rightarrow> ('k, 'v) kvstore \<Rightarrow> nat \<Rightarrow> (('k, 'v) kvstore \<times> ('k, 'v) kvstore) option" where
  "kvstoreMoveDict kvs dst didx =
    (if num_dicts kvs \<le> didx \<or> num_dicts kvs \<noteq> num_dicts dst \<or> kvstoreGetDict dst didx \<noteq> Some None then None
     else do { slot \<leftarrow> kvstoreGetDict kvs didx;
       case slot of
         None \<Rightarrow> Some (kvs, dst)
       | Some d \<Rightarrow>
           do { kvs1 \<leftarrow> cumulativeKeyCountAdd (kvs\<lparr>allocated_dicts := allocated_dicts kvs - 1\<rparr>) didx (- int (dictSize d));
                let kvs2 = kvstoreDictBucketChanged (- int (dictBuckets d)) kvs1;
                let kvs3 = (if dictIsRehashing d then kvstoreDictRehashingCompleted didx (DICTHT_SIZE (ht_size_exp (ht0 d))) kvs2 else kvs2);
                let kvs4 = kvs3\<lparr>kv_dicts := (kv_dicts kvs3)[didx := None]\<rparr>;
                kvs5 \<leftarrow> (if \<not> (on_demand kvs \<or> free_empty kvs) then map_option fst (createDictIfNeeded kvs4 didx) else Some kvs4);
                let dst1 = dst\<lparr>kv_dicts := (kv_dicts dst)[didx := Some d], allocated_dicts := allocated_dicts dst + 1\<rparr>;
                dst2 \<leftarrow> cumulativeKeyCountAdd dst1 didx (int (dictSize d));
                let dst3 = kvstoreDictBucketChanged (int (dictBuckets d)) dst2;
                let dst4 = (if dictIsRehashing d then kvstoreDictRehashingStarted didx (DICTHT_SIZE (ht_size_exp (ht0 d))) dst3 else dst3);
                Some (kvs5, dst4) } })"

section \<open>Resizing and iteration\<close>

fun kvstoreTryResizeDicts_loop :: "'k dictType \<Rightarrow> dictResizeEnable \<Rightarrow> nat \<Rightarrow> ('k, 'v) kvstore \<Rightarrow> ('k, 'v) kvstore option" where
  "kvstoreTryResizeDicts_loop ty rs 0 kvs = Some kvs"
| "kvstoreTryResizeDicts_loop ty rs (Suc n) kvs =
    (let didx = resize_cursor kvs in
     do { slot \<leftarrow> kvstoreGetDict kvs didx;
          kvs' \<leftarrow> (case slot of
              None \<Rightarrow> Some kvs
            | Some d \<Rightarrow> do { (d', shrunk) \<leftarrow> dictShrinkIfNeeded ty rs d;
                             d'' \<leftarrow> (if \<not> shrunk then map_option fst (dictExpandIfNeeded ty rs d') else Some d');
                             Some (settle didx d'' kvs) });
          kvstoreTryResizeDicts_loop ty rs n (kvs'\<lparr>resize_cursor := (didx + 1) mod num_dicts kvs'\<rparr>) })"

definition kvstoreTryResizeDicts :: "'k dictType \<Rightarrow> dictResizeEnable \<Rightarrow> ('k, 'v) kvstore \<Rightarrow> nat \<Rightarrow> ('k, 'v) kvstore option" where
  "kvstoreTryResizeDicts ty rs kvs limit = kvstoreTryResizeDicts_loop ty rs (min limit (num_dicts kvs)) kvs"

text \<open>The iterator over the non-empty dictionaries. The inner iterator that \<^verbatim>\<open>kvstoreIteratorNext\<close> runs
  over the entries of one dictionary is not started here, so its reset has no effect.\<close>

record kvstoreIterator =
  it_didx :: int
  it_next_didx :: int

definition kvstoreIteratorInit :: "('k, 'v) kvstore \<Rightarrow> kvstoreIterator option" where
  "kvstoreIteratorInit kvs = map_option (\<lambda>i. \<lparr>it_didx = - 1, it_next_didx = i\<rparr>) (kvstoreGetFirstNonEmptyDictIndex kvs)"

definition kvstoreIteratorNextDict :: "(('k, 'v) kvstore \<Rightarrow> nat \<Rightarrow> bool) \<Rightarrow> ('k, 'v) kvstore \<times> kvstoreIterator
    \<Rightarrow> ((('k, 'v) kvstore \<times> kvstoreIterator) \<times> nat option) option" where
  "kvstoreIteratorNextDict canFreeDict s = (case s of (kvs, it) \<Rightarrow>
    if it_next_didx it = - 1 then Some ((kvs, it), None)
    else do { kvs' \<leftarrow> (if it_didx it \<noteq> - 1 \<and> kvstoreGetDict kvs (nat (it_didx it)) \<noteq> Some None
                then freeDictIfNeeded canFreeDict kvs (nat (it_didx it)) else Some kvs);
              next_didx \<leftarrow> kvstoreGetNextNonEmptyDictIndex kvs' (it_next_didx it);
              Some ((kvs', \<lparr>it_didx = it_next_didx it, it_next_didx = next_didx\<rparr>), Some (nat (it_next_didx it))) })"

end
