(* ===== verification/KvStoreCorrect.thy ===== *)
theory KvStoreCorrect
  imports KvStore
begin

text \<open>
  The store keeps one map from slot and key to value. The invariant ties every counter to the
  dictionaries: the number of keys, of non-empty and of allocated dictionaries, of buckets, the
  size of the tables being moved, the list of rehashing dictionaries and the Fenwick tree.
\<close>

section \<open>The invariant\<close>

fun slot_size :: "('k, 'v) dict option \<Rightarrow> nat" where
  "slot_size None = 0"
| "slot_size (Some d) = dictSize d"

fun slot_buckets :: "('k, 'v) dict option \<Rightarrow> int" where
  "slot_buckets None = 0"
| "slot_buckets (Some d) = int (dictBuckets d)"

fun slot_overhead :: "('k, 'v) dict option \<Rightarrow> int" where
  "slot_overhead None = 0"
| "slot_overhead (Some d) = overhead d"

fun slot_rehashing :: "('k, 'v) dict option \<Rightarrow> bool" where
  "slot_rehashing None = False"
| "slot_rehashing (Some d) = dictIsRehashing d"

definition slot_ok :: "'k dictType \<Rightarrow> ('k, 'v) dict option \<Rightarrow> bool" where
  "slot_ok ty s \<longleftrightarrow> (\<forall>d. s = Some d \<longrightarrow> dict_ready ty d \<and> d_log d = [])"

definition slot_sum :: "(('k, 'v) dict option \<Rightarrow> int) \<Rightarrow> ('k, 'v) kvstore \<Rightarrow> int" where
  "slot_sum f kvs = sum_list (map f (kv_dicts kvs))"

definition kvs_sizes :: "('k, 'v) kvstore \<Rightarrow> nat list" where
  "kvs_sizes kvs = map slot_size (kv_dicts kvs)"

text \<open>The part that a dictionary operation keeps by itself.\<close>

definition kvs_frame :: "'k dictType \<Rightarrow> ('k, 'v) kvstore \<Rightarrow> bool" where
  "kvs_frame ty kvs \<longleftrightarrow> num_dicts_bits kvs \<le> 16 \<and> length (kv_dicts kvs) = num_dicts kvs \<and> resize_cursor kvs < num_dicts kvs
    \<and> (\<forall>s \<in> set (kv_dicts kvs). slot_ok ty s)
    \<and> allocated_dicts kvs = slot_sum (\<lambda>s. of_bool (s \<noteq> None)) kvs
    \<and> bucket_count kvs = word_of_int (slot_sum slot_buckets kvs)
    \<and> overhead_hashtable_rehashing kvs = word_of_int (slot_sum slot_overhead kvs)
    \<and> distinct (kv_rehashing kvs) \<and> set (kv_rehashing kvs) = {i. i < length (kv_dicts kvs) \<and> slot_rehashing (kv_dicts kvs ! i)}"

text \<open>The counters agree with the given sizes.\<close>

definition tally :: "('k, 'v) kvstore \<Rightarrow> nat list \<Rightarrow> bool" where
  "tally kvs ns \<longleftrightarrow> length ns = num_dicts kvs \<and> sum_list ns < 2 ^ 64 - 1 \<and> key_count kvs = of_nat (sum_list ns)
    \<and> (if num_dicts kvs = 1 then dict_sizes kvs = None else \<exists>ft. dict_sizes kvs = Some ft \<and> fw_rep ft ns)"

definition non_empty :: "nat list \<Rightarrow> int" where
  "non_empty ns = sum_list (map (\<lambda>n. of_bool (n \<noteq> 0)) ns)"

definition counts :: "('k, 'v) kvstore \<Rightarrow> nat list \<Rightarrow> bool" where
  "counts kvs ns \<longleftrightarrow> tally kvs ns \<and> non_empty_dicts kvs = non_empty ns"

definition kvs_ok :: "'k dictType \<Rightarrow> ('k, 'v) kvstore \<Rightarrow> bool" where
  "kvs_ok ty kvs \<longleftrightarrow> kvs_frame ty kvs \<and> counts kvs (kvs_sizes kvs)"

text \<open>What the store holds.\<close>

definition kvs_map :: "('k, 'v) kvstore \<Rightarrow> nat \<times> 'k \<Rightarrow> 'v option" where
  "kvs_map kvs = (\<lambda>(didx, key). if didx < length (kv_dicts kvs)
    then (case kv_dicts kvs ! didx of None \<Rightarrow> None | Some d \<Rightarrow> dict_map d key) else None)"

section \<open>Slots\<close>

lemma sum_list_update_int: "i < length xs \<Longrightarrow> sum_list (xs[i := v]) = sum_list xs + v - (xs ! i :: int)"
  by (induction xs arbitrary: i) (auto split: nat.splits)

lemma slot_sum_update:
  "i < length (kv_dicts kvs) \<Longrightarrow> slot_sum f (kvs\<lparr>kv_dicts := (kv_dicts kvs)[i := s]\<rparr>) = slot_sum f kvs + f s - f (kv_dicts kvs ! i)"
  by (simp add: slot_sum_def map_update sum_list_update_int)

lemma slot_sum_cong: "kv_dicts a = kv_dicts b \<Longrightarrow> slot_sum f a = slot_sum f b"
  by (simp add: slot_sum_def)

text \<open>The effect of the callbacks.\<close>

lemma run_events_frame [simp]:
  "kv_dicts (fold (run_event didx) evs kvs) = kv_dicts kvs"
  "num_dicts_bits (fold (run_event didx) evs kvs) = num_dicts_bits kvs"
  "allocated_dicts (fold (run_event didx) evs kvs) = allocated_dicts kvs"
  "non_empty_dicts (fold (run_event didx) evs kvs) = non_empty_dicts kvs"
  "key_count (fold (run_event didx) evs kvs) = key_count kvs"
  "dict_sizes (fold (run_event didx) evs kvs) = dict_sizes kvs"
  "on_demand (fold (run_event didx) evs kvs) = on_demand kvs"
  "free_empty (fold (run_event didx) evs kvs) = free_empty kvs"
  "resize_cursor (fold (run_event didx) evs kvs) = resize_cursor kvs"
proof -
  have one: "kv_dicts (run_event didx e k) = kv_dicts k \<and> num_dicts_bits (run_event didx e k) = num_dicts_bits k
      \<and> allocated_dicts (run_event didx e k) = allocated_dicts k \<and> non_empty_dicts (run_event didx e k) = non_empty_dicts k
      \<and> key_count (run_event didx e k) = key_count k \<and> dict_sizes (run_event didx e k) = dict_sizes k
      \<and> on_demand (run_event didx e k) = on_demand k \<and> free_empty (run_event didx e k) = free_empty k
      \<and> resize_cursor (run_event didx e k) = resize_cursor k" for e and k :: "('a, 'b) kvstore"
    by (cases e) (simp_all add: kvstoreDictRehashingStarted_def kvstoreDictRehashingCompleted_def kvstoreDictBucketChanged_def)
  show "kv_dicts (fold (run_event didx) evs kvs) = kv_dicts kvs"
    "num_dicts_bits (fold (run_event didx) evs kvs) = num_dicts_bits kvs"
    "allocated_dicts (fold (run_event didx) evs kvs) = allocated_dicts kvs"
    "non_empty_dicts (fold (run_event didx) evs kvs) = non_empty_dicts kvs"
    "key_count (fold (run_event didx) evs kvs) = key_count kvs"
    "dict_sizes (fold (run_event didx) evs kvs) = dict_sizes kvs"
    "on_demand (fold (run_event didx) evs kvs) = on_demand kvs"
    "free_empty (fold (run_event didx) evs kvs) = free_empty kvs"
    "resize_cursor (fold (run_event didx) evs kvs) = resize_cursor kvs"
    by (induction evs arbitrary: kvs; simp add: one)+
qed

lemma run_events_sums:
  "bucket_count (fold (run_event didx) evs kvs) = bucket_count kvs + word_of_int (bucket_delta evs)"
  "overhead_hashtable_rehashing (fold (run_event didx) evs kvs) = overhead_hashtable_rehashing kvs + word_of_int (overhead_delta evs)"
proof (induction evs arbitrary: kvs)
  case (Cons e evs)
  {
    case 1
    show ?case using Cons.IH(1)
      by (cases e) (simp_all add: kvstoreDictRehashingStarted_def kvstoreDictRehashingCompleted_def kvstoreDictBucketChanged_def)
  next
    case 2
    show ?case using Cons.IH(2)
      by (cases e) (simp_all add: kvstoreDictRehashingStarted_def kvstoreDictRehashingCompleted_def kvstoreDictBucketChanged_def)
  }
qed simp_all

lemma run_events_rehashing:
  "distinct (kv_rehashing kvs) \<Longrightarrow> rehash_after (didx \<in> set (kv_rehashing kvs)) evs = Some b \<Longrightarrow>
    distinct (kv_rehashing (fold (run_event didx) evs kvs))
    \<and> set (kv_rehashing (fold (run_event didx) evs kvs)) = (set (kv_rehashing kvs) - {didx}) \<union> (if b then {didx} else {})"
proof (induction evs arbitrary: kvs)
  case (Cons e evs)
  then show ?case
    by (cases e)
      (auto simp: kvstoreDictRehashingStarted_def kvstoreDictRehashingCompleted_def kvstoreDictBucketChanged_def
        split: if_splits)
qed (auto split: if_splits)

definition change_slot :: "nat \<Rightarrow> ('k, 'v) dict option \<Rightarrow> dictEvent list \<Rightarrow> ('k, 'v) kvstore \<Rightarrow> ('k, 'v) kvstore" where
  "change_slot didx s evs kvs = (fold (run_event didx) evs kvs)\<lparr>kv_dicts := (kv_dicts kvs)[didx := s],
    allocated_dicts := allocated_dicts kvs + of_bool (s \<noteq> None) - of_bool (kv_dicts kvs ! didx \<noteq> None)\<rparr>"

lemma change_slot_frame [simp]:
  "kv_dicts (change_slot didx s evs kvs) = (kv_dicts kvs)[didx := s]"
  "num_dicts_bits (change_slot didx s evs kvs) = num_dicts_bits kvs"
  "num_dicts (change_slot didx s evs kvs) = num_dicts kvs"
  "non_empty_dicts (change_slot didx s evs kvs) = non_empty_dicts kvs"
  "key_count (change_slot didx s evs kvs) = key_count kvs"
  "dict_sizes (change_slot didx s evs kvs) = dict_sizes kvs"
  "free_empty (change_slot didx s evs kvs) = free_empty kvs"
  "on_demand (change_slot didx s evs kvs) = on_demand kvs"
  "resize_cursor (change_slot didx s evs kvs) = resize_cursor kvs"
  by (simp_all add: change_slot_def num_dicts_def)

lemma change_slot_sums:
  "bucket_count (change_slot didx s evs kvs) = bucket_count kvs + word_of_int (bucket_delta evs)"
  "overhead_hashtable_rehashing (change_slot didx s evs kvs) = overhead_hashtable_rehashing kvs + word_of_int (overhead_delta evs)"
  "allocated_dicts (change_slot didx s evs kvs) = allocated_dicts kvs + of_bool (s \<noteq> None) - of_bool (kv_dicts kvs ! didx \<noteq> None)"
  by (simp_all add: change_slot_def run_events_sums)

lemma change_slot_counts [simp]:
  "tally (change_slot didx s evs kvs) ns = tally kvs ns" "counts (change_slot didx s evs kvs) ns = counts kvs ns"
  by (simp_all add: counts_def tally_def)

lemma change_slot_sizes: "kvs_sizes (change_slot didx s evs kvs) = (kvs_sizes kvs)[didx := slot_size s]"
  by (simp add: kvs_sizes_def map_update)

lemma change_slot_sum:
  "didx < length (kv_dicts kvs) \<Longrightarrow> slot_sum f (change_slot didx s evs kvs) = slot_sum f kvs + f s - f (kv_dicts kvs ! didx)"
  by (simp add: slot_sum_def map_update sum_list_update_int)

lemma change_slot_kvs_frame:
  assumes fr: "kvs_frame ty kvs" and i: "didx < length (kv_dicts kvs)" and s: "slot_ok ty s"
    and b: "slot_buckets s = slot_buckets (kv_dicts kvs ! didx) + bucket_delta evs"
    and ov: "slot_overhead s = slot_overhead (kv_dicts kvs ! didx) + overhead_delta evs"
    and r: "rehash_after (slot_rehashing (kv_dicts kvs ! didx)) evs = Some (slot_rehashing s)"
  shows "kvs_frame ty (change_slot didx s evs kvs)"
proof -
  let ?k = "change_slot didx s evs kvs"
  have mem: "didx \<in> set (kv_rehashing kvs) \<longleftrightarrow> slot_rehashing (kv_dicts kvs ! didx)"
    using fr i by (simp add: kvs_frame_def)
  have "distinct (kv_rehashing kvs)" "rehash_after (didx \<in> set (kv_rehashing kvs)) evs = Some (slot_rehashing s)"
    using fr r mem by (simp_all add: kvs_frame_def)
  note l = run_events_rehashing[OF this]
  have "set (kv_rehashing ?k) = {j. j < length (kv_dicts ?k) \<and> slot_rehashing (kv_dicts ?k ! j)}"
    using l fr i by (auto simp: change_slot_def kvs_frame_def nth_list_update)
  moreover have "distinct (kv_rehashing ?k)" using l by (simp add: change_slot_def)
  moreover have "\<forall>x \<in> set (kv_dicts ?k). slot_ok ty x"
    using fr s by (auto simp: kvs_frame_def dest!: subsetD[OF set_update_subset_insert])
  moreover have "bucket_count ?k = word_of_int (slot_sum slot_buckets ?k)"
    using fr b i by (simp add: change_slot_sum change_slot_sums kvs_frame_def)
  moreover have "overhead_hashtable_rehashing ?k = word_of_int (slot_sum slot_overhead ?k)"
    using fr ov i by (simp add: change_slot_sum change_slot_sums kvs_frame_def)
  moreover have "allocated_dicts ?k = slot_sum (\<lambda>s. of_bool (s \<noteq> None)) ?k"
    using fr i by (simp add: change_slot_sum change_slot_sums kvs_frame_def)
  ultimately show ?thesis using fr by (simp add: kvs_frame_def)
qed

definition slot_map :: "('k, 'v) dict option \<Rightarrow> 'k \<Rightarrow> 'v option" where
  "slot_map s = (case s of None \<Rightarrow> Map.empty | Some d \<Rightarrow> dict_map d)"

lemma kvs_map_slot: "kvs_map kvs (i, k) = (if i < length (kv_dicts kvs) then slot_map (kv_dicts kvs ! i) k else None)"
  by (simp add: kvs_map_def slot_map_def split: option.split)

lemma change_slot_same_map:
  assumes "didx < length (kv_dicts kvs)" "slot_map s = slot_map (kv_dicts kvs ! didx)"
  shows "kvs_map (change_slot didx s evs kvs) = kvs_map kvs"
proof
  fix ik
  show "kvs_map (change_slot didx s evs kvs) ik = kvs_map kvs ik"
    using assms by (cases ik) (simp add: kvs_map_slot nth_list_update)
qed

text \<open>The three ways in which the store changes a slot.\<close>

lemma settle_change:
  assumes "kv_dicts kvs ! didx = Some d0"
  shows "settle didx d kvs = change_slot didx (Some (d\<lparr>d_log := []\<rparr>)) (d_log d) kvs"
  using assms by (simp add: settle_def change_slot_def)

lemma log_simps [simp]:
  "dict_ok ty (d\<lparr>d_log := l\<rparr>) = dict_ok ty d" "dict_map (d\<lparr>d_log := l\<rparr>) = dict_map d" "dictSize (d\<lparr>d_log := l\<rparr>) = dictSize d"
  "dictBuckets (d\<lparr>d_log := l\<rparr>) = dictBuckets d" "overhead (d\<lparr>d_log := l\<rparr>) = overhead d"
  "dictIsRehashing (d\<lparr>d_log := l\<rparr>) = dictIsRehashing d" "dict_ready ty (d\<lparr>d_log := l\<rparr>) = dict_ready ty d"
  by (simp_all add: dict_ok_def dict_map_def entries_def dictIsRehashing_def dictSize_def dictBuckets_def overhead_def dict_ready_def)

lemma settle_kvs_frame:
  assumes fr: "kvs_frame ty kvs" and i: "didx < length (kv_dicts kvs)" and d: "kv_dicts kvs ! didx = Some d"
    and d': "dict_ready ty d'" "accounted d d'"
  shows "kvs_frame ty (settle didx d' kvs)"
proof -
  have "d_log d = []" using fr i d by (metis kvs_frame_def nth_mem slot_ok_def)
  then have "int (dictBuckets d') = int (dictBuckets d) + bucket_delta (d_log d')"
    "overhead d' = overhead d + overhead_delta (d_log d')" "rehash_after (dictIsRehashing d) (d_log d') = Some (dictIsRehashing d')"
    using d'(2) by (auto simp: accounted_def)
  then show ?thesis unfolding settle_change[OF d]
    by (intro change_slot_kvs_frame fr i) (use d d'(1) in \<open>simp_all add: slot_ok_def\<close>)
qed

lemma slot_readyD:
  assumes "kvs_frame ty kvs" "didx < length (kv_dicts kvs)" "kv_dicts kvs ! didx = Some d"
  shows "dict_ready ty d" "d_log d = []"
  using assms by (metis kvs_frame_def nth_mem slot_ok_def)+

lemma dictCreate_simps [simp]:
  "dictSize dictCreate = 0" "dictBuckets dictCreate = 0" "overhead dictCreate = 0" "dictIsRehashing dictCreate = False"
  "d_log dictCreate = []" "dict_ready ty dictCreate"
  using dictCreate_ok(1)[of ty] by (simp_all add: dictSize_def dictBuckets_def overhead_def dictIsRehashing_def dictCreate_def dict_ready_def)

text \<open>A dictionary made on demand changes no count and no content.\<close>

lemma createDictIfNeeded_ok:
  assumes fr: "kvs_frame ty kvs" and i: "didx < length (kv_dicts kvs)"
  shows "\<exists>kvs' d. createDictIfNeeded kvs didx = Some (kvs', d) \<and> kvs_frame ty kvs' \<and> kv_dicts kvs' ! didx = Some d
    \<and> length (kv_dicts kvs') = length (kv_dicts kvs) \<and> kvs_map kvs' = kvs_map kvs \<and> kvs_sizes kvs' = kvs_sizes kvs
    \<and> counts kvs' = counts kvs \<and> num_dicts kvs' = num_dicts kvs"
proof (cases "kv_dicts kvs ! didx")
  case (Some d)
  then show ?thesis using fr i by (simp add: createDictIfNeeded_def kvstoreGetDict_def)
next
  case None
  let ?k = "change_slot didx (Some dictCreate) [] kvs"
  have run: "createDictIfNeeded kvs didx = Some (?k, dictCreate)"
    using None i by (simp add: createDictIfNeeded_def kvstoreGetDict_def change_slot_def)
  have "kvs_frame ty ?k" using None by (intro change_slot_kvs_frame fr i) (simp_all add: slot_ok_def)
  moreover have "kvs_map ?k = kvs_map kvs"
    using None i by (intro change_slot_same_map) (simp_all add: slot_map_def dictCreate_ok(2))
  moreover have "kvs_sizes ?k = kvs_sizes kvs"
    unfolding change_slot_sizes using None i by (simp add: kvs_sizes_def list_update_same_conv)
  ultimately show ?thesis unfolding run using i by (auto simp: fun_eq_iff)
qed

text \<open>Releasing an empty dictionary changes no count and no content.\<close>

lemma freeDictIfNeeded_ok:
  assumes fr: "kvs_frame ty kvs" and i: "didx < length (kv_dicts kvs)"
  shows "\<exists>kvs'. freeDictIfNeeded canFree kvs didx = Some kvs' \<and> kvs_frame ty kvs'
    \<and> kvs_map kvs' = kvs_map kvs \<and> kvs_sizes kvs' = kvs_sizes kvs \<and> counts kvs' = counts kvs \<and> length (kv_dicts kvs') = length (kv_dicts kvs)"
proof (cases "\<exists>d. free_empty kvs \<and> kv_dicts kvs ! didx = Some d \<and> dictSize d = 0 \<and> \<not> dictIsRehashingPaused d \<and> canFree kvs didx")
  case True
  then obtain d where d: "kv_dicts kvs ! didx = Some d" "dictSize d = 0" by blast
  let ?k = "change_slot didx None (dictRelease d) kvs"
  have run: "freeDictIfNeeded canFree kvs didx = Some ?k"
    using True d i by (auto simp: freeDictIfNeeded_def kvstoreGetDict_def change_slot_def)
  note rd = slot_readyD[OF fr i d(1)]
  obtain evs where "dictRelease d = evs" "bucket_delta evs = - int (dictBuckets d)" "overhead_delta evs = - overhead d"
    "rehash_after (dictIsRehashing d) evs = Some False" using dictRelease_log[of d] rd(2) by auto
  then have "kvs_frame ty ?k" using d by (intro change_slot_kvs_frame fr i) (simp_all add: slot_ok_def)
  moreover have "dict_map d = Map.empty" using rd(1) d(2) empty_map by (auto simp: dict_ready_def)
  then have "kvs_map ?k = kvs_map kvs" using d i by (intro change_slot_same_map) (simp_all add: slot_map_def)
  moreover have "kvs_sizes ?k = kvs_sizes kvs"
    unfolding change_slot_sizes using d i by (simp add: kvs_sizes_def list_update_same_conv)
  ultimately show ?thesis using run by (auto simp: fun_eq_iff)
next
  case False
  then have "freeDictIfNeeded canFree kvs didx = Some kvs"
    using i by (auto simp: freeDictIfNeeded_def kvstoreGetDict_def split: option.splits)
  then show ?thesis using fr by auto
qed

section \<open>Counting keys\<close>

definition recount :: "u64 \<Rightarrow> int \<Rightarrow> fenwickTree option \<Rightarrow> ('k, 'v) kvstore \<Rightarrow> ('k, 'v) kvstore" where
  "recount keys ne sizes kvs = kvs\<lparr>key_count := keys, non_empty_dicts := ne, dict_sizes := sizes\<rparr>"

lemma recount_simps [simp]:
  "kv_dicts (recount a b c kvs) = kv_dicts kvs" "num_dicts (recount a b c kvs) = num_dicts kvs"
  "key_count (recount a b c kvs) = a" "non_empty_dicts (recount a b c kvs) = b" "dict_sizes (recount a b c kvs) = c"
  "kvs_sizes (recount a b c kvs) = kvs_sizes kvs" "kvs_frame ty (recount a b c kvs) = kvs_frame ty kvs"
  by (simp_all add: recount_def kvs_frame_def num_dicts_def slot_sum_def kvs_sizes_def)

lemma recount_map [simp]: "kvs_map (recount a b c kvs) = kvs_map kvs"
  by (simp add: fun_eq_iff kvs_map_slot)

lemma sum_list_change:
  "i < length ns \<Longrightarrow> int n = int (ns ! i) + delta \<Longrightarrow> int (sum_list (ns[i := n])) = int (sum_list ns) + delta"
  using elem_le_sum_list[of i ns] by (simp add: sum_list_update)

lemma non_empty_change:
  "i < length ns \<Longrightarrow> non_empty (ns[i := n]) = non_empty ns + of_bool (n \<noteq> 0) - of_bool (ns ! i \<noteq> 0)"
  by (simp add: non_empty_def map_update sum_list_update_int)

definition ne_delta :: "nat \<Rightarrow> int \<Rightarrow> int" where
  "ne_delta dsize delta = (if dsize = 1 \<and> 0 < delta then 1 else if dsize = 0 then - 1 else 0)"

text \<open>For every delta the number of keys and the tree follow the sizes; the number of non-empty
  dictionaries changes by what the size of the dictionary suggests.\<close>

lemma cumulativeKeyCountAdd_tally:
  assumes i: "didx < length (kv_dicts kvs)" and d: "kv_dicts kvs ! didx = Some d" and t: "tally kvs ns"
    and n: "didx < length ns" "int n = int (ns ! didx) + delta" and room: "sum_list (ns[didx := n]) < 2 ^ 64 - 1"
  shows "\<exists>keys sizes. cumulativeKeyCountAdd kvs didx delta = Some (recount keys (non_empty_dicts kvs + ne_delta (dictSize d) delta) sizes kvs)
    \<and> tally (recount keys (non_empty_dicts kvs + ne_delta (dictSize d) delta) sizes kvs) (ns[didx := n])"
proof -
  let ?ns = "ns[didx := n]" and ?keys = "key_count kvs + word_of_int delta" and ?ne = "non_empty_dicts kvs + ne_delta (dictSize d) delta"
  note sums = sum_list_change[OF n]
  then have "(of_nat (sum_list ?ns) :: u64) = of_nat (sum_list ns) + word_of_int delta"
    by (metis of_int_add of_int_of_nat_eq)
  then have key: "?keys = of_nat (sum_list ?ns)" using t by (simp add: tally_def)
  have run: "cumulativeKeyCountAdd kvs didx delta = (if num_dicts kvs = 1 then Some (recount ?keys ?ne (dict_sizes kvs) kvs)
      else do { sizes \<leftarrow> fwTreeUpdate (dict_sizes kvs) (int didx) delta; Some (recount ?keys ?ne sizes kvs) })"
    using d i by (simp add: cumulativeKeyCountAdd_def kvstoreGetDict_def Let_def num_dicts_def ne_delta_def recount_def)
  show ?thesis
  proof (cases "num_dicts kvs = 1")
    case True
    then have "tally (recount ?keys ?ne (dict_sizes kvs) kvs) ?ns" using t key room by (simp add: tally_def)
    then show ?thesis using run True by auto
  next
    case False
    then obtain ft where ft: "dict_sizes kvs = Some ft" "fw_rep ft ns" using t by (auto simp: tally_def)
    have "nat (int (ns ! didx) + delta) = n" using n(2) by simp
    moreover have "int (sum_list ns) + delta < 2 ^ 64" unfolding sums[symmetric] using room by simp
    ultimately obtain ft' where ft': "fwTreeUpdate (Some ft) (int didx) delta = Some (Some ft')" "fw_rep ft' ?ns"
      using fwTreeUpdate_rep[OF ft(2) n(1), of delta] n(2) by auto
    have "tally (recount ?keys ?ne (Some ft') kvs) ?ns" using False key room ft'(2) t by (simp add: tally_def)
    then show ?thesis using run False ft(1) ft'(1) by auto
  qed
qed

lemma cumulativeKeyCountAdd_ok:
  assumes fr: "kvs_frame ty kvs" and i: "didx < length (kv_dicts kvs)" and d: "kv_dicts kvs ! didx = Some d"
    and c: "counts kvs ((kvs_sizes kvs)[didx := n])" and delta: "int (dictSize d) = int n + delta" "delta = 1 \<or> delta = - 1"
    and room: "sum_list (kvs_sizes kvs) < 2 ^ 64 - 1"
  shows "\<exists>kvs'. cumulativeKeyCountAdd kvs didx delta = Some kvs' \<and> kvs_ok ty kvs' \<and> kvs_map kvs' = kvs_map kvs
    \<and> kv_dicts kvs' = kv_dicts kvs"
proof -
  let ?ns = "(kvs_sizes kvs)[didx := n]" and ?S = "kvs_sizes kvs"
  have S: "?ns[didx := dictSize d] = ?S" "?ns ! didx = n" "didx < length ?ns"
    using i d by (simp_all add: kvs_sizes_def list_update_same_conv)
  have t: "tally kvs ?ns" using c by (simp add: counts_def)
  obtain keys sizes where r: "cumulativeKeyCountAdd kvs didx delta = Some (recount keys (non_empty_dicts kvs + ne_delta (dictSize d) delta) sizes kvs)"
    "tally (recount keys (non_empty_dicts kvs + ne_delta (dictSize d) delta) sizes kvs) ?S"
    using cumulativeKeyCountAdd_tally[OF i d t S(3), of "dictSize d" delta] S(1,2) delta(1) room by auto
  have "non_empty ?S = non_empty ?ns + of_bool (dictSize d \<noteq> 0) - of_bool (n \<noteq> 0)"
    using non_empty_change[OF S(3), of "dictSize d"] S(1,2) by simp
  moreover have "ne_delta (dictSize d) delta = of_bool (dictSize d \<noteq> 0) - of_bool (n \<noteq> 0)"
    using delta by (auto simp: ne_delta_def)
  ultimately have "non_empty_dicts kvs + ne_delta (dictSize d) delta = non_empty ?S" using c by (simp add: counts_def)
  then show ?thesis using r fr by (simp add: kvs_ok_def counts_def)
qed

section \<open>Operations\<close>

lemma settle_stores:
  assumes fr: "kvs_frame ty kvs" and i: "didx < length (kv_dicts kvs)" and d: "kv_dicts kvs ! didx = Some d"
    and st: "stores ty d d' m"
  shows "kvs_frame ty (settle didx d' kvs)" "kvs_sizes (settle didx d' kvs) = (kvs_sizes kvs)[didx := dictSize d']"
    "kvs_map (settle didx d' kvs) = (\<lambda>(j, key). if j = didx then m key else kvs_map kvs (j, key))"
    "counts (settle didx d' kvs) = counts kvs" "kv_dicts (settle didx d' kvs) = (kv_dicts kvs)[didx := Some (d'\<lparr>d_log := []\<rparr>)]"
proof -
  have rd: "dict_ready ty d'" using stores_ready[OF slot_readyD(1)[OF fr i d] st] .
  show "kvs_frame ty (settle didx d' kvs)" using settle_kvs_frame[OF fr i d rd] st by (simp add: stores_def)
  show "kvs_sizes (settle didx d' kvs) = (kvs_sizes kvs)[didx := dictSize d']"
    unfolding settle_change[OF d] change_slot_sizes by simp
  show "kvs_map (settle didx d' kvs) = (\<lambda>(j, key). if j = didx then m key else kvs_map kvs (j, key))"
    unfolding settle_change[OF d] using i st
    by (auto simp: fun_eq_iff kvs_map_slot slot_map_def nth_list_update stores_def)
  show "counts (settle didx d' kvs) = counts kvs" "kv_dicts (settle didx d' kvs) = (kv_dicts kvs)[didx := Some (d'\<lparr>d_log := []\<rparr>)]"
    unfolding settle_change[OF d] by (simp_all add: fun_eq_iff)
qed

lemma kvs_map_at: "didx < length (kv_dicts kvs) \<Longrightarrow> kv_dicts kvs ! didx = Some d \<Longrightarrow> kvs_map kvs (didx, key) = dict_map d key"
  by (simp add: kvs_map_slot slot_map_def)

lemma slot_upd:
  assumes "didx < length (kv_dicts kvs)" "kv_dicts kvs ! didx = Some d"
  shows "(\<lambda>(j, k). if j = didx then ((dict_map d)(key := v)) k else kvs_map kvs (j, k)) = (kvs_map kvs)((didx, key) := v)"
    "(\<lambda>(j, k). if j = didx then dict_map d k else kvs_map kvs (j, k)) = kvs_map kvs"
  using kvs_map_at[OF assms] by (auto simp: fun_eq_iff)

lemma sizes_nth: "didx < length (kv_dicts kvs) \<Longrightarrow> kv_dicts kvs ! didx = Some d \<Longrightarrow> kvs_sizes kvs ! didx = dictSize d"
  by (simp add: kvs_sizes_def)

lemma sizes_self: "didx < length (kv_dicts kvs) \<Longrightarrow> kv_dicts kvs ! didx = Some d \<Longrightarrow> (kvs_sizes kvs)[didx := dictSize d] = kvs_sizes kvs"
  by (simp add: kvs_sizes_def list_update_same_conv)

text \<open>An operation that stores the same map keeps the invariant.\<close>

lemma settle_same:
  assumes ok: "kvs_ok ty kvs" and i: "didx < length (kv_dicts kvs)" and d: "kv_dicts kvs ! didx = Some d"
    and st: "stores ty d d' m" "dom m = dom (dict_map d)"
  shows "kvs_ok ty (settle didx d' kvs)"
proof -
  have fr: "kvs_frame ty kvs" using ok by (simp add: kvs_ok_def)
  have "dict_ok ty d" using slot_readyD(1)[OF fr i d] by (simp add: dict_ready_def)
  then have "dictSize d' = dictSize d" using st dictSize_card(1)[of ty d'] dictSize_card(1)[of ty d] by (simp add: stores_def)
  then show ?thesis using settle_stores[OF fr i d st(1)] sizes_self[OF i d] ok by (simp add: kvs_ok_def)
qed

text \<open>An operation that adds or removes one key, followed by the update of the counts.\<close>

lemma settle_count:
  assumes fr: "kvs_frame ty kvs" and c: "counts kvs (kvs_sizes kvs)" and i: "didx < length (kv_dicts kvs)"
    and d: "kv_dicts kvs ! didx = Some d" and st: "stores ty d d' ((dict_map d)(key := v))"
    and delta: "delta = (if v = None then - 1 else 1)" "v = None \<longleftrightarrow> dict_map d key \<noteq> None"
    and room: "v \<noteq> None \<longrightarrow> sum_list (kvs_sizes kvs) + 1 < 2 ^ 64 - 1"
  shows "\<exists>kvs'. cumulativeKeyCountAdd (settle didx d' kvs) didx delta = Some kvs' \<and> kvs_ok ty kvs'
    \<and> kvs_map kvs' = (kvs_map kvs)((didx, key) := v) \<and> length (kv_dicts kvs') = length (kv_dicts kvs)"
proof -
  let ?k = "settle didx d' kvs"
  note s = settle_stores[OF fr i d st]
  have "dict_ok ty d" "dict_ok ty d'" using slot_readyD(1)[OF fr i d] st by (auto simp: dict_ready_def stores_def)
  note card = dictSize_card[OF this(1)] dictSize_card(1)[OF this(2)]
  have "0 < card (dom (dict_map d))" if "v = None" using that delta(2) card(2) by (auto simp: card_gt_0_iff)
  then have sz: "int (dictSize d') = int (dictSize d) + delta"
    using card st delta by (cases v) (auto simp: stores_def card_Diff_singleton domIff of_nat_diff)
  have len: "didx < length (kvs_sizes kvs)" using i by (simp add: kvs_sizes_def)
  have was: "(kvs_sizes ?k)[didx := dictSize d] = kvs_sizes kvs" unfolding s(2) using sizes_self[OF i d] by simp
  have "int (sum_list (kvs_sizes ?k)) = int (sum_list (kvs_sizes kvs)) + delta"
    unfolding s(2) using sum_list_change[OF len] sz sizes_nth[OF i d] by simp
  moreover have "sum_list (kvs_sizes kvs) < 2 ^ 64 - 1" using c by (simp add: counts_def tally_def)
  ultimately have rm: "sum_list (kvs_sizes ?k) < 2 ^ 64 - 1" using room delta(1) by (cases v) auto
  have pm: "delta = 1 \<or> delta = - 1" using delta(1) by simp
  have "kv_dicts ?k ! didx = Some (d'\<lparr>d_log := []\<rparr>)" "didx < length (kv_dicts ?k)" using s(5) i by simp_all
  from cumulativeKeyCountAdd_ok[OF s(1) this(2,1) _ _ _ rm, of "dictSize d" delta]
  obtain kvs' where "cumulativeKeyCountAdd ?k didx delta = Some kvs'" "kvs_ok ty kvs'" "kvs_map kvs' = kvs_map ?k" "kv_dicts kvs' = kv_dicts ?k"
    using was c s(4) sz pm by auto
  then show ?thesis using s(3,5) slot_upd(1)[OF i d] by simp
qed

lemma kvstoreDictFetchValue_ok:
  assumes ok: "kvs_ok ty kvs" and i: "didx < length (kv_dicts kvs)"
  shows "\<exists>kvs'. kvstoreDictFetchValue ty rs kvs didx key = Some (kvs', kvs_map kvs (didx, key)) \<and> kvs_ok ty kvs' \<and> kvs_map kvs' = kvs_map kvs
    \<and> length (kv_dicts kvs') = length (kv_dicts kvs)"
proof (cases "kv_dicts kvs ! didx")
  case None
  then show ?thesis using ok i by (simp add: kvstoreDictFetchValue_def kvstoreGetDict_def kvs_map_slot slot_map_def)
next
  case (Some d)
  have fr: "kvs_frame ty kvs" using ok by (simp add: kvs_ok_def)
  have "dict_ok ty d" using slot_readyD(1)[OF fr i Some] by (simp add: dict_ready_def)
  then obtain d' where d': "dictFetchValue ty rs d key = Some (d', dict_map d key)" "rearranged ty d d'"
    using dictFetchValue_ok[of ty d rs key] by auto
  note st = rearranged_stores[OF d'(2)]
  show ?thesis using d'(1) Some i settle_same[OF ok i Some st] settle_stores(3,5)[OF fr i Some st] slot_upd(2)[OF i Some] kvs_map_at[OF i Some]
    by (simp add: kvstoreDictFetchValue_def kvstoreGetDict_def)
qed

lemma kvstoreDictAddRaw_ok:
  assumes ok: "kvs_ok ty kvs" and i: "didx < length (kv_dicts kvs)" and room: "sum_list (kvs_sizes kvs) + 1 < 2 ^ 64 - 1"
  shows "\<exists>kvs'. kvstoreDictAddRaw ty rs kvs didx key val = Some (kvs', kvs_map kvs (didx, key) = None) \<and> kvs_ok ty kvs'
    \<and> kvs_map kvs' = (if kvs_map kvs (didx, key) = None then (kvs_map kvs)((didx, key) \<mapsto> val) else kvs_map kvs)
    \<and> length (kv_dicts kvs') = length (kv_dicts kvs)"
proof -
  have fr: "kvs_frame ty kvs" and c: "counts kvs (kvs_sizes kvs)" using ok by (simp_all add: kvs_ok_def)
  obtain k1 d where k1: "createDictIfNeeded kvs didx = Some (k1, d)" "kvs_frame ty k1" "kv_dicts k1 ! didx = Some d"
    "length (kv_dicts k1) = length (kv_dicts kvs)" "kvs_map k1 = kvs_map kvs" "kvs_sizes k1 = kvs_sizes kvs" "counts k1 = counts kvs"
    using createDictIfNeeded_ok[OF fr i] by blast
  have i1: "didx < length (kv_dicts k1)" using i k1(4) by simp
  have rd: "dict_ready ty d" using slot_readyD(1)[OF k1(2) i1 k1(3)] .
  then have dok: "dict_ok ty d" "ht_table (ht0 d) \<noteq> [] \<or> pauseAutoResize d \<le> 0" by (auto simp: dict_ready_def)
  obtain d' l where a: "dictAddRaw ty rs d key val = Some (d', dict_map d key = None, l)"
    "stores ty d d' (if dict_map d key = None then (dict_map d)(key \<mapsto> val) else dict_map d)"
    using dictAddRaw_ok[OF dok, of rs key val] by blast
  have m: "kvs_map kvs (didx, key) = dict_map d key" using kvs_map_at[OF i1 k1(3)] k1(5) by simp
  have ok1: "kvs_ok ty k1" using k1 c by (simp add: kvs_ok_def)
  show ?thesis
  proof (cases "dict_map d key")
    case None
    then have "stores ty d d' ((dict_map d)(key := Some val))" using a(2) by simp
    from settle_count[OF k1(2) _ i1 k1(3) this refl] None room c k1(6,7) show ?thesis
      using a(1) k1(1,4,5) m by (auto simp: kvstoreDictAddRaw_def)
  next
    case (Some v)
    then have st: "stores ty d d' (dict_map d)" using a(2) by simp
    show ?thesis using settle_same[OF ok1 i1 k1(3) st] settle_stores(3,5)[OF k1(2) i1 k1(3) st] slot_upd(2)[OF i1 k1(3)]
      a(1) k1(1,4,5) m Some by (auto simp: kvstoreDictAddRaw_def)
  qed
qed

lemma kvstoreDictDelete_ok:
  assumes ok: "kvs_ok ty kvs" and i: "didx < length (kv_dicts kvs)"
  shows "\<exists>kvs'. kvstoreDictDelete ty rs canFree kvs didx key = Some (kvs', kvs_map kvs (didx, key) \<noteq> None) \<and> kvs_ok ty kvs'
    \<and> kvs_map kvs' = (kvs_map kvs)((didx, key) := None) \<and> length (kv_dicts kvs') = length (kv_dicts kvs)"
proof (cases "kv_dicts kvs ! didx")
  case None
  then have "kvs_map kvs (didx, key) = None" using i by (simp add: kvs_map_slot slot_map_def)
  then show ?thesis using None ok i by (simp add: kvstoreDictDelete_def kvstoreGetDict_def fun_upd_idem)
next
  case (Some d)
  have fr: "kvs_frame ty kvs" and c: "counts kvs (kvs_sizes kvs)" using ok by (simp_all add: kvs_ok_def)
  have dok: "dict_ok ty d" using slot_readyD(1)[OF fr i Some] by (simp add: dict_ready_def)
  obtain d' where a: "dictDelete ty rs d key = Some (d', key \<in> dom (dict_map d))" "stores ty d d' ((dict_map d)(key := None))"
    using dictDelete_ok[OF dok, of rs key] by auto
  note m = kvs_map_at[OF i Some, of key]
  show ?thesis
  proof (cases "dict_map d key")
    case none: None
    then have "(dict_map d)(key := None) = dict_map d" by (simp add: fun_upd_idem)
    then have st: "stores ty d d' (dict_map d)" using a(2) by simp
    show ?thesis using settle_same[OF ok i Some st] settle_stores(3,5)[OF fr i Some st] slot_upd(2)[OF i Some] a(1) m none Some i
      by (auto simp: kvstoreDictDelete_def kvstoreGetDict_def domIff fun_upd_idem)
  next
    case (Some v)
    obtain k1 where k1: "cumulativeKeyCountAdd (settle didx d' kvs) didx (- 1) = Some k1" "kvs_ok ty k1"
      "kvs_map k1 = (kvs_map kvs)((didx, key) := None)" "length (kv_dicts k1) = length (kv_dicts kvs)"
      using settle_count[OF fr c i \<open>kv_dicts kvs ! didx = Some d\<close> a(2) refl] Some by auto
    obtain k2 where "freeDictIfNeeded canFree k1 didx = Some k2" "kvs_ok ty k2" "kvs_map k2 = kvs_map k1" "length (kv_dicts k2) = length (kv_dicts k1)"
      using freeDictIfNeeded_ok[of ty k1 didx canFree] k1(2,4) i by (auto simp: kvs_ok_def)
    then show ?thesis using k1 a(1) m Some i \<open>kv_dicts kvs ! didx = Some d\<close>
      by (auto simp: kvstoreDictDelete_def kvstoreGetDict_def domIff)
  qed
qed

text \<open>Replacing through a link, the way the database writes a key: look the link up, then set the
  entry at the link or insert at the bucket.\<close>

definition kvs_replace :: "'k dictType \<Rightarrow> dictResizeEnable \<Rightarrow> ('k, 'v) kvstore \<Rightarrow> nat \<Rightarrow> 'k \<Rightarrow> 'v \<Rightarrow> (('k, 'v) kvstore \<times> bool) option" where
  "kvs_replace ty rs kvs didx key val =
    do { (kvs', l, b) \<leftarrow> kvstoreDictFindLink ty rs kvs didx key;
         case l of
           Some l' \<Rightarrow> map_option (\<lambda>k. (k, False)) (kvstoreDictSetAtLink_old ty rs kvs' didx (key, val) (Some l'))
         | None \<Rightarrow> map_option (\<lambda>k. (k, True)) (kvstoreDictSetAtLink_new ty rs kvs' didx (key, val) b) }"

lemma log_link_simps [simp]:
  "ht0 (d\<lparr>d_log := l\<rparr>) = ht0 d" "ht (d\<lparr>d_log := l\<rparr>) t = ht d t" "insert_table (d\<lparr>d_log := l\<rparr>) = insert_table d"
  "valid_link (d\<lparr>d_log := l\<rparr>) x = valid_link d x" "entry_at (d\<lparr>d_log := l\<rparr>) x = entry_at d x"
  by (auto simp: ht_def insert_table_def dictIsRehashing_def valid_link_def entry_at_def split: prod.split)

lemma kvstoreDictFindLink_ok:
  assumes ok: "kvs_ok ty kvs" and i: "didx < length (kv_dicts kvs)"
  shows "\<exists>k1 l b. kvstoreDictFindLink ty rs kvs didx key = Some (k1, l, b) \<and> kvs_ok ty k1 \<and> kvs_map k1 = kvs_map kvs
    \<and> kvs_sizes k1 = kvs_sizes kvs \<and> length (kv_dicts k1) = length (kv_dicts kvs)
    \<and> (case l of
        Some l' \<Rightarrow> kvs_map kvs (didx, key) \<noteq> None \<and> (\<exists>d. kv_dicts k1 ! didx = Some d \<and> valid_link d l' \<and> fst (entry_at d l') = key)
      | None \<Rightarrow> kvs_map kvs (didx, key) = None \<and> (b = None \<or> (\<exists>d. kv_dicts k1 ! didx = Some d
          \<and> b = Some (insert_table d, masked (hashFunction ty key) (ht_size_exp (ht d (insert_table d)))))))"
proof (cases "kv_dicts kvs ! didx")
  case None
  then show ?thesis using ok i by (auto simp: kvstoreDictFindLink_def kvstoreGetDict_def kvs_map_slot slot_map_def)
next
  case (Some d)
  have fr: "kvs_frame ty kvs" using ok by (simp add: kvs_ok_def)
  have dok: "dict_ok ty d" using slot_readyD(1)[OF fr i Some] by (simp add: dict_ready_def)
  obtain d' l b where f: "dictFindLink ty rs d key True = Some (d', l, b)" "rearranged ty d d'"
    "map_option (entry_at d') l = map_option (Pair key) (dict_map d key)" "\<forall>l'. l = Some l' \<longrightarrow> valid_link d' l'"
    "dictSize d \<noteq> 0 \<longrightarrow> looked_up ty d' key l b"
    using dictFindLink_ok[OF dok, of rs key True] by blast
  note st = rearranged_stores[OF f(2)]
  note s = settle_stores[OF fr i Some st] and m = kvs_map_at[OF i Some, of key]
  have sz: "kvs_sizes (settle didx d' kvs) = kvs_sizes kvs"
    using s(2) rearranged_size[OF dok f(2)] sizes_self[OF i Some] by simp
  have b: "l = None \<longrightarrow> b = None \<or> b = Some (insert_table d', masked (hashFunction ty key) (ht_size_exp (ht d' (insert_table d'))))"
    using f(1,5) by (cases "dictSize d = 0") (auto simp: dictFindLink_def looked_up_def)
  have run: "kvstoreDictFindLink ty rs kvs didx key = Some (settle didx d' kvs, l, b)"
    using Some i f(1) by (simp add: kvstoreDictFindLink_def kvstoreGetDict_def)
  have "case l of Some l' \<Rightarrow> dict_map d key \<noteq> None \<and> valid_link d' l' \<and> fst (entry_at d' l') = key | None \<Rightarrow> dict_map d key = None"
    using f(3,4) by (cases "dict_map d key"; cases l) auto
  then show ?thesis unfolding run using settle_same[OF ok i Some st] s(3,5) slot_upd(2)[OF i Some] sz i b m
    by (auto split: option.splits)
qed

lemma kvs_replace_ok:
  assumes ok: "kvs_ok ty kvs" and i: "didx < length (kv_dicts kvs)" and room: "sum_list (kvs_sizes kvs) + 1 < 2 ^ 64 - 1"
  shows "\<exists>kvs'. kvs_replace ty rs kvs didx key val = Some (kvs', kvs_map kvs (didx, key) = None) \<and> kvs_ok ty kvs'
    \<and> kvs_map kvs' = (kvs_map kvs)((didx, key) \<mapsto> val) \<and> length (kv_dicts kvs') = length (kv_dicts kvs)"
proof -
  obtain k1 l b where f: "kvstoreDictFindLink ty rs kvs didx key = Some (k1, l, b)" "kvs_ok ty k1" "kvs_map k1 = kvs_map kvs"
    "kvs_sizes k1 = kvs_sizes kvs" "length (kv_dicts k1) = length (kv_dicts kvs)"
    and l: "case l of
        Some l' \<Rightarrow> kvs_map kvs (didx, key) \<noteq> None \<and> (\<exists>d. kv_dicts k1 ! didx = Some d \<and> valid_link d l' \<and> fst (entry_at d l') = key)
      | None \<Rightarrow> kvs_map kvs (didx, key) = None \<and> (b = None \<or> (\<exists>d. kv_dicts k1 ! didx = Some d
          \<and> b = Some (insert_table d, masked (hashFunction ty key) (ht_size_exp (ht d (insert_table d))))))"
    using kvstoreDictFindLink_ok[OF ok i, of rs key] by blast
  have i1: "didx < length (kv_dicts k1)" and fr1: "kvs_frame ty k1" using i f(2,5) by (simp_all add: kvs_ok_def)
  show ?thesis
  proof (cases l)
    case (Some l')
    then obtain d where d: "kv_dicts k1 ! didx = Some d" "valid_link d l'" "fst (entry_at d l') = key" "kvs_map kvs (didx, key) \<noteq> None"
      using l by auto
    have dok: "dict_ok ty d" using slot_readyD(1)[OF fr1 i1 d(1)] by (simp add: dict_ready_def)
    have old: "key \<in> dom (dict_map d)" using link_map[OF dok d(2)] d(3) by auto
    obtain d' where d': "dictSetKeyAtLink_old ty rs d (key, val) (Some l') = Some d'" "stores ty d d' ((dict_map d)(key \<mapsto> val))"
      using dictSetKeyAtLink_old_ok[OF dok, of "(key, val)" "Some l'" rs] old d(2,3) by auto
    have "kvs_ok ty (settle didx d' k1)" using settle_same[OF f(2) i1 d(1) d'(2)] old by auto
    moreover have "kvs_map (settle didx d' k1) = (kvs_map kvs)((didx, key) \<mapsto> val)"
      using settle_stores(3)[OF fr1 i1 d(1) d'(2)] slot_upd(1)[OF i1 d(1)] f(3) by simp
    moreover have "length (kv_dicts (settle didx d' k1)) = length (kv_dicts kvs)"
      using settle_stores(5)[OF fr1 i1 d(1) d'(2)] f(5) by simp
    ultimately show ?thesis using f(1) Some d(1,4) d'(1) i1
      by (auto simp: kvs_replace_def kvstoreDictSetAtLink_old_def kvstoreGetDict_def)
  next
    case None
    then have new: "kvs_map kvs (didx, key) = None" and b: "b = None \<or> (\<exists>d. kv_dicts k1 ! didx = Some d
        \<and> b = Some (insert_table d, masked (hashFunction ty key) (ht_size_exp (ht d (insert_table d)))))" using l by auto
    obtain k2 d where k2: "createDictIfNeeded k1 didx = Some (k2, d)" "kvs_frame ty k2" "kv_dicts k2 ! didx = Some d"
      "length (kv_dicts k2) = length (kv_dicts k1)" "kvs_map k2 = kvs_map k1" "kvs_sizes k2 = kvs_sizes k1" "counts k2 = counts k1"
      using createDictIfNeeded_ok[OF fr1 i1] by blast
    have i2: "didx < length (kv_dicts k2)" using i1 k2(4) by simp
    have dok: "dict_ok ty d" using slot_readyD(1)[OF k2(2) i2 k2(3)] by (simp add: dict_ready_def)
    have nd: "dict_map d key = None" using kvs_map_at[OF i2 k2(3), of key] k2(5) f(3) new by simp
    have "kv_dicts k1 ! didx = Some d'' \<Longrightarrow> d'' = d" for d''
      using k2(1) i1 by (auto simp: createDictIfNeeded_def kvstoreGetDict_def)
    then have lk: "b = None \<or> b = Some (insert_table d, masked (hashFunction ty key) (ht_size_exp (ht d (insert_table d))))" using b by blast
    obtain d' where d': "dictSetKeyAtLink_new ty rs d (key, val) b = Some d'" "stores ty d d' ((dict_map d)(key := Some val))"
      using dictSetKeyAtLink_new_ok[OF dok, of "(key, val)" b rs] nd lk by auto
    obtain k3 where "cumulativeKeyCountAdd (settle didx d' k2) didx 1 = Some k3" "kvs_ok ty k3"
      "kvs_map k3 = (kvs_map k2)((didx, key) := Some val)" "length (kv_dicts k3) = length (kv_dicts k2)"
      using settle_count[OF k2(2) _ i2 k2(3) d'(2) refl] nd room f(2,4) k2(6,7) by (auto simp: kvs_ok_def)
    then show ?thesis using f(1,3,5) None k2(1,4,5) d'(1) new by (auto simp: kvs_replace_def kvstoreDictSetAtLink_new_def)
  qed
qed

section \<open>The store as a map\<close>

lemma kvs_card:
  assumes "kvs_ok ty kvs"
  shows "sum_list (kvs_sizes kvs) = card (dom (kvs_map kvs))"
proof -
  let ?D = "\<lambda>i. dom (slot_map (kv_dicts kvs ! i))"
  have slots: "slot_size (kv_dicts kvs ! i) = card (?D i) \<and> finite (?D i)" if "i < length (kv_dicts kvs)" for i
  proof (cases "kv_dicts kvs ! i")
    case (Some d)
    then have "dict_ok ty d" using slot_readyD(1)[of ty kvs i d] assms that by (auto simp: kvs_ok_def dict_ready_def)
    then show ?thesis using dictSize_card Some by (auto simp: slot_map_def)
  qed (simp add: slot_map_def)
  have "dom (kvs_map kvs) = (SIGMA i : {..<length (kv_dicts kvs)}. ?D i)"
    by (auto simp: kvs_map_slot domIff split: if_splits)
  then have "card (dom (kvs_map kvs)) = (\<Sum>i<length (kv_dicts kvs). card (?D i))" using slots by simp
  also have "\<dots> = (\<Sum>i<length (kv_dicts kvs). slot_size (kv_dicts kvs ! i))" using slots by (intro sum.cong) auto
  also have "\<dots> = sum_list (kvs_sizes kvs)" by (simp add: kvs_sizes_def sum_list_sum_nth atLeast0LessThan)
  finally show ?thesis by simp
qed

fun op_key :: "('k, 'v) map_op \<Rightarrow> 'k" where
  "op_key (Fetch k) = k"
| "op_key (Add k v) = k"
| "op_key (Replace k v) = k"
| "op_key (Delete k) = k"

text \<open>The slot exists, and one more key still fits the counters.\<close>

definition kvs_legal :: "nat \<Rightarrow> (nat \<times> 'k, 'v) map_op \<Rightarrow> (nat \<times> 'k \<Rightarrow> 'v option) \<Rightarrow> bool" where
  "kvs_legal n x m \<longleftrightarrow> fst (op_key x) < n \<and> card (dom m) + 1 < 2 ^ 64 - 1"

fun kvs_step :: "'k dictType \<Rightarrow> (('k, 'v) kvstore \<Rightarrow> nat \<Rightarrow> bool) \<Rightarrow> dictResizeEnable \<Rightarrow> (nat \<times> 'k, 'v) map_op \<Rightarrow> ('k, 'v) kvstore
    \<Rightarrow> (('k, 'v) kvstore \<times> 'v map_out) option" where
  "kvs_step ty canFree rs (Fetch (i, k)) kvs = map_option (\<lambda>(s, v). (s, Value v)) (kvstoreDictFetchValue ty rs kvs i k)"
| "kvs_step ty canFree rs (Add (i, k) v) kvs = map_option (\<lambda>(s, b). (s, Flag b)) (kvstoreDictAddRaw ty rs kvs i k v)"
| "kvs_step ty canFree rs (Replace (i, k) v) kvs = map_option (\<lambda>(s, b). (s, Flag b)) (kvs_replace ty rs kvs i k v)"
| "kvs_step ty canFree rs (Delete (i, k)) kvs = map_option (\<lambda>(s, b). (s, Flag b)) (kvstoreDictDelete ty rs canFree kvs i k)"

definition kvs_sized :: "'k dictType \<Rightarrow> nat \<Rightarrow> ('k, 'v) kvstore \<Rightarrow> bool" where
  "kvs_sized ty n kvs \<longleftrightarrow> kvs_ok ty kvs \<and> length (kv_dicts kvs) = n"


lemma kvs_step_refines:
  assumes ok: "kvs_sized ty n kvs" and legal: "kvs_legal n x (kvs_map kvs)"
  shows "\<exists>kvs'. kvs_step ty canFree rs x kvs = Some (kvs', snd (map_spec x (kvs_map kvs))) \<and> kvs_sized ty n kvs'
    \<and> kvs_map kvs' = fst (map_spec x (kvs_map kvs))"
proof -
  obtain i k where ik: "op_key x = (i, k)" by fastforce
  have kok: "kvs_ok ty kvs" and i: "i < length (kv_dicts kvs)" and room: "sum_list (kvs_sizes kvs) + 1 < 2 ^ 64 - 1"
    using ok legal kvs_card[of ty kvs] ik by (auto simp: kvs_sized_def kvs_legal_def)
  show ?thesis
  proof (cases x)
    case (Fetch q)
    then show ?thesis using kvstoreDictFetchValue_ok[OF kok i, of rs k] ik ok by (auto simp: kvs_sized_def)
  next
    case (Add q v)
    then show ?thesis using kvstoreDictAddRaw_ok[OF kok i room, of rs k v] ik ok by (auto simp: kvs_sized_def)
  next
    case (Replace q v)
    then show ?thesis using kvs_replace_ok[OF kok i room, of rs k v] ik ok by (auto simp: kvs_sized_def)
  next
    case (Delete q)
    then show ?thesis using kvstoreDictDelete_ok[OF kok i, of rs canFree k] ik ok by (auto simp: kvs_sized_def)
  qed
qed

interpretation kvs_machine: map_machine "kvs_sized ty n" kvs_map "kvs_legal n" "kvs_step ty canFree" for ty n canFree
  by unfold_locales (rule kvs_step_refines)

section \<open>Creation\<close>

lemma create_dicts_ok:
  "kvs_ok ty kvs \<Longrightarrow> \<forall>i \<in> set is. i < length (kv_dicts kvs) \<Longrightarrow>
    \<exists>kvs'. create_dicts is kvs = Some kvs' \<and> kvs_ok ty kvs' \<and> kvs_map kvs' = kvs_map kvs \<and> length (kv_dicts kvs') = length (kv_dicts kvs)"
proof (induction "is" arbitrary: kvs)
  case (Cons i "is")
  then obtain k1 d where "createDictIfNeeded kvs i = Some (k1, d)" "kvs_ok ty k1" "kvs_map k1 = kvs_map kvs"
    "length (kv_dicts k1) = length (kv_dicts kvs)"
    using createDictIfNeeded_ok[of ty kvs i] by (auto simp: kvs_ok_def)
  then show ?case using Cons.IH[of k1] Cons.prems(2) by auto
qed simp

lemma fresh_store_ok:
  assumes b: "bits \<le> 16"
  shows "kvs_ok ty (fresh_store bits od fe :: ('k, 'v) kvstore)" (is "kvs_ok ty ?k")
    "kvs_map (fresh_store bits od fe :: ('k, 'v) kvstore) = Map.empty"
proof -
  have sizes: "kvs_sizes ?k = replicate (2 ^ bits) 0" by (simp add: kvs_sizes_def fresh_store_def)
  have "num_dicts ?k = 2 ^ bits" by (simp add: fresh_store_def num_dicts_def)
  moreover have "fw_rep (fwTreeCreate bits) (replicate (2 ^ bits) 0)" using fwTreeCreate_rep[of bits] b by simp
  ultimately have "counts ?k (kvs_sizes ?k)"
    unfolding sizes using one_less_power[of "2 :: nat" bits] by (auto simp: counts_def tally_def non_empty_def sum_list_replicate fresh_store_def)
  moreover have "kvs_frame ty ?k"
    using b by (simp add: kvs_frame_def fresh_store_def num_dicts_def slot_sum_def slot_ok_def sum_list_replicate)
  ultimately show "kvs_ok ty ?k" by (simp add: kvs_ok_def)
  show "kvs_map ?k = Map.empty" by (simp add: fun_eq_iff kvs_map_slot slot_map_def fresh_store_def)
qed

lemma kvstoreCreate_ok:
  assumes "bits \<le> 16"
  shows "\<exists>kvs :: ('k, 'v) kvstore. kvstoreCreate bits od fe = Some kvs \<and> kvs_ok ty kvs \<and> kvs_map kvs = Map.empty \<and> length (kv_dicts kvs) = 2 ^ bits"
proof -
  let ?k = "fresh_store bits od fe :: ('k, 'v) kvstore"
  have ok: "kvs_ok ty ?k" "kvs_map ?k = Map.empty" using fresh_store_ok[OF assms] by auto
  have len: "length (kv_dicts ?k) = 2 ^ bits" by (simp add: fresh_store_def)
  show ?thesis using create_dicts_ok[OF ok(1), of "[0..<2 ^ bits]"] ok assms len
    by (cases od) (auto simp: kvstoreCreate_def Let_def)
qed

section \<open>Moving a dictionary\<close>

lemma recount_change_slot [simp]:
  "kv_dicts (kvstoreDictBucketChanged n kvs) = kv_dicts kvs" "tally (kvstoreDictBucketChanged n kvs) ns = tally kvs ns"
  "non_empty_dicts (kvstoreDictBucketChanged n kvs) = non_empty_dicts kvs" "num_dicts (kvstoreDictBucketChanged n kvs) = num_dicts kvs"
  "kv_dicts (kvstoreDictRehashingCompleted i m kvs) = kv_dicts kvs" "tally (kvstoreDictRehashingCompleted i m kvs) ns = tally kvs ns"
  "non_empty_dicts (kvstoreDictRehashingCompleted i m kvs) = non_empty_dicts kvs"
  "kv_dicts (kvstoreDictRehashingStarted i m kvs) = kv_dicts kvs" "tally (kvstoreDictRehashingStarted i m kvs) ns = tally kvs ns"
  "non_empty_dicts (kvstoreDictRehashingStarted i m kvs) = non_empty_dicts kvs"
  by (simp_all add: kvstoreDictBucketChanged_def kvstoreDictRehashingCompleted_def kvstoreDictRehashingStarted_def tally_def num_dicts_def)

lemma tally_dicts [simp]:
  "tally (kvs\<lparr>kv_dicts := ds\<rparr>) ns = tally kvs ns" "tally (kvs\<lparr>allocated_dicts := a\<rparr>) ns = tally kvs ns"
  "tally (kvs\<lparr>kv_dicts := ds, allocated_dicts := a\<rparr>) ns = tally kvs ns"
  by (simp_all add: tally_def num_dicts_def)

lemma kvs_map_dicts:
  "kv_dicts a = (kv_dicts b)[i := s] \<Longrightarrow> i < length (kv_dicts b) \<Longrightarrow>
    kvs_map a = (\<lambda>(j, k). if j = i then slot_map s k else kvs_map b (j, k))"
  by (auto simp: fun_eq_iff kvs_map_slot nth_list_update)

lemma kvstoreMoveDict_runs:
  assumes ok: "kvs_ok ty kvs" "kvs_ok ty dst" and same: "num_dicts kvs = num_dicts dst" and i: "didx < num_dicts kvs"
    and d: "kv_dicts kvs ! didx = Some d" and e: "kv_dicts dst ! didx = None"
    and room: "sum_list (kvs_sizes dst) + dictSize d < 2 ^ 64 - 1"
  shows "\<exists>kvs' dst' s. kvstoreMoveDict kvs dst didx = Some (kvs', dst')
    \<and> kv_dicts kvs' = (kv_dicts kvs)[didx := s] \<and> slot_map s = Map.empty \<and> tally kvs' ((kvs_sizes kvs)[didx := 0])
    \<and> kv_dicts dst' = (kv_dicts dst)[didx := Some d] \<and> tally dst' ((kvs_sizes dst)[didx := dictSize d])
    \<and> non_empty_dicts kvs' = non_empty_dicts kvs + ne_delta (dictSize d) (- int (dictSize d))
    \<and> non_empty_dicts dst' = non_empty_dicts dst + ne_delta (dictSize d) (int (dictSize d))"
proof -
  have len: "length (kv_dicts kvs) = num_dicts kvs" "length (kv_dicts dst) = num_dicts dst"
    and t: "tally kvs (kvs_sizes kvs)" "tally dst (kvs_sizes dst)" using ok by (auto simp: kvs_ok_def kvs_frame_def counts_def)
  have i': "didx < length (kv_dicts kvs)" "didx < length (kv_dicts dst)" "didx < length (kvs_sizes kvs)" "didx < length (kvs_sizes dst)"
    using i len same by (simp_all add: kvs_sizes_def)
  let ?k0 = "kvs\<lparr>allocated_dicts := allocated_dicts kvs - 1\<rparr>"
  have s0: "int (0 :: nat) = int (kvs_sizes kvs ! didx) + (- int (dictSize d))" "kvs_sizes dst ! didx = 0"
    using sizes_nth[OF i'(1) d] i' e by (simp_all add: kvs_sizes_def)
  have "sum_list ((kvs_sizes kvs)[didx := 0]) < 2 ^ 64 - 1" "sum_list ((kvs_sizes dst)[didx := dictSize d]) < 2 ^ 64 - 1"
    using t(1) room s0(2) i' by (auto simp: tally_def sum_list_update)
  note rm = this
  obtain a1 c1 where k1: "cumulativeKeyCountAdd ?k0 didx (- int (dictSize d)) =
      Some (recount a1 (non_empty_dicts ?k0 + ne_delta (dictSize d) (- int (dictSize d))) c1 ?k0)"
    "tally (recount a1 (non_empty_dicts ?k0 + ne_delta (dictSize d) (- int (dictSize d))) c1 ?k0) ((kvs_sizes kvs)[didx := 0])"
    using cumulativeKeyCountAdd_tally[of didx ?k0 d "kvs_sizes kvs" 0 "- int (dictSize d)"] i' d t(1) s0(1) rm(1) by auto
  let ?d0 = "dst\<lparr>kv_dicts := (kv_dicts dst)[didx := Some d], allocated_dicts := allocated_dicts dst + 1\<rparr>"
  obtain a2 c2 where d1: "cumulativeKeyCountAdd ?d0 didx (int (dictSize d)) =
      Some (recount a2 (non_empty_dicts ?d0 + ne_delta (dictSize d) (int (dictSize d))) c2 ?d0)"
    "tally (recount a2 (non_empty_dicts ?d0 + ne_delta (dictSize d) (int (dictSize d))) c2 ?d0) ((kvs_sizes dst)[didx := dictSize d])"
    using cumulativeKeyCountAdd_tally[of didx ?d0 d "kvs_sizes dst" "dictSize d" "int (dictSize d)"] i' t(2) s0(2) rm(2) by auto
  have get: "kvstoreGetDict kvs didx = Some (Some d)" "kvstoreGetDict dst didx = Some None" using i' d e by (simp_all add: kvstoreGetDict_def)
  show ?thesis
    using k1 d1 get i same i' dictCreate_ok(2)
    by (auto simp: kvstoreMoveDict_def Let_def createDictIfNeeded_def kvstoreGetDict_def slot_map_def)
qed

end
