(* ===== verification/KvStoreLife.thy ===== *)
theory KvStoreLife
  imports KvStoreCorrect
begin

text \<open>
  The life of a key-value store (\<^verbatim>\<open>src/src/kvstore.c\<close>): finding and iterating over the dictionaries that hold
  keys, unlinking in two phases, emptying, resizing, and what holds of every store that calls of these
  operations lead to.
\<close>

section \<open>Finding dictionaries\<close>

lemma tallyD:
  assumes "kvs_ok ty kvs"
  shows "key_count kvs = of_nat (sum_list (kvs_sizes kvs))" "sum_list (kvs_sizes kvs) < 2 ^ 64 - 1" "length (kvs_sizes kvs) = num_dicts kvs"
    "num_dicts kvs \<noteq> 1 \<Longrightarrow> \<exists>ft. dict_sizes kvs = Some ft \<and> fw_rep ft (kvs_sizes kvs)" "non_empty_dicts kvs = non_empty (kvs_sizes kvs)"
  using assms by (auto simp: kvs_ok_def counts_def tally_def)

lemma key_count_0:
  assumes "kvs_ok ty kvs"
  shows "kvstoreSize kvs = 0 \<longleftrightarrow> sum_list (kvs_sizes kvs) = 0"
proof -
  have "unat (key_count kvs) = sum_list (kvs_sizes kvs)"
    using tallyD(1,2)[OF assms] by (simp add: unat_of_nat take_bit_nat_eq_self)
  then show ?thesis by (metis kvstoreSize_def unat_eq_zero)
qed

lemma one_dict: "length a = 1 \<Longrightarrow> sum_list a \<noteq> 0 \<Longrightarrow> next_nonempty a 0 0"
  by (cases a) (auto simp: next_nonempty_def)

lemma kvstoreGetFirstNonEmptyDictIndex_ok:
  assumes ok: "kvs_ok ty kvs"
  shows "(\<exists>x. kvstoreGetFirstNonEmptyDictIndex kvs = Some (int x) \<and> next_nonempty (kvs_sizes kvs) 0 x)
    \<or> kvstoreGetFirstNonEmptyDictIndex kvs = Some (- 1) \<and> (\<forall>j < num_dicts kvs. kvs_sizes kvs ! j = 0)"
proof (cases "sum_list (kvs_sizes kvs) = 0")
  case True
  then show ?thesis using key_count_0[OF ok] tallyD(3)[OF ok] by (auto simp: kvstoreGetFirstNonEmptyDictIndex_def)
next
  case False
  then have pos: "0 < sum_list (kvs_sizes kvs)" by (rule neq0_conv[THEN iffD1])
  show ?thesis
  proof (cases "num_dicts kvs = 1")
    case True
    then show ?thesis using key_count_0[OF ok] False one_dict[of "kvs_sizes kvs"] tallyD(3)[OF ok]
      by (auto simp: kvstoreGetFirstNonEmptyDictIndex_def intro!: exI[of _ "0 :: nat"])
  next
    case n: False
    then show ?thesis using key_count_0[OF ok] False tallyD(4)[OF ok n] fwTreeFindFirstNonEmpty_ok[OF _ pos]
      by (fastforce simp: kvstoreGetFirstNonEmptyDictIndex_def)
  qed
qed

lemma kvstoreGetNextNonEmptyDictIndex_ok:
  assumes ok: "kvs_ok ty kvs" and k: "k < num_dicts kvs"
  shows "(\<exists>x. kvstoreGetNextNonEmptyDictIndex kvs (int k) = Some (int x) \<and> next_nonempty (kvs_sizes kvs) (Suc k) x)
    \<or> kvstoreGetNextNonEmptyDictIndex kvs (int k) = Some (- 1) \<and> (\<forall>j. k < j \<and> j < num_dicts kvs \<longrightarrow> kvs_sizes kvs ! j = 0)"
proof (cases "num_dicts kvs = 1")
  case True
  then show ?thesis using k by (auto simp: kvstoreGetNextNonEmptyDictIndex_def)
next
  case False
  then obtain ft where "dict_sizes kvs = Some ft" "fw_rep ft (kvs_sizes kvs)" using tallyD(4)[OF ok] by blast
  then show ?thesis using fwTreeFindNextNonEmpty_ok[of ft "kvs_sizes kvs" k] k tallyD(2,3)[OF ok] False
    by (simp add: kvstoreGetNextNonEmptyDictIndex_def)
qed

text \<open>The iteration over dictionaries.\<close>

fun collect :: "(('k, 'v) kvstore \<Rightarrow> nat \<Rightarrow> bool) \<Rightarrow> nat \<Rightarrow> ('k, 'v) kvstore \<times> kvstoreIterator \<Rightarrow> nat list option" where
  "collect canFree 0 s = None"
| "collect canFree (Suc n) s = do { (s', r) \<leftarrow> kvstoreIteratorNextDict canFree s;
     case r of None \<Rightarrow> Some [] | Some i \<Rightarrow> map_option ((#) i) (collect canFree n s') }"

lemma filter_upt_next:
  assumes "next_nonempty a k x"
  shows "filter (\<lambda>i. a ! i \<noteq> 0) [k..<length a] = x # filter (\<lambda>i. a ! i \<noteq> 0) [Suc x..<length a]"
proof -
  have x: "k \<le> x" "x < length a" "0 < a ! x" "\<forall>j. k \<le> j \<and> j < x \<longrightarrow> a ! j = 0" using assms by (auto simp: next_nonempty_def)
  then have "[k..<length a] = [k..<x] @ x # [Suc x..<length a]" by (metis le_add_diff_inverse less_imp_le_nat upt_add_eq_append upt_conv_Cons)
  moreover have "filter (\<lambda>i. a ! i \<noteq> 0) [k..<x] = []" using x(4) by (auto simp: filter_empty_conv)
  ultimately show ?thesis using x(3) by simp
qed

definition at_next :: "nat list \<Rightarrow> nat \<Rightarrow> int \<Rightarrow> bool" where
  "at_next a k i \<longleftrightarrow> (\<exists>x. i = int x \<and> next_nonempty a k x) \<or> i = - 1 \<and> (\<forall>j. k \<le> j \<and> j < length a \<longrightarrow> a ! j = 0)"

lemma freeDict_nonempty:
  assumes "i < length (kv_dicts kvs)" "kvs_sizes kvs ! i \<noteq> 0"
  shows "freeDictIfNeeded canFree kvs i = Some kvs"
proof -
  obtain d where "kv_dicts kvs ! i = Some d" "dictSize d \<noteq> 0" using assms by (cases "kv_dicts kvs ! i") (auto simp: kvs_sizes_def)
  then show ?thesis using assms(1) by (auto simp: freeDictIfNeeded_def kvstoreGetDict_def)
qed

lemma collect_from:
  assumes ok: "kvs_ok ty kvs"
  shows "at_next (kvs_sizes kvs) k nx \<Longrightarrow> cur = - 1 \<or> (\<exists>c. cur = int c \<and> c < num_dicts kvs \<and> kvs_sizes kvs ! c \<noteq> 0) \<Longrightarrow> num_dicts kvs < n + k \<Longrightarrow> 0 < n \<Longrightarrow>
    collect canFree n (kvs, \<lparr>it_didx = cur, it_next_didx = nx\<rparr>) = Some (filter (\<lambda>i. kvs_sizes kvs ! i \<noteq> 0) [k..<num_dicts kvs])"
proof (induction n arbitrary: k cur nx)
  case (Suc n)
  have len: "length (kvs_sizes kvs) = num_dicts kvs" "length (kv_dicts kvs) = num_dicts kvs"
    using tallyD(3)[OF ok] by (auto simp: kvs_sizes_def)
  show ?case
  proof (cases "nx = - 1")
    case True
    then have "\<forall>j. k \<le> j \<and> j < num_dicts kvs \<longrightarrow> kvs_sizes kvs ! j = 0" using Suc.prems(1) len by (auto simp: at_next_def)
    then show ?thesis using True by (auto simp: kvstoreIteratorNextDict_def filter_empty_conv)
  next
    case False
    then obtain x where x: "nx = int x" "next_nonempty (kvs_sizes kvs) k x" using Suc.prems(1) by (auto simp: at_next_def)
    then have xl: "k \<le> x" "x < num_dicts kvs" "kvs_sizes kvs ! x \<noteq> 0" using len by (auto simp: next_nonempty_def)
    have free: "cur \<noteq> - 1 \<Longrightarrow> freeDictIfNeeded canFree kvs (nat cur) = Some kvs"
      using Suc.prems(2) freeDict_nonempty[of "nat cur" kvs canFree] len by auto
    obtain nx' where nx': "kvstoreGetNextNonEmptyDictIndex kvs (int x) = Some nx'" "at_next (kvs_sizes kvs) (Suc x) nx'"
      using kvstoreGetNextNonEmptyDictIndex_ok[OF ok xl(2)] len by (auto simp: at_next_def Suc_le_eq)
    have "n \<noteq> 0" using Suc.prems(3) xl by auto
    then have "collect canFree n (kvs, \<lparr>it_didx = int x, it_next_didx = nx'\<rparr>) = Some (filter (\<lambda>i. kvs_sizes kvs ! i \<noteq> 0) [Suc x..<num_dicts kvs])"
      using Suc.IH[OF nx'(2)] xl Suc.prems(3) by auto
    then show ?thesis using free nx'(1) x filter_upt_next[OF x(2)] len by (simp add: kvstoreIteratorNextDict_def)
  qed
qed simp

section \<open>Unlinking in two phases\<close>

lemma kvs_map_pause:
  assumes "stores ty d (d1\<lparr>pauserehash := n\<rparr>) m" "dict_ready ty d"
  shows "dict_ready ty d1" "accounted d d1" "dict_map d1 = m"
  using assms by (auto simp: stores_def dict_ready_def)

lemma settle_paused:
  assumes ok: "kvs_ok ty kvs" and i: "didx < length (kv_dicts kvs)" and d: "kv_dicts kvs ! didx = Some d"
    and st: "stores ty d (d1\<lparr>pauserehash := n\<rparr>) (dict_map d)"
  shows "kvs_ok ty (settle didx d1 kvs)" "kvs_map (settle didx d1 kvs) = kvs_map kvs"
    "kv_dicts (settle didx d1 kvs) = (kv_dicts kvs)[didx := Some (d1\<lparr>d_log := []\<rparr>)]"
proof -
  have fr: "kvs_frame ty kvs" using ok by (simp add: kvs_ok_def)
  note p = kvs_map_pause[OF st slot_readyD(1)[OF fr i d]]
  have "dictSize d1 = dictSize d"
    using dictSize_card(1)[of ty d1] dictSize_card(1)[of ty d] slot_readyD(1)[OF fr i d] p by (auto simp: dict_ready_def)
  then have "kvs_sizes (settle didx d1 kvs) = kvs_sizes kvs"
    unfolding settle_change[OF d] change_slot_sizes using sizes_self[OF i d] by simp
  then show "kvs_ok ty (settle didx d1 kvs)"
    using settle_kvs_frame[OF fr i d p(1,2)] ok by (simp add: kvs_ok_def settle_change[OF d])
  show "kvs_map (settle didx d1 kvs) = kvs_map kvs"
    unfolding settle_change[OF d] using i d p(3) by (intro change_slot_same_map) (simp_all add: slot_map_def)
  show "kv_dicts (settle didx d1 kvs) = (kv_dicts kvs)[didx := Some (d1\<lparr>d_log := []\<rparr>)]"
    unfolding settle_change[OF d] by simp
qed

lemma valid_link_log [simp]: "valid_link (d\<lparr>d_log := x\<rparr>) l = valid_link d l" "entry_at (d\<lparr>d_log := x\<rparr>) l = entry_at d l"
  by (auto simp: valid_link_def entry_at_def ht_def split: prod.split)

lemma kvs_unlink_find_ok:
  assumes ok: "kvs_ok ty kvs" and i: "didx < length (kv_dicts kvs)"
  shows "\<exists>kvs1 l. kvstoreDictTwoPhaseUnlinkFind ty rs kvs didx key = Some (kvs1, l) \<and> kvs_ok ty kvs1 \<and> kvs_map kvs1 = kvs_map kvs
    \<and> length (kv_dicts kvs1) = length (kv_dicts kvs)
    \<and> (l = None \<longleftrightarrow> kvs_map kvs (didx, key) = None)
    \<and> (\<forall>l'. l = Some l' \<longrightarrow> (\<exists>d. kv_dicts kvs1 ! didx = Some d \<and> valid_link d l' \<and> fst (entry_at d l') = key))"
proof (cases "kv_dicts kvs ! didx")
  case None
  then show ?thesis using ok i by (simp add: kvstoreDictTwoPhaseUnlinkFind_def kvstoreGetDict_def kvs_map_slot slot_map_def)
next
  case (Some d)
  have fr: "kvs_frame ty kvs" using ok by (simp add: kvs_ok_def)
  have dok: "dict_ok ty d" using slot_readyD(1)[OF fr i Some] by (simp add: dict_ready_def)
  obtain d1 l where f: "dictTwoPhaseUnlinkFind ty rs d key = Some (d1, l)" "\<forall>l'. l = Some l' \<longrightarrow> valid_link d1 l'"
    "map_option (entry_at d1) l = map_option (Pair key) (dict_map d key)" "stores ty d (d1\<lparr>pauserehash := pauserehash d\<rparr>) (dict_map d)"
    using dictTwoPhaseUnlinkFind_ok[OF dok, of rs key] by blast
  have "fst (entry_at d1 l') = key" if "l = Some l'" for l' using f(3) that by (cases "dict_map d key") auto
  then show ?thesis using f Some i settle_paused[OF ok i Some f(4)] kvs_map_at[OF i Some, of key]
    by (auto simp: kvstoreDictTwoPhaseUnlinkFind_def kvstoreGetDict_def)
qed

lemma run_events_dicts:
  "fold (run_event i) evs (kvs\<lparr>kv_dicts := ds\<rparr>) = (fold (run_event i) evs kvs)\<lparr>kv_dicts := ds\<rparr>"
proof (induction evs arbitrary: kvs)
  case (Cons e evs)
  have "run_event i e (kvs\<lparr>kv_dicts := ds\<rparr>) = (run_event i e kvs)\<lparr>kv_dicts := ds\<rparr>"
    by (cases e) (simp_all add: kvstoreDictRehashingStarted_def kvstoreDictRehashingCompleted_def kvstoreDictBucketChanged_def)
  then show ?case using Cons.IH by simp
qed simp

lemma settle_settle: "d_log x = [] \<Longrightarrow> settle i d (settle i x kvs) = settle i d kvs"
  by (simp add: settle_def run_events_dicts)

lemma kvs_unlink_free_ok:
  assumes ok: "kvs_ok ty kvs" and i: "didx < length (kv_dicts kvs)" and d: "kv_dicts kvs ! didx = Some d" and l: "valid_link d l"
  shows "\<exists>kvs'. kvstoreDictTwoPhaseUnlinkFree ty rs canFree kvs didx (Some l) = Some kvs' \<and> kvs_ok ty kvs'
    \<and> kvs_map kvs' = (kvs_map kvs)((didx, fst (entry_at d l)) := None) \<and> length (kv_dicts kvs') = length (kv_dicts kvs)"
proof -
  have fr: "kvs_frame ty kvs" using ok by (simp add: kvs_ok_def)
  have dok: "dict_ok ty d" "d_log d = []" using slot_readyD[OF fr i d] by (simp_all add: dict_ready_def)
  let ?d = "d\<lparr>pauserehash := pauserehash d - 1\<rparr>" and ?key = "fst (entry_at d l)"
  let ?k = "settle didx ?d kvs"
  obtain d' where a: "dictTwoPhaseUnlinkFree ty rs d (Some l) = Some d'" "stores ty ?d d' ((dict_map ?d)(?key := None))"
    using dictTwoPhaseUnlinkFree_ok[OF dok(1) l, of rs] by auto
  have "stores ty d (?d\<lparr>pauserehash := pauserehash d\<rparr>) (dict_map d)" using rearranged_stores[OF rearranged_refl[OF dok(1)]] by simp
  note p = settle_paused[OF ok i d this]
  have i': "didx < length (kv_dicts ?k)" "kv_dicts ?k ! didx = Some ?d" using p(3) i dok(2) by simp_all
  have "dict_map ?d ?key \<noteq> None" using link_map[OF dok(1) l] by simp
  with settle_count[of ty ?k didx ?d d' ?key None "- 1"] obtain k1 where
    k1: "cumulativeKeyCountAdd (settle didx d' kvs) didx (- 1) = Some k1" "kvs_ok ty k1" "kvs_map k1 = (kvs_map kvs)((didx, ?key) := None)"
    "length (kv_dicts k1) = length (kv_dicts kvs)"
    using p i' a(2) dok(2) i by (auto simp: kvs_ok_def settle_settle)
  obtain k2 where "freeDictIfNeeded canFree k1 didx = Some k2" "kvs_ok ty k2" "kvs_map k2 = kvs_map k1" "length (kv_dicts k2) = length (kv_dicts k1)"
    using freeDictIfNeeded_ok[of ty k1 didx canFree] k1(2,4) i by (auto simp: kvs_ok_def)
  then show ?thesis using k1 a(1) i d by (auto simp: kvstoreDictTwoPhaseUnlinkFree_def kvstoreGetDict_def)
qed

section \<open>Emptying\<close>

definition blank :: "('k, 'v) dict option \<Rightarrow> bool" where
  "blank s \<longleftrightarrow> slot_size s = 0 \<and> slot_buckets s = 0 \<and> slot_overhead s = 0 \<and> \<not> slot_rehashing s \<and> slot_map s = Map.empty"

lemma blank_simps [simp]: "blank None" "blank (Some ((dictEmpty d)\<lparr>d_log := l\<rparr>))"
  using dictEmpty_ok(2)[of d]
  by (simp_all add: blank_def slot_map_def dictEmpty_def dictClear_def upd_ht_def dictSize_def dictBuckets_def overhead_def dictIsRehashing_def)

lemma freeDictIfNeeded_slots:
  "freeDictIfNeeded canFree kvs i = Some kvs' \<Longrightarrow> kv_dicts kvs' \<in> {kv_dicts kvs, (kv_dicts kvs)[i := None]}
    \<and> dict_sizes kvs' = dict_sizes kvs \<and> num_dicts_bits kvs' = num_dicts_bits kvs"
  by (auto simp: freeDictIfNeeded_def bind_eq_Some_conv split: if_splits option.splits)

lemma empty_one:
  assumes fr: "kvs_frame ty kvs" and i: "i < length (kv_dicts kvs)" and d: "kv_dicts kvs ! i = Some d"
  shows "\<exists>kvs'. freeDictIfNeeded canFree (settle i (dictEmpty d) kvs) i = Some kvs' \<and> kvs_frame ty kvs'
    \<and> (\<exists>s. kv_dicts kvs' = (kv_dicts kvs)[i := s] \<and> blank s) \<and> dict_sizes kvs' = dict_sizes kvs \<and> num_dicts_bits kvs' = num_dicts_bits kvs"
proof -
  let ?k = "settle i (dictEmpty d) kvs"
  have "dict_ready ty (dictEmpty d)" using dictEmpty_ok(1) by (simp add: dict_ready_def dictEmpty_def)
  then have k: "kvs_frame ty ?k" using settle_kvs_frame[OF fr i d] dictEmpty_ok(3) by blast
  have s: "kv_dicts ?k = (kv_dicts kvs)[i := Some ((dictEmpty d)\<lparr>d_log := []\<rparr>)]" "dict_sizes ?k = dict_sizes kvs" "num_dicts_bits ?k = num_dicts_bits kvs"
    unfolding settle_change[OF d] by simp_all
  obtain kvs' where k': "freeDictIfNeeded canFree ?k i = Some kvs'" "kvs_frame ty kvs'"
    using freeDictIfNeeded_ok[OF k, of i canFree] i s(1) by auto
  have "kv_dicts kvs' = (kv_dicts kvs)[i := Some ((dictEmpty d)\<lparr>d_log := []\<rparr>)] \<or> kv_dicts kvs' = (kv_dicts kvs)[i := None]"
    using freeDictIfNeeded_slots[OF k'(1)] s(1) by auto
  then have "\<exists>s. kv_dicts kvs' = (kv_dicts kvs)[i := s] \<and> blank s" using blank_simps by metis
  then show ?thesis using k' freeDictIfNeeded_slots[OF k'(1)] s by auto
qed

lemma empty_dicts_ok:
  "kvs_frame ty kvs \<Longrightarrow> \<forall>i \<in> set is. i < length (kv_dicts kvs) \<Longrightarrow> \<exists>kvs'. empty_dicts canFree is kvs = Some kvs' \<and> kvs_frame ty kvs'
    \<and> (\<forall>j < length (kv_dicts kvs). j \<in> set is \<or> blank (kv_dicts kvs ! j) \<longrightarrow> blank (kv_dicts kvs' ! j))
    \<and> length (kv_dicts kvs') = length (kv_dicts kvs) \<and> dict_sizes kvs' = dict_sizes kvs \<and> num_dicts_bits kvs' = num_dicts_bits kvs"
proof (induction "is" arbitrary: kvs)
  case (Cons i "is")
  then have i: "i < length (kv_dicts kvs)" by simp
  show ?case
  proof (cases "kv_dicts kvs ! i")
    case None
    obtain k where k: "empty_dicts canFree is kvs = Some k" "kvs_frame ty k"
      "\<forall>j < length (kv_dicts kvs). j \<in> set is \<or> blank (kv_dicts kvs ! j) \<longrightarrow> blank (kv_dicts k ! j)"
      "length (kv_dicts k) = length (kv_dicts kvs)" "dict_sizes k = dict_sizes kvs" "num_dicts_bits k = num_dicts_bits kvs"
      using Cons.IH[of kvs] Cons.prems by auto
    have "blank (kv_dicts kvs ! i)" using None by simp
    then show ?thesis using None i k by (auto simp: kvstoreGetDict_def)
  next
    case (Some d)
    obtain k1 s where k1: "freeDictIfNeeded canFree (settle i (dictEmpty d) kvs) i = Some k1" "kvs_frame ty k1"
      "kv_dicts k1 = (kv_dicts kvs)[i := s]" "blank s" "dict_sizes k1 = dict_sizes kvs" "num_dicts_bits k1 = num_dicts_bits kvs"
      using empty_one[OF Cons.prems(1) i Some, of canFree] by blast
    obtain k where k: "empty_dicts canFree is k1 = Some k" "kvs_frame ty k"
      "\<forall>j < length (kv_dicts k1). j \<in> set is \<or> blank (kv_dicts k1 ! j) \<longrightarrow> blank (kv_dicts k ! j)"
      "length (kv_dicts k) = length (kv_dicts k1)" "dict_sizes k = dict_sizes k1" "num_dicts_bits k = num_dicts_bits k1"
      using Cons.IH[OF k1(2)] k1(3) Cons.prems(2) by auto
    have "blank (kv_dicts k ! j)" if "j < length (kv_dicts kvs)" "j \<in> set (i # is) \<or> blank (kv_dicts kvs ! j)" for j
      using k(3) that k1(3,4) i by (cases "j = i") (auto simp: nth_list_update)
    then show ?thesis using Some i k1 k by (auto simp: kvstoreGetDict_def)
  qed
qed simp

lemma sum_list_zero: "\<forall>x \<in> set xs. f x = (0 :: 'a :: comm_monoid_add) \<Longrightarrow> sum_list (map f xs) = 0"
  by (induction xs) auto

lemma kvstoreEmpty_ok:
  assumes ok: "kvs_ok ty kvs"
  shows "\<exists>kvs'. kvstoreEmpty canFree kvs = Some kvs' \<and> kvs_ok ty kvs' \<and> kvs_map kvs' = Map.empty \<and> length (kv_dicts kvs') = length (kv_dicts kvs)"
proof -
  have fr: "kvs_frame ty kvs" and n: "length (kv_dicts kvs) = num_dicts kvs" using ok by (simp_all add: kvs_ok_def kvs_frame_def)
  obtain k where k: "empty_dicts canFree [0..<num_dicts kvs] kvs = Some k" "kvs_frame ty k"
    "\<forall>j < length (kv_dicts kvs). blank (kv_dicts k ! j)"
    "length (kv_dicts k) = length (kv_dicts kvs)" "dict_sizes k = dict_sizes kvs" "num_dicts_bits k = num_dicts_bits kvs"
    using empty_dicts_ok[OF fr, of "[0..<num_dicts kvs]" canFree] n by auto
  let ?k = "k\<lparr>kv_rehashing := [], key_count := 0, non_empty_dicts := 0, resize_cursor := 0, bucket_count := 0,
                    dict_sizes := map_option fwTreeClear (dict_sizes k), overhead_hashtable_rehashing := 0\<rparr>"
  have b: "\<forall>s \<in> set (kv_dicts k). blank s" using k(3,4) by (metis in_set_conv_nth)
  then have "slot_sum slot_buckets ?k = 0" "slot_sum slot_overhead ?k = 0" "kvs_sizes ?k = replicate (num_dicts kvs) 0"
    using k(4) n by (auto simp: slot_sum_def kvs_sizes_def blank_def intro!: sum_list_zero replicate_eqI)
  note z = this
  have "kvs_frame ty ?k" using k(2,3,4) z b by (auto simp: kvs_frame_def num_dicts_def slot_sum_def blank_def)
  moreover have "num_dicts ?k = num_dicts kvs" using k(6) by (simp add: num_dicts_def)
  then have "counts ?k (kvs_sizes ?k)"
    using tallyD(4)[OF ok] k(5) ok z(3) fwTreeClear_rep[of _ "kvs_sizes kvs", unfolded tallyD(3)[OF ok]]
    by (auto simp: counts_def tally_def non_empty_def kvs_ok_def sum_list_replicate split: if_splits)
  moreover have "kvs_map ?k = Map.empty" using k(3,4) by (auto simp: fun_eq_iff kvs_map_slot blank_def)
  ultimately show ?thesis using k by (auto simp: kvstoreEmpty_def kvs_ok_def)
qed

section \<open>Resizing\<close>

lemma cursor_map [simp]: "kvs_map (kvs\<lparr>resize_cursor := n\<rparr>) = kvs_map kvs"
  by (simp add: fun_eq_iff kvs_map_slot)

lemma cursor_ok: "kvs_ok ty kvs \<Longrightarrow> kvs_ok ty (kvs\<lparr>resize_cursor := n mod num_dicts kvs\<rparr>)"
  by (auto simp: kvs_ok_def kvs_frame_def counts_def tally_def num_dicts_def slot_sum_def kvs_sizes_def)

lemma kvstoreTryResizeDicts_loop_ok:
  "kvs_ok ty kvs \<Longrightarrow> \<exists>kvs'. kvstoreTryResizeDicts_loop ty rs n kvs = Some kvs' \<and> kvs_ok ty kvs' \<and> kvs_map kvs' = kvs_map kvs
    \<and> length (kv_dicts kvs') = length (kv_dicts kvs)"
proof (induction n arbitrary: kvs)
  case (Suc n)
  let ?i = "resize_cursor kvs"
  have fr: "kvs_frame ty kvs" and i: "?i < length (kv_dicts kvs)" using Suc.prems by (simp_all add: kvs_ok_def kvs_frame_def)
  show ?case
  proof (cases "kv_dicts kvs ! ?i")
    case None
    then show ?thesis using i Suc.IH[OF cursor_ok[OF Suc.prems, of "?i + 1"]] by (auto simp: kvstoreGetDict_def)
  next
    case (Some d)
    have dok: "dict_ok ty d" using slot_readyD(1)[OF fr i Some] by (simp add: dict_ready_def)
    obtain d1 b where d1: "dictShrinkIfNeeded ty rs d = Some (d1, b)" "rearranged ty d d1"
      using dictShrinkIfNeeded_resized[OF dok, of rs] by (auto simp: resized_def)
    obtain d2 where d2: "(if \<not> b then map_option fst (dictExpandIfNeeded ty rs d1) else Some d1) = Some d2" "rearranged ty d1 d2"
      using dictExpandIfNeeded_resized[OF rearranged_ok[OF d1(2)], of rs] rearranged_refl[OF rearranged_ok[OF d1(2)]]
      by (cases b) (auto simp: resized_def)
    have st: "stores ty d d2 (dict_map d)" using rearranged_stores[OF rearranged_trans[OF d1(2) d2(2)]] .
    let ?k = "settle ?i d2 kvs"
    have k: "kvs_ok ty ?k" "kvs_map ?k = kvs_map kvs" "length (kv_dicts ?k) = length (kv_dicts kvs)"
      using settle_same[OF Suc.prems i Some st] settle_stores(3,5)[OF fr i Some st] slot_upd(2)[OF i Some] by simp_all
    show ?thesis using Suc.IH[OF cursor_ok[OF k(1), of "?i + 1"]] Some i d1(1) d2(1) k(2,3)
      by (auto simp: kvstoreGetDict_def split: if_splits)
  qed
qed simp

lemma kvstoreTryResizeDicts_ok:
  "kvs_ok ty kvs \<Longrightarrow> \<exists>kvs'. kvstoreTryResizeDicts ty rs kvs limit = Some kvs' \<and> kvs_ok ty kvs' \<and> kvs_map kvs' = kvs_map kvs
    \<and> length (kv_dicts kvs') = length (kv_dicts kvs)"
  unfolding kvstoreTryResizeDicts_def by (rule kvstoreTryResizeDicts_loop_ok)

section \<open>The life of a store\<close>

text \<open>The calls that change a store: an operation on a key, an unlink in two phases, the emptying of
  the store and a round of resizing.\<close>

datatype ('k, 'v) store_call = KeyOp "(nat \<times> 'k, 'v) map_op" | Unlink nat 'k | EmptyAll | TryResize nat

fun call_legal :: "('k, 'v) store_call \<Rightarrow> ('k, 'v) kvstore \<Rightarrow> bool" where
  "call_legal (KeyOp x) kvs = kvs_legal (length (kv_dicts kvs)) x (kvs_map kvs)"
| "call_legal (Unlink didx key) kvs = (didx < length (kv_dicts kvs))"
| "call_legal c kvs = True"

fun call_step :: "'k dictType \<Rightarrow> (('k, 'v) kvstore \<Rightarrow> nat \<Rightarrow> bool) \<Rightarrow> dictResizeEnable \<Rightarrow> ('k, 'v) store_call \<Rightarrow> ('k, 'v) kvstore
    \<Rightarrow> ('k, 'v) kvstore option" where
  "call_step ty canFree rs (KeyOp x) kvs = map_option fst (kvs_step ty canFree rs x kvs)"
| "call_step ty canFree rs (Unlink didx key) kvs =
    do { (kvs', l) \<leftarrow> kvstoreDictTwoPhaseUnlinkFind ty rs kvs didx key;
         if l = None then Some kvs' else kvstoreDictTwoPhaseUnlinkFree ty rs canFree kvs' didx l }"
| "call_step ty canFree rs EmptyAll kvs = kvstoreEmpty canFree kvs"
| "call_step ty canFree rs (TryResize limit) kvs = kvstoreTryResizeDicts ty rs kvs limit"

fun call_spec :: "('k, 'v) store_call \<Rightarrow> (nat \<times> 'k \<Rightarrow> 'v option) \<Rightarrow> nat \<times> 'k \<Rightarrow> 'v option" where
  "call_spec (KeyOp x) m = fst (map_spec x m)"
| "call_spec (Unlink didx key) m = m((didx, key) := None)"
| "call_spec EmptyAll m = Map.empty"
| "call_spec (TryResize limit) m = m"

inductive reachable :: "'k dictType \<Rightarrow> (('k, 'v) kvstore \<Rightarrow> nat \<Rightarrow> bool) \<Rightarrow> ('k, 'v) kvstore \<Rightarrow> bool" for ty canFree where
  created: "kvstoreCreate bits allocate_on_demand free_empty_dicts = Some kvs \<Longrightarrow> reachable ty canFree kvs"
| called: "reachable ty canFree kvs \<Longrightarrow> call_legal c kvs \<Longrightarrow> call_step ty canFree rs c kvs = Some kvs' \<Longrightarrow> reachable ty canFree kvs'"

lemma unlink_call_ok:
  assumes ok: "kvs_ok ty kvs" and i: "didx < length (kv_dicts kvs)"
  shows "\<exists>kvs'. call_step ty canFree rs (Unlink didx key) kvs = Some kvs' \<and> kvs_ok ty kvs' \<and> kvs_map kvs' = (kvs_map kvs)((didx, key) := None)"
proof -
  obtain k1 l where f: "kvstoreDictTwoPhaseUnlinkFind ty rs kvs didx key = Some (k1, l)" "kvs_ok ty k1" "kvs_map k1 = kvs_map kvs"
    "length (kv_dicts k1) = length (kv_dicts kvs)" "l = None \<longleftrightarrow> kvs_map kvs (didx, key) = None"
    "\<forall>l'. l = Some l' \<longrightarrow> (\<exists>d. kv_dicts k1 ! didx = Some d \<and> valid_link d l' \<and> fst (entry_at d l') = key)"
    using kvs_unlink_find_ok[OF assms, of rs key] by - (elim exE conjE, rule that, assumption+)
  show ?thesis
  proof (cases l)
    case None
    then have "(kvs_map kvs)((didx, key) := None) = kvs_map kvs" using f(5) by (simp add: fun_upd_idem)
    then show ?thesis using f(1,2,3) None by simp
  next
    case (Some l')
    then obtain d where d: "kv_dicts k1 ! didx = Some d" "valid_link d l'" "fst (entry_at d l') = key" using f(6) by blast
    have "didx < length (kv_dicts k1)" using i f(4) by simp
    from kvs_unlink_free_ok[OF f(2) this d(1,2), of rs canFree] show ?thesis using f(1,3) Some d(3) by auto
  qed
qed

lemma call_step_ok:
  assumes ok: "kvs_ok ty kvs" and l: "call_legal c kvs"
  shows "\<exists>kvs'. call_step ty canFree rs c kvs = Some kvs' \<and> kvs_ok ty kvs' \<and> kvs_map kvs' = call_spec c (kvs_map kvs)"
proof (cases c)
  case (KeyOp x)
  then show ?thesis using kvs_step_refines[of ty "length (kv_dicts kvs)" kvs x canFree rs] ok l by (auto simp: kvs_sized_def)
next
  case (Unlink i k)
  then show ?thesis using unlink_call_ok[OF ok, of i canFree rs k] l by auto
next
  case EmptyAll
  then show ?thesis using kvstoreEmpty_ok[OF ok, of canFree] by auto
next
  case (TryResize n)
  then show ?thesis using kvstoreTryResizeDicts_ok[OF ok, of rs n] by auto
qed

lemma reachable_ok: "reachable ty canFree (kvs :: ('k, 'v) kvstore) \<Longrightarrow> kvs_ok ty kvs"
proof (induction rule: reachable.induct)
  case (created bits od fe kvs)
  then have "bits \<le> 16" by (auto simp: kvstoreCreate_def split: if_splits)
  then obtain k :: "('k, 'v) kvstore" where "kvstoreCreate bits od fe = Some k" "kvs_ok ty k" using kvstoreCreate_ok by blast
  then show ?case using created by simp
next
  case (called kvs c rs kvs')
  then show ?case using call_step_ok[of ty kvs c canFree rs] by auto
qed

lemma size_pos:
  assumes ok: "kvs_ok ty kvs" and i: "i < length (kv_dicts kvs)"
  shows "kvs_sizes kvs ! i \<noteq> 0 \<longleftrightarrow> (\<exists>key. kvs_map kvs (i, key) \<noteq> None)"
proof (cases "kv_dicts kvs ! i")
  case (Some d)
  then have "dict_ok ty d" using slot_readyD(1)[of ty kvs i d] ok i by (auto simp: kvs_ok_def dict_ready_def)
  then show ?thesis using sizes_nth[OF i Some] kvs_map_at[OF i Some] dictSize_card[of ty d] by (auto simp: card_eq_0_iff)
qed (use i in \<open>simp add: kvs_sizes_def kvs_map_slot slot_map_def\<close>)

lemma non_empty_card: "non_empty ns = int (card {i. i < length ns \<and> ns ! i \<noteq> 0})"
proof -
  have "non_empty ns = (\<Sum>i<length ns. of_bool (ns ! i \<noteq> 0))" by (simp add: non_empty_def sum_list_sum_nth atLeast0LessThan)
  also have "\<dots> = int (card ({..<length ns} \<inter> {i. ns ! i \<noteq> 0}))" by (simp add: sum.If_cases of_bool_def)
  also have "{..<length ns} \<inter> {i. ns ! i \<noteq> 0} = {i. i < length ns \<and> ns ! i \<noteq> 0}" by auto
  finally show ?thesis .
qed

lemma holding_slots:
  assumes ok: "kvs_ok ty kvs"
  shows "{i. \<exists>key. kvs_map kvs (i, key) \<noteq> None} = {i. i < length (kvs_sizes kvs) \<and> kvs_sizes kvs ! i \<noteq> 0}"
proof -
  have "i < length (kv_dicts kvs)" if "kvs_map kvs (i, key) \<noteq> None" for i key using that by (auto simp: kvs_map_slot split: if_splits)
  moreover have "length (kvs_sizes kvs) = length (kv_dicts kvs)" by (simp add: kvs_sizes_def)
  ultimately show ?thesis using size_pos[OF ok] by (metis (no_types, lifting))
qed


section \<open>Choosing a dictionary at random\<close>

lemma unat_size: "kvs_ok ty kvs \<Longrightarrow> unat (kvstoreSize kvs) = sum_list (kvs_sizes kvs)"
  using tallyD(1,2)[of ty kvs] by (simp add: kvstoreSize_def unat_of_nat take_bit_nat_eq_self)

lemma fair_random_reaches:
  assumes ok: "kvs_ok ty kvs" and n: "num_dicts kvs \<noteq> 1" and r: "r < sum_list (kvs_sizes kvs)"
  shows "\<exists>x. kvstoreGetFairRandomDictIndex kvs (\<lambda>_. False) (of_nat r # rest) slow = Some (int x) \<and> reaches (kvs_sizes kvs) (Suc r) x"
proof -
  let ?N = "sum_list (kvs_sizes kvs)"
  have N: "?N < 2 ^ 64 - 1" "unat (kvstoreSize kvs) = ?N" using tallyD(2)[OF ok] unat_size[OF ok] by auto
  have ur: "unat (of_nat r :: u64) = r" "unat (of_nat (Suc r) :: u64) = Suc r" using r N(1) by (simp_all add: unat_of_nat take_bit_nat_eq_self del: of_nat_Suc)
  then have "unat ((of_nat r :: u64) mod kvstoreSize kvs) = r" using r N(2) by (simp add: unat_mod_distrib)
  then have "(of_nat r :: u64) mod kvstoreSize kvs = of_nat r" using ur(1) by (simp only: word_unat_eq_iff)
  then have t: "(of_nat r :: u64) mod kvstoreSize kvs + 1 = of_nat (Suc r)" by simp
  obtain ft where ft: "dict_sizes kvs = Some ft" "fw_rep ft (kvs_sizes kvs)" using tallyD(4)[OF ok n] by blast
  obtain x where x: "fwTreeFindIndex ft (of_nat (Suc r)) = Some x" "reaches (kvs_sizes kvs) (Suc r) x"
    using fwTreeFindIndex_reaches[OF ft(2), of "Suc r"] r by auto
  have nz: "kvstoreSize kvs \<noteq> 0" using N(2) r by (metis not_less_zero unat_0)
  have "\<not> kvstoreSize kvs < of_nat (Suc r)" using ur(2) N(2) r by (simp add: word_less_nat_alt)
  then have "kvstoreFindDictIndexByKeyIndex kvs (of_nat (Suc r)) = Some x"
    using n nz ft(1) x(1) unfolding kvstoreFindDictIndexByKeyIndex_def by simp
  then show ?thesis using n nz t x(2) unfolding kvstoreGetFairRandomDictIndex_def by (simp del: of_nat_Suc)
qed

lemma reaches_unique: "reaches a T x \<Longrightarrow> i < length a \<Longrightarrow> x = i \<longleftrightarrow> psum a i < T \<and> T \<le> psum a (Suc i)"
  using reaches_least[of a T x i] reaches_least[of a T i x] by (auto simp: reaches_def)

lemma fair_random_count:
  assumes ok: "kvs_ok ty kvs" and n: "num_dicts kvs \<noteq> 1" and i: "i < num_dicts kvs"
  shows "card {r. r < sum_list (kvs_sizes kvs) \<and> kvstoreGetFairRandomDictIndex kvs (\<lambda>_. False) (of_nat r # rest) slow = Some (int i)} = kvs_sizes kvs ! i"
proof -
  let ?a = "kvs_sizes kvs"
  have len: "i < length ?a" using i tallyD(3)[OF ok] by simp
  have "kvstoreGetFairRandomDictIndex kvs (\<lambda>_. False) (of_nat r # rest) slow = Some (int i) \<longleftrightarrow> psum ?a i \<le> r \<and> r < psum ?a (Suc i)"
    if r: "r < sum_list ?a" for r
  proof -
    obtain x where "kvstoreGetFairRandomDictIndex kvs (\<lambda>_. False) (of_nat r # rest) slow = Some (int x)" "reaches ?a (Suc r) x"
      using fair_random_reaches[OF ok n r] by blast
    then show ?thesis using reaches_unique[of ?a "Suc r" x i] len by auto
  qed
  moreover have "psum ?a (Suc i) \<le> sum_list ?a" using psum_le by blast
  ultimately have "{r. r < sum_list ?a \<and> kvstoreGetFairRandomDictIndex kvs (\<lambda>_. False) (of_nat r # rest) slow = Some (int i)} = {psum ?a i..<psum ?a (Suc i)}"
    by auto
  then show ?thesis using len by (simp add: psum_Suc)
qed

section \<open>Properties\<close>




text \<open>Adding a key to a reachable store of two dictionaries.\<close>

lemma add_key:
  assumes "reachable demo_type (\<lambda>_ _. True) kvs" "num_dicts kvs = 2" "card (dom (kvs_map kvs)) + 1 < 2 ^ 64 - 1" "i < 2" "kvs_map kvs (i, key) = None"
  shows "\<exists>kvs'. reachable demo_type (\<lambda>_ _. True) kvs' \<and> num_dicts kvs' = 2 \<and> kvs_map kvs' = (kvs_map kvs)((i, key) \<mapsto> v)"
proof -
  have ok: "kvs_ok demo_type kvs" using reachable_ok[OF assms(1)] .
  then have len: "length (kv_dicts kvs) = 2" using assms(2) by (simp add: kvs_ok_def kvs_frame_def)
  have l: "kvs_legal 2 (Add (i, key) v) (kvs_map kvs)" using assms(3,4) by (simp add: kvs_legal_def)
  obtain k where k: "kvs_step demo_type (\<lambda>_ _. True) DICT_RESIZE_ENABLE (Add (i, key) v) kvs = Some (k, Flag True)" "kvs_sized demo_type 2 k"
    "kvs_map k = (kvs_map kvs)((i, key) \<mapsto> v)"
    using kvs_step_refines[OF _ l, of demo_type "\<lambda>_ _. True" DICT_RESIZE_ENABLE] ok len assms(5) by (auto simp: kvs_sized_def)
  have "call_step demo_type (\<lambda>_ _. True) DICT_RESIZE_ENABLE (KeyOp (Add (i, key) v)) kvs = Some k" using k(1) by (simp del: kvs_step.simps)
  moreover have "call_legal (KeyOp (Add (i, key) v)) kvs" using l len by simp
  ultimately have "reachable demo_type (\<lambda>_ _. True) k" using called[OF assms(1)] by blast
  then show ?thesis using k(2,3) by (auto simp: kvs_sized_def kvs_ok_def kvs_frame_def)
qed

text \<open>A store of two dictionaries, with one key in the second.\<close>

lemma demo_store:
  "\<exists>kvs :: (nat, bool) kvstore. reachable demo_type (\<lambda>_ _. True) kvs \<and> kvs_map kvs = [(1, 7) \<mapsto> True] \<and> num_dicts kvs = 2"
proof -
  let ?k = "fresh_store 1 True True :: (nat, bool) kvstore"
  have "kvstoreCreate 1 True True = Some ?k" by (simp add: kvstoreCreate_def)
  then have r: "reachable demo_type (\<lambda>_ _. True) ?k" by (rule created)
  have n: "num_dicts ?k = 2" by (simp add: fresh_store_def num_dicts_def)
  have "kvs_map ?k = Map.empty" by (rule fresh_store_ok(2)) simp
  then show ?thesis using add_key[OF r n, of 1 7 True] by auto
qed


text \<open>C34. Iterating over the dictionaries of a store visits exactly the slots that hold keys, each once, in
  ascending order, and ends.\<close>

theorem iteration_visits_holding_slots:
  assumes "reachable ty canFree kvs"
  shows "\<exists>it. kvstoreIteratorInit kvs = Some it
    \<and> collect canFree (num_dicts kvs + 1) (kvs, it) = Some (filter (\<lambda>i. \<exists>key. kvs_map kvs (i, key) \<noteq> None) [0..<num_dicts kvs])"
proof -
  have ok: "kvs_ok ty kvs" using reachable_ok[OF assms] .
  note len = tallyD(3)[OF ok]
  obtain nx where nx: "kvstoreGetFirstNonEmptyDictIndex kvs = Some nx" "at_next (kvs_sizes kvs) 0 nx"
    using kvstoreGetFirstNonEmptyDictIndex_ok[OF ok] len by (auto simp: at_next_def)
  have "collect canFree (num_dicts kvs + 1) (kvs, \<lparr>it_didx = - 1, it_next_didx = nx\<rparr>) = Some (filter (\<lambda>i. kvs_sizes kvs ! i \<noteq> 0) [0..<num_dicts kvs])"
    by (rule collect_from[OF ok nx(2)]) auto
  also have "filter (\<lambda>i. kvs_sizes kvs ! i \<noteq> 0) [0..<num_dicts kvs] = filter (\<lambda>i. \<exists>key. kvs_map kvs (i, key) \<noteq> None) [0..<num_dicts kvs]"
    using size_pos[OF ok] len by (intro filter_cong refl) (simp add: kvs_sizes_def del: map_eq_conv)
  finally show ?thesis using nx(1) by (simp add: kvstoreIteratorInit_def)
qed

theorem iteration_visits_holding_slots_witness:
  "\<exists>kvs it. kvs_map kvs = [(1, 7 :: nat) \<mapsto> True] \<and> kvstoreIteratorInit kvs = Some it \<and> collect (\<lambda>_ _. True) 3 (kvs, it) = Some [1]"
proof -
  obtain kvs :: "(nat, bool) kvstore" where k: "reachable demo_type (\<lambda>_ _. True) kvs" "kvs_map kvs = [(1, 7) \<mapsto> True]" "num_dicts kvs = 2"
    using demo_store by blast
  have "filter (\<lambda>i. \<exists>key. kvs_map kvs (i, key) \<noteq> None) [0..<2] = [1]" using k(2) by (auto simp: upt_rec)
  then show ?thesis using iteration_visits_holding_slots[OF k(1)] k(2,3) by (auto simp: numeral_3_eq_3)
qed

text \<open>C35. One random number below the size of the store picks a slot for as many values as the slot has keys: each
  key has the same weight, and a slot without keys is never picked.\<close>

theorem fair_random_is_proportional:
  assumes "reachable ty canFree kvs" and "num_dicts kvs \<noteq> 1" and "i < num_dicts kvs"
  shows "card {r. r < card (dom (kvs_map kvs)) \<and> kvstoreGetFairRandomDictIndex kvs (\<lambda>_. False) (of_nat r # rest) slow = Some (int i)}
    = card {key. kvs_map kvs (i, key) \<noteq> None}"
proof -
  have ok: "kvs_ok ty kvs" using reachable_ok[OF assms(1)] .
  then have i: "i < length (kv_dicts kvs)" using assms(3) by (simp add: kvs_ok_def kvs_frame_def)
  have "kvs_sizes kvs ! i = card {key. kvs_map kvs (i, key) \<noteq> None}"
  proof (cases "kv_dicts kvs ! i")
    case (Some d)
    then have "dict_ok ty d" using slot_readyD(1)[of ty kvs i d] ok i by (auto simp: kvs_ok_def dict_ready_def)
    then show ?thesis using sizes_nth[OF i Some] kvs_map_at[OF i Some] dictSize_card(1)[of ty d] by (simp add: dom_def)
  qed (use i in \<open>simp add: kvs_sizes_def kvs_map_slot slot_map_def\<close>)
  then show ?thesis using fair_random_count[OF ok assms(2,3)] kvs_card[OF ok] by simp
qed

theorem fair_random_is_proportional_witness:
  "\<exists>kvs. kvs_map kvs = [(1, 7 :: nat) \<mapsto> True] \<and> kvstoreGetFairRandomDictIndex kvs (\<lambda>_. False) [0] None = Some 1"
proof -
  obtain kvs :: "(nat, bool) kvstore" where k: "reachable demo_type (\<lambda>_ _. True) kvs" "kvs_map kvs = [(1, 7) \<mapsto> True]" "num_dicts kvs = 2"
    using demo_store by blast
  have "{key. kvs_map kvs (1, key) \<noteq> None} = {7}" using k(2) by auto
  then have "card {r. r < 1 \<and> kvstoreGetFairRandomDictIndex kvs (\<lambda>_. False) [of_nat r] None = Some (int 1)} = 1"
    using fair_random_is_proportional[OF k(1), of 1 "[]" None] k(2,3) by simp
  then have "{r. r < 1 \<and> kvstoreGetFairRandomDictIndex kvs (\<lambda>_. False) [of_nat r] None = Some (int 1)} \<noteq> {}" by (metis card.empty zero_neq_one)
  then show ?thesis using k(2) by auto
qed

section \<open>Scan cursors\<close>

lemma high_bits:
  fixes w :: u64
  assumes "unat w < 2 ^ b" "b \<le> n"
  shows "\<not> bit w n"
proof -
  have "take_bit b w = w" using assms(1) by (simp add: word_unat_eq_iff unsigned_take_bit_eq take_bit_nat_eq_self)
  then have "bit w n = bit (take_bit b w) n" by simp
  then show ?thesis using assms(2) by (simp add: bit_take_bit_iff)
qed

lemma low_bits:
  fixes c w :: u64
  assumes b: "b \<le> 16" and w: "unat w < 2 ^ b" and c: "unat c < 2 ^ 48"
  shows "(push_bit b c OR w) AND mask b = w" "drop_bit b (push_bit b c OR w) = c"
proof -
  show "(push_bit b c OR w) AND mask b = w"
    using high_bits[OF w] by (intro bit_eqI) (auto simp: bit_simps, meson not_le)
  have "n < 48" if "bit c n" for n using high_bits[OF c, of n] that by (meson not_le)
  then show "drop_bit b (push_bit b c OR w) = c"
    using b high_bits[OF w] by (intro bit_eqI) (fastforce simp: bit_simps)
qed

text \<open>C36. The slot number packed into the low bits of a scan cursor comes back out, and the cursor of the
  dictionary with it, for any cursor of 48 bits.\<close>

theorem cursor_roundtrip:
  assumes "reachable ty canFree kvs" and i: "i < num_dicts kvs" and c: "unat c < 2 ^ 48"
  shows "getAndClearDictIndexFromCursor kvs (addDictIndexToCursor kvs (int i) c) = (i, c)"
proof (cases "num_dicts kvs = 1")
  case True
  then show ?thesis using i by (simp add: getAndClearDictIndexFromCursor_def addDictIndexToCursor_def)
next
  case False
  let ?b = "num_dicts_bits kvs"
  have b: "?b \<le> 16" using reachable_ok[OF assms(1)] by (simp add: kvs_ok_def kvs_frame_def)
  then have "(2 :: nat) ^ ?b \<le> 2 ^ 16" by (intro power_increasing) auto
  then have u: "unat (of_nat i :: u64) = i" using i by (simp add: num_dicts_def unat_of_nat take_bit_nat_eq_self)
  have m: "(of_nat (num_dicts kvs - 1) :: u64) = mask ?b" by (simp add: num_dicts_def mask_eq_exp_minus_1 of_nat_diff)
  show ?thesis using False low_bits[OF b, of "of_nat i" c] c u i m
    by (simp add: getAndClearDictIndexFromCursor_def addDictIndexToCursor_def num_dicts_def)
qed

theorem cursor_roundtrip_witness:
  "\<exists>kvs :: (nat, bool) kvstore. num_dicts kvs = 2 \<and> getAndClearDictIndexFromCursor kvs (addDictIndexToCursor kvs 1 5) = (1, 5)"
proof -
  obtain kvs :: "(nat, bool) kvstore" where k: "reachable demo_type (\<lambda>_ _. True) kvs" "num_dicts kvs = 2" using demo_store by blast
  then show ?thesis using cursor_roundtrip[OF k(1), of 1 5] by auto
qed

section \<open>Moving a dictionary\<close>

lemma move_dict:
  assumes ok: "kvs_ok ty kvs" "kvs_ok ty dst" and same: "num_dicts kvs = num_dicts dst" and i: "didx < num_dicts kvs"
    and d: "kv_dicts kvs ! didx = Some d" and e: "kv_dicts dst ! didx = None"
    and room: "card (dom (kvs_map dst)) + card (dom (kvs_map kvs)) < 2 ^ 64 - 1"
  shows "\<exists>kvs' dst'. kvstoreMoveDict kvs dst didx = Some (kvs', dst')
    \<and> kvs_map kvs' = (\<lambda>(i, key). if i = didx then None else kvs_map kvs (i, key))
    \<and> kvs_map dst' = (\<lambda>(i, key). if i = didx then kvs_map kvs (i, key) else kvs_map dst (i, key))
    \<and> kvstoreSize kvs' = kvstoreSize kvs - of_nat (dictSize d) \<and> kvstoreSize dst' = kvstoreSize dst + of_nat (dictSize d)
    \<and> non_empty_dicts kvs' = non_empty_dicts kvs + ne_delta (dictSize d) (- int (dictSize d))
    \<and> non_empty_dicts dst' = non_empty_dicts dst + ne_delta (dictSize d) (int (dictSize d))"
proof -
  have len: "didx < length (kv_dicts kvs)" "didx < length (kv_dicts dst)" using ok i same by (simp_all add: kvs_ok_def kvs_frame_def)
  then have l': "didx < length (kvs_sizes kvs)" "didx < length (kvs_sizes dst)" by (simp_all add: kvs_sizes_def)
  have sz: "kvs_sizes kvs ! didx = dictSize d" "kvs_sizes dst ! didx = 0" using sizes_nth[OF len(1) d] len e by (simp_all add: kvs_sizes_def)
  have "dictSize d \<le> sum_list (kvs_sizes kvs)" using l'(1) sz(1) by (metis elem_le_sum_list)
  then have rm: "sum_list (kvs_sizes dst) + dictSize d < 2 ^ 64 - 1" using room kvs_card[OF ok(1)] kvs_card[OF ok(2)] by simp
  obtain kvs' dst' s where m: "kvstoreMoveDict kvs dst didx = Some (kvs', dst')"
    "kv_dicts kvs' = (kv_dicts kvs)[didx := s]" "slot_map s = Map.empty" "tally kvs' ((kvs_sizes kvs)[didx := 0])"
    "kv_dicts dst' = (kv_dicts dst)[didx := Some d]" "tally dst' ((kvs_sizes dst)[didx := dictSize d])"
    "non_empty_dicts kvs' = non_empty_dicts kvs + ne_delta (dictSize d) (- int (dictSize d))"
    "non_empty_dicts dst' = non_empty_dicts dst + ne_delta (dictSize d) (int (dictSize d))"
    using kvstoreMoveDict_runs[OF ok same i d e rm] by - (elim exE conjE, rule that, assumption+)
  have "sum_list ((kvs_sizes kvs)[didx := 0]) = sum_list (kvs_sizes kvs) - dictSize d"
    "sum_list ((kvs_sizes dst)[didx := dictSize d]) = sum_list (kvs_sizes dst) + dictSize d"
    using l' sz by (simp_all add: sum_list_update)
  then have "kvstoreSize kvs' = kvstoreSize kvs - of_nat (dictSize d)" "kvstoreSize dst' = kvstoreSize dst + of_nat (dictSize d)"
    using m(4,6) tallyD(1)[OF ok(1)] tallyD(1)[OF ok(2)] \<open>dictSize d \<le> sum_list (kvs_sizes kvs)\<close>
    by (simp_all add: tally_def kvstoreSize_def of_nat_diff)
  moreover have "kvs_map kvs' = (\<lambda>(i, key). if i = didx then None else kvs_map kvs (i, key))"
    "kvs_map dst' = (\<lambda>(i, key). if i = didx then kvs_map kvs (i, key) else kvs_map dst (i, key))"
    using kvs_map_dicts[OF m(2) len(1)] kvs_map_dicts[OF m(5) len(2)] m(3) kvs_map_at[OF len(1) d]
    by (auto simp: fun_eq_iff slot_map_def)
  ultimately show ?thesis using m(1,7,8) by blast
qed

lemma slot_keys:
  assumes ok: "kvs_ok ty kvs" and i: "i < num_dicts kvs" and k: "0 < card {key. kvs_map kvs (i, key) \<noteq> None}"
  shows "\<exists>d. kv_dicts kvs ! i = Some d \<and> dictSize d = card {key. kvs_map kvs (i, key) \<noteq> None}"
proof -
  have len: "i < length (kv_dicts kvs)" using ok i by (simp add: kvs_ok_def kvs_frame_def)
  then obtain d where d: "kv_dicts kvs ! i = Some d" using k by (cases "kv_dicts kvs ! i") (auto simp: kvs_map_slot slot_map_def)
  have "dict_ok ty d" using slot_readyD(1)[OF _ len d] ok by (auto simp: kvs_ok_def dict_ready_def)
  then show ?thesis using d kvs_map_at[OF len d] dictSize_card(1)[of ty d] by (simp add: dom_def)
qed

text \<open>C37. Moving a dictionary to another store takes all its keys with it: the source has no key left in the slot, the
  destination has exactly those the source had, and nothing else changes in either. The key counts of both follow.\<close>

theorem move_dict_moves_keys:
  assumes "reachable ty canFree kvs" "reachable ty canFree dst" and "num_dicts kvs = num_dicts dst" "didx < num_dicts kvs"
    and "kvstoreGetDict dst didx = Some None" and "card (dom (kvs_map dst)) + card (dom (kvs_map kvs)) < 2 ^ 64 - 1"
    and n: "n = card {key. kvs_map kvs (didx, key) \<noteq> None}" "0 < n"
  shows "\<exists>kvs' dst'. kvstoreMoveDict kvs dst didx = Some (kvs', dst')
    \<and> kvs_map kvs' = (\<lambda>(i, key). if i = didx then None else kvs_map kvs (i, key))
    \<and> kvs_map dst' = (\<lambda>(i, key). if i = didx then kvs_map kvs (i, key) else kvs_map dst (i, key))
    \<and> kvstoreSize kvs' = kvstoreSize kvs - of_nat n \<and> kvstoreSize dst' = kvstoreSize dst + of_nat n"
proof -
  have ok: "kvs_ok ty kvs" "kvs_ok ty dst" using assms(1,2) reachable_ok by auto
  obtain d where d: "kv_dicts kvs ! didx = Some d" "dictSize d = n" using slot_keys[OF ok(1) assms(4)] n by auto
  have "kv_dicts dst ! didx = None" using assms(5) by (auto simp: kvstoreGetDict_def split: if_splits)
  from move_dict[OF ok assms(3,4) d(1) this assms(6)] show ?thesis unfolding d(2) by blast
qed

text \<open>C38. The number of dictionaries that hold keys does not follow when a dictionary of two keys or more moves: the
  adjustment looks at the size of the dictionary, which is the same before and after, so the source still
  counts the slot it has lost and the destination does not count the one it has gained.\<close>

theorem move_dict_miscounts:
  assumes "reachable ty canFree kvs" "reachable ty canFree dst" and "num_dicts kvs = num_dicts dst" "didx < num_dicts kvs"
    and "kvstoreGetDict dst didx = Some None" and "card (dom (kvs_map dst)) + card (dom (kvs_map kvs)) < 2 ^ 64 - 1"
    and "2 \<le> card {key. kvs_map kvs (didx, key) \<noteq> None}"
  shows "\<exists>kvs' dst'. kvstoreMoveDict kvs dst didx = Some (kvs', dst')
    \<and> non_empty_dicts kvs' = int (card {i. \<exists>key. kvs_map kvs' (i, key) \<noteq> None}) + 1
    \<and> non_empty_dicts dst' = int (card {i. \<exists>key. kvs_map dst' (i, key) \<noteq> None}) - 1"
proof -
  have ok: "kvs_ok ty kvs" "kvs_ok ty dst" using assms(1,2) reachable_ok by auto
  obtain d where d: "kv_dicts kvs ! didx = Some d" "2 \<le> dictSize d" using slot_keys[OF ok(1) assms(4)] assms(7) by auto
  have e: "kv_dicts dst ! didx = None" "didx < length (kv_dicts dst)" using assms(5) by (auto simp: kvstoreGetDict_def split: if_splits)
  let ?A = "\<lambda>k :: ('a, 'b) kvstore. {i. \<exists>key. kvs_map k (i, key) \<noteq> None}"
  have "ne_delta (dictSize d) (- int (dictSize d)) = 0" "ne_delta (dictSize d) (int (dictSize d)) = 0" using d(2) by (simp_all add: ne_delta_def)
  from move_dict[OF ok assms(3,4) d(1) e(1) assms(6), unfolded this] obtain kvs' dst' where
    m: "kvstoreMoveDict kvs dst didx = Some (kvs', dst')" "kvs_map kvs' = (\<lambda>(i, key). if i = didx then None else kvs_map kvs (i, key))"
    "kvs_map dst' = (\<lambda>(i, key). if i = didx then kvs_map kvs (i, key) else kvs_map dst (i, key))"
    "non_empty_dicts kvs' = non_empty_dicts kvs" "non_empty_dicts dst' = non_empty_dicts dst" by auto
  have c: "non_empty_dicts k = int (card (?A k))" "finite (?A k)" if "kvs_ok ty k" for k
    using tallyD(5)[OF that] non_empty_card[of "kvs_sizes k"] holding_slots[OF that] by simp_all
  have "{key. kvs_map kvs (didx, key) \<noteq> None} \<noteq> {}" using assms(7) by (metis card.empty not_numeral_le_zero)
  then have in1: "didx \<in> ?A kvs" by blast
  moreover have in2: "didx \<notin> ?A dst" using e by (simp add: kvs_map_slot slot_map_def)
  ultimately have "?A kvs' = ?A kvs - {didx}" "?A dst' = insert didx (?A dst)" unfolding m(2,3) by auto
  then have "int (card (?A kvs')) = int (card (?A kvs)) - 1" "int (card (?A dst')) = int (card (?A dst)) + 1"
    using c(2)[OF ok(1)] c(2)[OF ok(2)] in1 in2 card_Suc_Diff1[of "?A kvs" didx] by auto
  then show ?thesis using m(1,4,5) c(1)[OF ok(1)] c(1)[OF ok(2)] by auto
qed

lemma demo_move:
  "\<exists>kvs dst :: (nat, bool) kvstore. reachable demo_type (\<lambda>_ _. True) kvs \<and> reachable demo_type (\<lambda>_ _. True) dst
    \<and> num_dicts kvs = 2 \<and> num_dicts dst = 2 \<and> kvs_map kvs = [(1, 7) \<mapsto> True, (1, 8) \<mapsto> False] \<and> kvs_map dst = Map.empty
    \<and> kvstoreGetDict dst 1 = Some None"
proof -
  obtain a :: "(nat, bool) kvstore" where a: "reachable demo_type (\<lambda>_ _. True) a" "kvs_map a = [(1, 7) \<mapsto> True]" "num_dicts a = 2"
    using demo_store by blast
  obtain kvs where k: "reachable demo_type (\<lambda>_ _. True) kvs" "num_dicts kvs = 2" "kvs_map kvs = [(1, 7) \<mapsto> True, (1, 8) \<mapsto> False]"
    using add_key[OF a(1,3), of 1 8 False] a(2) by auto
  let ?d = "fresh_store 1 True True :: (nat, bool) kvstore"
  have "kvstoreCreate 1 True True = Some ?d" by (simp add: kvstoreCreate_def)
  then have "reachable demo_type (\<lambda>_ _. True) ?d" by (rule created)
  moreover have "num_dicts ?d = 2" "kvstoreGetDict ?d 1 = Some None" by (simp_all add: fresh_store_def num_dicts_def kvstoreGetDict_def)
  moreover have "kvs_map ?d = Map.empty" by (rule fresh_store_ok(2)) simp
  ultimately show ?thesis using k by blast
qed

lemma demo_move_keys:
  assumes "kvs_map kvs = [(1 :: nat, 7 :: nat) \<mapsto> True, (1, 8) \<mapsto> False]"
  shows "card {key. kvs_map kvs (1, key) \<noteq> None} = 2" "card (dom (kvs_map kvs)) = 2"
proof -
  have "{key. kvs_map kvs (1, key) \<noteq> None} = {7, 8}" using assms by auto
  then show "card {key. kvs_map kvs (1, key) \<noteq> None} = 2" by simp
  show "card (dom (kvs_map kvs)) = 2" unfolding assms by simp
qed

theorem move_dict_moves_keys_witness:
  "\<exists>kvs dst kvs' dst' :: (nat, bool) kvstore. kvs_map kvs = [(1, 7) \<mapsto> True, (1, 8) \<mapsto> False]
    \<and> kvstoreMoveDict kvs dst 1 = Some (kvs', dst') \<and> kvs_map kvs' (1, 7) = None \<and> kvs_map dst' (1, 7) = Some True"
proof -
  obtain kvs dst :: "(nat, bool) kvstore" where k: "reachable demo_type (\<lambda>_ _. True) kvs" "reachable demo_type (\<lambda>_ _. True) dst"
    "num_dicts kvs = 2" "num_dicts dst = 2" "kvs_map kvs = [(1, 7) \<mapsto> True, (1, 8) \<mapsto> False]" "kvs_map dst = Map.empty" "kvstoreGetDict dst 1 = Some None"
    using demo_move by blast
  note n = demo_move_keys[OF k(5)]
  have "\<exists>kvs' dst'. kvstoreMoveDict kvs dst 1 = Some (kvs', dst') \<and> kvs_map kvs' (1, 7) = None \<and> kvs_map dst' (1, 7) = kvs_map kvs (1, 7)"
    using move_dict_moves_keys[OF k(1,2), of 1 2] k(3,4,6,7) n by auto
  then show ?thesis using k(5) by auto
qed

theorem move_dict_miscounts_witness:
  "\<exists>kvs dst kvs' dst' :: (nat, bool) kvstore. kvs_map kvs = [(1, 7) \<mapsto> True, (1, 8) \<mapsto> False]
    \<and> kvstoreMoveDict kvs dst 1 = Some (kvs', dst') \<and> non_empty_dicts kvs' = int (card {i. \<exists>key. kvs_map kvs' (i, key) \<noteq> None}) + 1"
proof -
  obtain kvs dst :: "(nat, bool) kvstore" where k: "reachable demo_type (\<lambda>_ _. True) kvs" "reachable demo_type (\<lambda>_ _. True) dst"
    "num_dicts kvs = 2" "num_dicts dst = 2" "kvs_map kvs = [(1, 7) \<mapsto> True, (1, 8) \<mapsto> False]" "kvs_map dst = Map.empty" "kvstoreGetDict dst 1 = Some None"
    using demo_move by blast
  note n = demo_move_keys[OF k(5)]
  show ?thesis using move_dict_miscounts[OF k(1,2), of 1] k(3-7) n by auto
qed

end
