(* ===== verification/Intset.thy ===== *)
theory Intset
  imports Prelude "HOL-Library.Monad_Syntax"
begin

text \<open>
  Sets of integers (\<^verbatim>\<open>src/src/intset.c\<close>): a sorted array of 16, 32 or 64 bit integers behind a header of
  two 32 bit fields. The array is its bytes, little endian on every machine as the \<^verbatim>\<open>memrev\<close> calls make
  it, so that reading at one width while writing at another, as the upgrade does, is what it is in
  memory. An access outside the array and a failed assertion are \<^term>\<open>None\<close>. The bytes that \<^verbatim>\<open>zrealloc\<close> adds
  are unspecified: they come from the parameter \<^verbatim>\<open>fill\<close>.
\<close>

section \<open>Layout\<close>

record intset =
  is_encoding :: u32
  is_length :: u32
  is_contents :: "u8 list"

abbreviation INTSET_ENC_INT16 :: u32 where "INTSET_ENC_INT16 \<equiv> 2"
abbreviation INTSET_ENC_INT32 :: u32 where "INTSET_ENC_INT32 \<equiv> 4"
abbreviation INTSET_ENC_INT64 :: u32 where "INTSET_ENC_INT64 \<equiv> 8"

definition p_intsetValueEncoding :: "int \<Rightarrow> u32" where
  "p_intsetValueEncoding v =
    (if v < - (2 ^ 31) \<or> v > 2 ^ 31 - 1 then INTSET_ENC_INT64
     else if v < - (2 ^ 15) \<or> v > 2 ^ 15 - 1 then INTSET_ENC_INT32
     else INTSET_ENC_INT16)"

text \<open>The record size of an encoding, by the cascade of tests that every access has.\<close>

definition rec_size :: "u32 \<Rightarrow> nat" where
  "rec_size enc = (if enc = INTSET_ENC_INT64 then 8 else if enc = INTSET_ENC_INT32 then 4 else 2)"

text \<open>The little endian bytes of a number, cut to \<^term>\<open>n\<close> bytes, and the signed number that bytes stand for.\<close>

definition bytes_le :: "nat \<Rightarrow> int \<Rightarrow> u8 list" where
  "bytes_le n v = map (\<lambda>i. word_of_int (v div 256 ^ i)) [0..<n]"

fun le_uint :: "u8 list \<Rightarrow> int" where
  "le_uint [] = 0"
| "le_uint (b # bs) = uint b + 256 * le_uint bs"

definition le_sint :: "u8 list \<Rightarrow> int" where
  "le_sint bs = (let u = le_uint bs in if u < 2 ^ (8 * length bs - 1) then u else u - 2 ^ (8 * length bs))"

section \<open>Access\<close>

text \<open>The argument \<^verbatim>\<open>enc\<close> is an \<^verbatim>\<open>uint8_t\<close>: the callers pass the low byte of the field.\<close>

definition p_intsetGetEncoded :: "intset \<Rightarrow> int \<Rightarrow> u32 \<Rightarrow> int option" where
  "p_intsetGetEncoded is pos enc =
    (let n = rec_size enc; off = nat pos * n
     in if pos < 0 \<or> length (is_contents is) < off + n then None else Some (le_sint (take n (drop off (is_contents is)))))"

definition p_intsetGet :: "intset \<Rightarrow> int \<Rightarrow> int option" where
  "p_intsetGet is pos = p_intsetGetEncoded is pos (take_bit 8 (is_encoding is))"

definition p_intsetSet :: "intset \<Rightarrow> int \<Rightarrow> int \<Rightarrow> intset option" where
  "p_intsetSet is pos value =
    (let n = rec_size (is_encoding is); off = nat pos * n; c = is_contents is
     in if pos < 0 \<or> length c < off + n then None
        else Some (is\<lparr>is_contents := take off c @ bytes_le n value @ drop (off + n) c\<rparr>))"

section \<open>Creation and size\<close>

text \<open>The header has \<^verbatim>\<open>sizeof(intset)\<close> = 8 bytes, and \<^verbatim>\<open>SIZE_MAX\<close> is \<^term>\<open>(2 :: nat) ^ 64 - 1\<close>.\<close>

definition intsetNew :: intset where
  "intsetNew = \<lparr>is_encoding = INTSET_ENC_INT16, is_length = 0, is_contents = []\<rparr>"

definition intsetAllocSize :: "intset \<Rightarrow> nat option" where
  "intsetAllocSize is =
    (let size = unat (is_length is) * unat (is_encoding is)
     in if size \<le> 2 ^ 64 - 1 - 8 then Some (8 + size) else None)"

definition intsetResize :: "(nat \<Rightarrow> u8) \<Rightarrow> intset \<Rightarrow> u32 \<Rightarrow> intset option" where
  "intsetResize fill is len =
    (let size = unat len * unat (is_encoding is); c = is_contents is
     in if size \<le> 2 ^ 64 - 1 - 8
        then Some (is\<lparr>is_contents := take size c @ map fill [length c..<size]\<rparr>) else None)"

section \<open>Search\<close>

text \<open>The loop keeps \<^verbatim>\<open>min\<close>, \<^verbatim>\<open>max\<close>, \<^verbatim>\<open>mid\<close> and \<^verbatim>\<open>cur\<close>, and returns the last three that the code reads
  after it. The interval shrinks in every round, so that its size is enough fuel.\<close>

fun search_loop :: "intset \<Rightarrow> int \<Rightarrow> nat \<Rightarrow> int \<Rightarrow> int \<Rightarrow> int \<Rightarrow> int \<Rightarrow> (int \<times> int \<times> int) option" where
  "search_loop is value 0 lo hi mid cur = None"
| "search_loop is value (Suc fuel) lo hi mid cur =
    (if hi < lo then Some (lo, mid, cur)
     else let mid = uint (drop_bit 1 (word_of_int lo + word_of_int hi :: u32))
       in do { cur \<leftarrow> p_intsetGet is mid;
               if value > cur then search_loop is value fuel (mid + 1) hi mid cur
               else if value < cur then search_loop is value fuel lo (mid - 1) mid cur
               else Some (lo, mid, cur) })"

definition intsetSearch :: "intset \<Rightarrow> int \<Rightarrow> (bool \<times> u32) option" where
  "intsetSearch is value =
    (let hi = sint (is_length is - 1)
     in if is_length is = 0 then Some (False, 0)
        else do { top \<leftarrow> p_intsetGet is hi;
          if value > top then Some (False, is_length is)
          else do { bottom \<leftarrow> p_intsetGet is 0;
            if value < bottom then Some (False, 0)
            else do { (lo, mid, cur) \<leftarrow> search_loop is value (unat (is_length is) + 1) 0 hi (- 1) (- 1);
                      Some (if value = cur then (True, word_of_int mid) else (False, word_of_int lo)) } } })"

section \<open>Changes\<close>

text \<open>The loop of the upgrade runs from the last element to the first.\<close>

fun upgrade_loop :: "u32 \<Rightarrow> int \<Rightarrow> nat \<Rightarrow> intset \<Rightarrow> intset option" where
  "upgrade_loop curenc prepend 0 is = Some is"
| "upgrade_loop curenc prepend (Suc len) is =
    do { v \<leftarrow> p_intsetGetEncoded is (int len) curenc;
         is' \<leftarrow> p_intsetSet is (int len + prepend) v;
         upgrade_loop curenc prepend len is' }"

definition intsetUpgradeAndAdd :: "(nat \<Rightarrow> u8) \<Rightarrow> intset \<Rightarrow> int \<Rightarrow> intset option" where
  "intsetUpgradeAndAdd fill is value =
    (let curenc = take_bit 8 (is_encoding is); newenc = p_intsetValueEncoding value; len = sint (is_length is);
         prepend = (if value < 0 then 1 else 0)
     in do { is1 \<leftarrow> intsetResize fill (is\<lparr>is_encoding := newenc\<rparr>) (is_length is + 1);
             is2 \<leftarrow> (if len < 0 then None else upgrade_loop curenc prepend (nat len) is1);
             is3 \<leftarrow> (if prepend = 1 then p_intsetSet is2 0 value else p_intsetSet is2 (sint (is_length is2)) value);
             Some (is3\<lparr>is_length := is_length is3 + 1\<rparr>) })"

text \<open>The number of bytes to move is computed at 32 bits.\<close>

definition intsetMoveTail :: "intset \<Rightarrow> u32 \<Rightarrow> u32 \<Rightarrow> intset option" where
  "intsetMoveTail is from_pos to_pos =
    (let n = rec_size (is_encoding is); c = is_contents is; bytes = unat ((is_length is - from_pos) * of_nat n);
         src = unat from_pos * n; dst = unat to_pos * n
     in if length c < src + bytes \<or> length c < dst + bytes then None
        else Some (is\<lparr>is_contents := take dst c @ take bytes (drop src c) @ drop (dst + bytes) c\<rparr>))"

definition intsetAdd :: "(nat \<Rightarrow> u8) \<Rightarrow> intset \<Rightarrow> int \<Rightarrow> (intset \<times> bool) option" where
  "intsetAdd fill is value =
    (if p_intsetValueEncoding value > is_encoding is
     then map_option (\<lambda>is'. (is', True)) (intsetUpgradeAndAdd fill is value)
     else do { (found, pos) \<leftarrow> intsetSearch is value;
       if found then Some (is, False)
       else do { is1 \<leftarrow> intsetResize fill is (is_length is + 1);
                 is2 \<leftarrow> (if pos < is_length is1 then intsetMoveTail is1 pos (pos + 1) else Some is1);
                 is3 \<leftarrow> p_intsetSet is2 (sint pos) value;
                 Some (is3\<lparr>is_length := is_length is3 + 1\<rparr>, True) } })"

definition intsetRemove :: "(nat \<Rightarrow> u8) \<Rightarrow> intset \<Rightarrow> int \<Rightarrow> (intset \<times> bool) option" where
  "intsetRemove fill is value =
    (if p_intsetValueEncoding value > is_encoding is then Some (is, False)
     else do { (found, pos) \<leftarrow> intsetSearch is value;
       if \<not> found then Some (is, False)
       else let len = is_length is
         in do { is1 \<leftarrow> (if pos < len - 1 then intsetMoveTail is (pos + 1) pos else Some is);
                 is2 \<leftarrow> intsetResize fill is1 (len - 1);
                 Some (is2\<lparr>is_length := len - 1\<rparr>, True) } })"

section \<open>Queries\<close>

definition intsetFind :: "intset \<Rightarrow> int \<Rightarrow> bool option" where
  "intsetFind is value =
    (if p_intsetValueEncoding value \<le> is_encoding is then map_option fst (intsetSearch is value) else Some False)"

text \<open>The number drawn with \<^verbatim>\<open>rand\<close> is a parameter.\<close>

definition intsetRandom :: "intset \<Rightarrow> u32 \<Rightarrow> int option" where
  "intsetRandom is rnd = (if is_length is = 0 then None else p_intsetGet is (sint (rnd mod is_length is)))"

definition intsetMax :: "intset \<Rightarrow> int option" where
  "intsetMax is = p_intsetGet is (sint (is_length is - 1))"

definition intsetMin :: "intset \<Rightarrow> int option" where
  "intsetMin is = p_intsetGet is 0"

text \<open>The outer option is a read outside the array, the inner one the result 0 of the function.\<close>

definition intsetGet :: "intset \<Rightarrow> u32 \<Rightarrow> int option option" where
  "intsetGet is pos = (if pos < is_length is then map_option Some (p_intsetGet is (sint pos)) else Some None)"

definition intsetLen :: "intset \<Rightarrow> u32" where
  "intsetLen is = is_length is"

definition intsetBlobLen :: "intset \<Rightarrow> nat" where
  "intsetBlobLen is = 8 + unat (is_length is) * unat (is_encoding is)"

section \<open>Validation\<close>

text \<open>A buffer read as an \<^verbatim>\<open>intset\<close>.\<close>

definition intset_of_bytes :: "u8 list \<Rightarrow> intset" where
  "intset_of_bytes p = \<lparr>is_encoding = word_of_int (le_uint (take 4 p)), is_length = word_of_int (le_uint (take 4 (drop 4 p))),
    is_contents = drop 8 p\<rparr>"

fun order_loop :: "intset \<Rightarrow> int \<Rightarrow> nat list \<Rightarrow> bool option" where
  "order_loop is prev [] = Some True"
| "order_loop is prev (i # rest) =
    do { cur \<leftarrow> p_intsetGet is (sint (of_nat i :: u32)); if cur \<le> prev then Some False else order_loop is cur rest }"

definition intsetValidateIntegrity :: "u8 list \<Rightarrow> bool \<Rightarrow> bool option" where
  "intsetValidateIntegrity p deep =
    (if length p < 8 then Some False
     else let is = intset_of_bytes p; encoding = is_encoding is; count = is_length is
       in if encoding \<noteq> INTSET_ENC_INT64 \<and> encoding \<noteq> INTSET_ENC_INT32 \<and> encoding \<noteq> INTSET_ENC_INT16 then Some False
          else if 8 + unat count * rec_size encoding \<noteq> length p then Some False
          else if count = 0 then Some False
          else if \<not> deep then Some True
          else do { prev \<leftarrow> p_intsetGet is 0; order_loop is prev [1..<unat count] })"

end
