(* ===== verification/IntsetCorrect.thy ===== *)
theory IntsetCorrect
  imports Intset MapMachine
begin

text \<open>
  Sets of integers are sets: the bytes of a well-formed \<^verbatim>\<open>intset\<close> stand for a sorted list of integers, the
  binary search finds the position of a value in it, insertion, removal and the upgrade to wider
  records compute on the list, and the check of saved bytes accepts exactly the well-formed sets.
\<close>

section \<open>Bytes\<close>

lemma length_bytes_le [simp]: "length (bytes_le n v) = n"
  by (simp add: bytes_le_def)

lemma bytes_le_Suc: "bytes_le (Suc n) v = word_of_int v # bytes_le n (v div 256)"
proof (rule nth_equalityI)
  fix i assume "i < length (bytes_le (Suc n) v)"
  then show "bytes_le (Suc n) v ! i = (word_of_int v # bytes_le n (v div 256)) ! i"
    by (cases i) (simp_all add: bytes_le_def zdiv_zmult2_eq del: upt_Suc)
qed simp

lemma le_uint_of_bytes: "le_uint (bytes_le n v) = v mod 256 ^ n"
proof (induction n arbitrary: v)
  case (Suc n)
  have "v mod (256 * 256 ^ n) = 256 * (v div 256 mod 256 ^ n) + v mod 256" by (rule zmod_zmult2_eq) simp
  then show ?case using Suc by (simp add: bytes_le_Suc uint_word_of_int_eq take_bit_eq_mod)
qed (simp add: bytes_le_def)

lemma le_uint_range: "0 \<le> le_uint bs \<and> le_uint bs < 256 ^ length bs"
proof (induction bs)
  case (Cons b bs)
  have "uint b < 256" using uint_lt2p[of b] by simp
  then show ?case using Cons by auto
qed simp

lemma bytes_le_uint: "bytes_le (length bs) (le_uint bs) = bs"
proof (induction bs)
  case (Cons b bs)
  have "uint b < 256" using uint_lt2p[of b] by simp
  then have "(uint b + 256 * le_uint bs) div 256 = le_uint bs" by simp
  moreover have "(word_of_int (uint b + 256 * le_uint bs) :: u8) = b"
  proof -
    have z: "(256 :: u8) = 0" by (rule word_uint_eqI) simp
    show ?thesis unfolding of_int_add of_int_mult of_int_numeral z by simp
  qed
  ultimately show ?case using Cons by (simp add: bytes_le_Suc)
qed (simp add: bytes_le_def)

lemma bytes_le_cong: "v mod 256 ^ n = w mod 256 ^ n \<Longrightarrow> bytes_le n v = bytes_le n w"
  using bytes_le_uint[of "bytes_le n v"] bytes_le_uint[of "bytes_le n w"] by (simp add: le_uint_of_bytes)

text \<open>The integers that \<^term>\<open>n\<close> bytes can hold.\<close>

definition fits :: "nat \<Rightarrow> int \<Rightarrow> bool" where
  "fits n v \<longleftrightarrow> - (2 ^ (8 * n - 1)) \<le> v \<and> v < 2 ^ (8 * n - 1)"

lemma pow_256: "(256 :: int) ^ n = 2 ^ (8 * n)"
  by (simp add: power_mult)

lemma half: "0 < n \<Longrightarrow> (2 :: int) ^ (8 * n) = 2 * 2 ^ (8 * n - 1)"
  by (subst power_Suc[symmetric]) simp

lemma le_sint_of_bytes:
  assumes "0 < n" "fits n v"
  shows "le_sint (bytes_le n v) = v"
proof -
  let ?H = "(2 :: int) ^ (8 * n - 1)"
  have u: "le_uint (bytes_le n v) = v mod (2 * ?H)" using half[OF assms(1)] by (simp add: le_uint_of_bytes pow_256)
  show ?thesis
  proof (cases "0 \<le> v")
    case True
    then have "v mod (2 * ?H) = v" using assms(2) by (simp add: fits_def)
    then show ?thesis using u assms(2) by (simp add: le_sint_def fits_def)
  next
    case False
    have "v mod (2 * ?H) = (v + 2 * ?H) mod (2 * ?H)" by simp
    also have "\<dots> = v + 2 * ?H" using False assms(2) by (intro mod_pos_pos_trivial) (auto simp: fits_def)
    finally show ?thesis using u assms half[OF assms(1)] by (simp add: le_sint_def Let_def fits_def)
  qed
qed

lemma bytes_le_sint: "bs \<noteq> [] \<Longrightarrow> bytes_le (length bs) (le_sint bs) = bs"
proof -
  have "le_sint bs mod 256 ^ length bs = le_uint bs mod 256 ^ length bs"
    by (simp add: le_sint_def Let_def pow_256)
  then show ?thesis using bytes_le_cong bytes_le_uint by metis
qed

lemma le_sint_fits: "bs \<noteq> [] \<Longrightarrow> fits (length bs) (le_sint bs)"
  using le_uint_range[of bs] half[of "length bs"] by (auto simp: le_sint_def fits_def Let_def pow_256)

section \<open>Records\<close>

text \<open>The \<^term>\<open>i\<close>-th record of \<^term>\<open>n\<close> bytes.\<close>

definition chunk :: "nat \<Rightarrow> nat \<Rightarrow> u8 list \<Rightarrow> u8 list" where
  "chunk n i c = take n (drop (i * n) c)"

lemma length_chunk: "(i + 1) * n \<le> length c \<Longrightarrow> length (chunk n i c) = n"
  by (simp add: chunk_def)

lemma chunk_nth: "(i + 1) * n \<le> length c \<Longrightarrow> b < n \<Longrightarrow> chunk n i c ! b = c ! (i * n + b)"
  by (simp add: chunk_def)

lemma chunk_eqI:
  assumes "(i + 1) * n \<le> length c" "(j + 1) * n \<le> length d" "\<And>b. b < n \<Longrightarrow> c ! (i * n + b) = d ! (j * n + b)"
  shows "chunk n i c = chunk n j d"
  using assms by (intro nth_equalityI) (simp_all add: chunk_nth length_chunk)

lemma in_record: "b < n \<Longrightarrow> i * n + b < t * n \<longleftrightarrow> i < (t :: nat)"
proof
  assume "b < n" "i < t"
  then have "i * n + b < (i + 1) * n" "(i + 1) * n \<le> t * n" using mult_le_mono1[of "i + 1" t n] by simp_all
  then show "i * n + b < t * n" by linarith
next
  assume "b < n" "i * n + b < t * n"
  then have "i * n < t * n" by linarith
  then show "i < t" by simp
qed

text \<open>Writing bytes at an offset.\<close>

definition put :: "nat \<Rightarrow> u8 list \<Rightarrow> u8 list \<Rightarrow> u8 list" where
  "put off bs c = take off c @ bs @ drop (off + length bs) c"

lemma length_put: "off + length bs \<le> length c \<Longrightarrow> length (put off bs c) = length c"
  by (simp add: put_def)

lemma put_nth:
  "off + length bs \<le> length c \<Longrightarrow> k < length c \<Longrightarrow> put off bs c ! k = (if off \<le> k \<and> k < off + length bs then bs ! (k - off) else c ! k)"
  by (auto simp: put_def nth_append min_def)

lemma chunk_put_same: "i * n + n \<le> length c \<Longrightarrow> length bs = n \<Longrightarrow> chunk n i (put (i * n) bs c) = bs"
  by (simp add: chunk_def put_def)

lemma chunk_put_other:
  assumes "off + length bs \<le> length c" "j * m + m \<le> length c" "j * m + m \<le> off \<or> off + length bs \<le> j * m"
  shows "chunk m j (put off bs c) = chunk m j c"
  using assms by (intro chunk_eqI) (auto simp: length_put put_nth)

section \<open>Representation\<close>

text \<open>The array holds the values in records of \<^term>\<open>n\<close> bytes.\<close>

definition holds :: "nat \<Rightarrow> u8 list \<Rightarrow> int list \<Rightarrow> bool" where
  "holds n c vs \<longleftrightarrow> length c = length vs * n \<and> (\<forall>i < length vs. fits n (vs ! i) \<and> chunk n i c = bytes_le n (vs ! i))"

definition rep :: "intset \<Rightarrow> int list \<Rightarrow> bool" where
  "rep is vs \<longleftrightarrow> is_encoding is \<in> {INTSET_ENC_INT16, INTSET_ENC_INT32, INTSET_ENC_INT64}
    \<and> length vs = unat (is_length is) \<and> holds (unat (is_encoding is)) (is_contents is) vs"

lemma rec_size_simps [simp]: "rec_size INTSET_ENC_INT16 = 2" "rec_size INTSET_ENC_INT32 = 4" "rec_size INTSET_ENC_INT64 = 8"
  by (simp_all add: rec_size_def)

definition valid_enc :: "u32 \<Rightarrow> bool" where
  "valid_enc e \<longleftrightarrow> e \<in> {INTSET_ENC_INT16, INTSET_ENC_INT32, INTSET_ENC_INT64}"

lemma valid_encD: "valid_enc e \<Longrightarrow> rec_size e = unat e \<and> take_bit 8 e = e \<and> 0 < unat e \<and> unat e \<le> 8"
  by (auto simp: valid_enc_def)

lemma record_bound: "i < k \<Longrightarrow> i * n + n \<le> k * (n :: nat)"
  using mult_le_mono1[of "i + 1" k n] by simp

lemma getEncoded_chunk:
  assumes "valid_enc e" "i * unat e + unat e \<le> length (is_contents is)"
  shows "p_intsetGetEncoded is (int i) e = Some (le_sint (chunk (unat e) i (is_contents is)))"
  using assms valid_encD[OF assms(1)] by (simp add: p_intsetGetEncoded_def chunk_def Let_def)

lemma set_put:
  assumes "valid_enc (is_encoding is)" "i * unat (is_encoding is) + unat (is_encoding is) \<le> length (is_contents is)"
  shows "p_intsetSet is (int i) v = Some (is\<lparr>is_contents := put (i * unat (is_encoding is)) (bytes_le (unat (is_encoding is)) v) (is_contents is)\<rparr>)"
  using assms valid_encD[OF assms(1)] by (simp add: p_intsetSet_def put_def Let_def)

lemma rep_get:
  assumes "rep is vs" "i < length vs"
  shows "p_intsetGet is (int i) = Some (vs ! i)"
proof -
  let ?n = "unat (is_encoding is)"
  have e: "valid_enc (is_encoding is)" and h: "length (is_contents is) = length vs * ?n" "fits ?n (vs ! i)" "chunk ?n i (is_contents is) = bytes_le ?n (vs ! i)"
    using assms by (auto simp: rep_def valid_enc_def holds_def)
  note ev = valid_encD[OF e]
  have "le_sint (bytes_le ?n (vs ! i)) = vs ! i" using le_sint_of_bytes h(2) ev by blast
  then show ?thesis using getEncoded_chunk[OF e, of i "is"] record_bound[OF assms(2), of ?n] h ev by (simp add: p_intsetGet_def)
qed

section \<open>Search\<close>

lemma mid_between:
  assumes "0 \<le> lo" "lo \<le> hi" "hi < 2 ^ 31"
  shows "uint (drop_bit 1 (word_of_int lo + word_of_int hi :: u32)) = (lo + hi) div 2"
proof -
  have "uint (word_of_int lo + word_of_int hi :: u32) = lo + hi"
    using assms by (simp add: uint_word_of_int_eq take_bit_eq_mod flip: of_int_add)
  then show ?thesis by (simp add: drop_bit_eq_div uint_div_distrib)
qed

lemma sint_small:
  assumes "unat (w :: u32) < 2 ^ 31"
  shows "sint w = int (unat w)"
proof -
  have u: "int (unat w) = uint w" by simp
  have "int (unat w) < int (2 ^ 31)" using assms unfolding of_nat_less_iff .
  then have "uint w < 2 ^ 31" unfolding u by simp
  moreover have "- (2 ^ 31) \<le> uint w" by (rule order_trans[OF _ uint_ge_0]) simp
  ultimately have "signed_take_bit 31 (uint w) = uint w" by (intro signed_take_bit_int_eq_self)
  then show ?thesis unfolding u by (simp add: sint_uint)
qed

text \<open>What a search for a value tells of a sorted list.\<close>

definition located :: "int list \<Rightarrow> int \<Rightarrow> bool \<Rightarrow> nat \<Rightarrow> bool" where
  "located vs value found pos \<longleftrightarrow> (if found then pos < length vs \<and> vs ! pos = value
    else pos \<le> length vs \<and> (\<forall>i < pos. vs ! i < value) \<and> (\<forall>i. pos \<le> i \<and> i < length vs \<longrightarrow> value < vs ! i))"

lemma located_mem: "located vs value found pos \<Longrightarrow> value \<in> set vs \<longleftrightarrow> found"
proof (cases found)
  case False
  assume l: "located vs value found pos"
  have "vs ! i \<noteq> value" if "i < length vs" for i
    using l False that by (metis located_def less_irrefl not_le)
  then show ?thesis using False by (auto simp: in_set_conv_nth)
qed (auto simp: located_def)

lemma unat_word_of_int_small: "0 \<le> k \<Longrightarrow> k < 2 ^ 32 \<Longrightarrow> unat (word_of_int k :: u32) = nat k"
  by (simp add: unat_eq_nat_uint uint_word_of_int_eq take_bit_int_eq_self)

lemma sorted_less:
  assumes "sorted_wrt (<) vs" "i \<le> j" "j < length (vs :: int list)"
  shows "vs ! i \<le> vs ! j"
  using sorted_wrt_nth_less[OF assms(1), of i j] assms(2,3) by (cases "i = j") auto

lemma search_loop_ok:
  assumes rep: "rep is vs" and s: "sorted_wrt (<) vs" and len: "length vs < 2 ^ 31"
  shows "0 \<le> lo \<Longrightarrow> hi < int (length vs) \<Longrightarrow> lo \<le> hi + 1 \<Longrightarrow> nat (hi - lo + 1) < fuel \<Longrightarrow> (hi < lo \<longrightarrow> cur \<noteq> value)
    \<Longrightarrow> \<forall>i < length vs. int i < lo \<longrightarrow> vs ! i < value \<Longrightarrow> \<forall>i < length vs. hi < int i \<longrightarrow> value < vs ! i
    \<Longrightarrow> \<exists>lo' mid' cur'. search_loop is value fuel lo hi mid cur = Some (lo', mid', cur')
      \<and> (if value = cur' then 0 \<le> mid' \<and> located vs value True (nat mid') else 0 \<le> lo' \<and> located vs value False (nat lo'))"
proof (induction fuel arbitrary: lo hi mid cur)
  case (Suc fuel)
  show ?case
  proof (cases "hi < lo")
    case True
    then have "located vs value False (nat lo)" using Suc.prems by (auto simp: located_def)
    then show ?thesis using True Suc.prems(1,5) by simp
  next
    case False
    define m where "m = nat ((lo + hi) div 2)"
    then have m: "(lo + hi) div 2 = int m" "lo \<le> int m" "int m \<le> hi" "m < length vs" using False Suc.prems(1,2) by auto
    have mid: "uint (drop_bit 1 (word_of_int lo + word_of_int hi :: u32)) = int m" using mid_between[of lo hi] False Suc.prems(1,2) len m(1) by simp
    note get = rep_get[OF rep m(4)]
    consider "vs ! m < value" | "value < vs ! m" | "value = vs ! m" by linarith
    then show ?thesis
    proof cases
      case 1
      have "vs ! i < value" if "i < length vs" "int i < int m + 1" for i
        using sorted_less[OF s, of i m] that 1 m by auto
      moreover have "search_loop is value (Suc fuel) lo hi mid cur = search_loop is value fuel (int m + 1) hi (int m) (vs ! m)"
        using 1 False mid get by (simp add: Let_def)
      ultimately show ?thesis using Suc.IH[of "int m + 1" hi "vs ! m" "int m"] Suc.prems(1,2,4,7) m(2-) 1 by simp
    next
      case 2
      have "value < vs ! i" if "i < length vs" "int m - 1 < int i" for i
        using sorted_less[OF s, of m i] that 2 m by auto
      moreover have "search_loop is value (Suc fuel) lo hi mid cur = search_loop is value fuel lo (int m - 1) (int m) (vs ! m)"
        using 2 False mid get by (simp add: Let_def)
      ultimately show ?thesis using Suc.IH[of lo "int m - 1" "vs ! m" "int m"] Suc.prems(1,4,6) m(2-) 2 by simp
    next
      case 3
      then show ?thesis using m(2-) mid get False by (simp add: located_def Let_def)
    qed
  qed
qed simp

lemma intsetSearch_ok:
  assumes rep: "rep is vs" and s: "sorted_wrt (<) vs" and len: "length vs < 2 ^ 31"
  shows "\<exists>pos. intsetSearch is value = Some (value \<in> set vs, pos) \<and> located vs value (value \<in> set vs) (unat pos)"
proof -
  have u: "unat (is_length is) = length vs" using rep by (simp add: rep_def)
  show ?thesis
  proof (cases "vs = []")
    case True
    then have "is_length is = 0" using u by (simp add: unat_eq_0)
    then show ?thesis using True by (simp add: intsetSearch_def located_def)
  next
    case False
    let ?n = "length vs"
    have nz: "is_length is \<noteq> 0" using u False by auto
    have "unat (is_length is - 1) = ?n - 1" using nz u by (simp add: unat_minus_one)
    then have hi: "sint (is_length is - 1) = int (?n - 1)" using len sint_small[of "is_length is - 1"] by simp
    have get: "p_intsetGet is (int (?n - 1)) = Some (vs ! (?n - 1))" "p_intsetGet is 0 = Some (vs ! 0)"
      using rep_get[OF rep, of "?n - 1"] rep_get[OF rep, of 0] False by simp_all
    consider "vs ! (?n - 1) < value" | "value < vs ! 0" "value \<le> vs ! (?n - 1)" | "vs ! 0 \<le> value" "value \<le> vs ! (?n - 1)" by linarith
    then show ?thesis
    proof cases
      case 1
      have "vs ! i < value" if "i < ?n" for i
      proof -
        have "i \<le> ?n - 1" "?n - 1 < ?n" using that by auto
        from sorted_less[OF s this] show ?thesis using 1 by simp
      qed
      then show ?thesis using 1 nz get hi u by (auto simp: intsetSearch_def located_def in_set_conv_nth)
    next
      case 2
      have "value < vs ! i" if "i < ?n" for i using sorted_less[OF s, of 0 i] that 2 by auto
      then show ?thesis using 2 nz get hi by (auto simp: intsetSearch_def located_def in_set_conv_nth)
    next
      case 3
      have "\<exists>lo mid cur. search_loop is value (?n + 1) 0 (int (?n - 1)) (- 1) (- 1) = Some (lo, mid, cur)
        \<and> (if value = cur then 0 \<le> mid \<and> located vs value True (nat mid) else 0 \<le> lo \<and> located vs value False (nat lo))"
        by (rule search_loop_ok[OF rep s len]) (use False in \<open>auto simp: nat_add_distrib\<close>)
      then obtain lo mid cur where l: "search_loop is value (?n + 1) 0 (int (?n - 1)) (- 1) (- 1) = Some (lo, mid, cur)"
        "if value = cur then 0 \<le> mid \<and> located vs value True (nat mid) else 0 \<le> lo \<and> located vs value False (nat lo)" by blast
      have w: "unat (word_of_int k :: u32) = nat k" if "0 \<le> k" "nat k \<le> ?n" for k
        using that len by (simp add: unat_word_of_int_small)
      have "search_loop is value (unat (is_length is) + 1) 0 (sint (is_length is - 1)) (- 1) (- 1) = Some (lo, mid, cur)" unfolding u hi by (rule l(1))
      then have "intsetSearch is value = Some (if value = cur then (True, word_of_int mid) else (False, word_of_int lo))"
        using 3 nz get hi by (simp add: intsetSearch_def del: One_nat_def)
      moreover have "value \<in> set vs \<longleftrightarrow> value = cur" using l(2) located_mem by (cases "value = cur") auto
      ultimately show ?thesis using l(2) w by (cases "value = cur") (auto simp: located_def)
    qed
  qed
qed

section \<open>Encodings\<close>

abbreviation int64 :: "int \<Rightarrow> bool" where "int64 \<equiv> fits 8"

lemma fits_simps:
  "fits 2 v \<longleftrightarrow> - 32768 \<le> v \<and> v \<le> 32767" "fits 4 v \<longleftrightarrow> - 2147483648 \<le> v \<and> v \<le> 2147483647"
  "fits 8 v \<longleftrightarrow> LLONG_MIN \<le> v \<and> v \<le> LLONG_MAX"
  by (auto simp: fits_def)

lemma value_enc:
  assumes "int64 v"
  shows "valid_enc (p_intsetValueEncoding v)" "fits (unat (p_intsetValueEncoding v)) v"
    "valid_enc e \<Longrightarrow> p_intsetValueEncoding v \<le> e \<longleftrightarrow> fits (unat e) v"
  using assms by (auto simp: p_intsetValueEncoding_def valid_enc_def fits_simps)

lemma fits_mono: "m \<le> n \<Longrightarrow> fits m v \<Longrightarrow> fits n v"
proof -
  assume "m \<le> n" "fits m v"
  then have "(2 :: int) ^ (8 * m - 1) \<le> 2 ^ (8 * n - 1)" by (intro power_increasing) auto
  then show "fits n v" using \<open>fits m v\<close> unfolding fits_def by linarith
qed

lemma not_fits: "fits n w \<Longrightarrow> \<not> fits n v \<Longrightarrow> if v < 0 then v < w else w < v"
  by (auto simp: fits_def)

section \<open>Reallocation and moves\<close>

lemma intsetResize_ok:
  assumes "unat len * unat (is_encoding is) \<le> 2 ^ 40"
  shows "\<exists>c. intsetResize fill is len = Some (is\<lparr>is_contents := c\<rparr>) \<and> length c = unat len * unat (is_encoding is)
    \<and> (\<forall>m j. j * m + m \<le> length (is_contents is) \<and> j * m + m \<le> length c \<longrightarrow> chunk m j c = chunk m j (is_contents is))"
proof -
  let ?s = "unat len * unat (is_encoding is)" and ?c = "is_contents is"
  let ?d = "take ?s ?c @ map fill [length ?c..<?s]"
  have l: "length ?d = ?s" by (simp add: min_def)
  have "chunk m j ?d = chunk m j ?c" if "j * m + m \<le> length ?c" "j * m + m \<le> ?s" for m j
    using that l by (intro chunk_eqI) (auto simp: nth_append)
  then show ?thesis using assms l by (auto simp: intsetResize_def Let_def)
qed

lemma chunk_put_in: "i * n + n \<le> length bs \<Longrightarrow> t * n \<le> length c \<Longrightarrow> chunk n (t + i) (put (t * n) bs c) = chunk n i bs"
  by (simp add: chunk_def put_def add_mult_distrib)

lemma chunk_part: "i < k \<Longrightarrow> chunk n i (take (k * n) (drop (f * n) c)) = chunk n (f + i) c"
  using record_bound[of i k n] by (simp add: chunk_def drop_take min_def add_mult_distrib add.commute)

lemma intsetMoveTail_ok:
  assumes e: "valid_enc (is_encoding is)" and n: "n = unat (is_encoding is)" and k: "unat from_pos + k = unat (is_length is)" "k < 2 ^ 28"
    and r: "(unat from_pos + k) * n \<le> length (is_contents is)" "(unat to_pos + k) * n \<le> length (is_contents is)"
  shows "\<exists>c. intsetMoveTail is from_pos to_pos = Some (is\<lparr>is_contents := c\<rparr>) \<and> length c = length (is_contents is)
    \<and> (\<forall>j. j * n + n \<le> length c \<longrightarrow> chunk n j c =
        chunk n (if unat to_pos \<le> j \<and> j < unat to_pos + k then unat from_pos + (j - unat to_pos) else j) (is_contents is))"
proof -
  let ?c = "is_contents is"
  note ev = valid_encD[OF e]
  have le: "from_pos \<le> is_length is" using k(1) by (simp add: word_le_nat_alt)
  have "unat (is_length is - from_pos) = k" using k(1) le by (simp add: unat_sub)
  moreover have "k * n < 2 ^ 32" using mult_less_le_imp_less[of k "2 ^ 28" n 8] k(2) ev n by simp
  moreover have "unat (of_nat n :: u32) = n" using n by simp
  ultimately have bytes: "unat ((is_length is - from_pos) * of_nat n) = k * n" by (simp add: unat_word_ariths)
  let ?d = "take (unat to_pos * n) ?c @ take (k * n) (drop (unat from_pos * n) ?c) @ drop (unat to_pos * n + k * n) ?c"
  have lb: "length (take (k * n) (drop (unat from_pos * n) ?c)) = k * n" using r by (simp add: add_mult_distrib)
  have d: "?d = put (unat to_pos * n) (take (k * n) (drop (unat from_pos * n) ?c)) ?c" unfolding put_def lb ..
  have len: "length ?d = length ?c" using r by (simp add: add_mult_distrib)
  have "intsetMoveTail is from_pos to_pos = Some (is\<lparr>is_contents := ?d\<rparr>)"
    using bytes ev n r by (simp add: intsetMoveTail_def Let_def add_mult_distrib)
  moreover have "chunk n j ?d = chunk n (if unat to_pos \<le> j \<and> j < unat to_pos + k then unat from_pos + (j - unat to_pos) else j) ?c"
    if "j * n + n \<le> length ?d" for j
  proof (cases "unat to_pos \<le> j \<and> j < unat to_pos + k")
    case True
    then obtain i where i: "j = unat to_pos + i" "i < k" by (metis le_add_diff_inverse nat_add_left_cancel_less)
    have "i * n + n \<le> length (take (k * n) (drop (unat from_pos * n) ?c))" unfolding lb using record_bound[OF i(2)] .
    moreover have "unat to_pos * n \<le> length ?c" using r(2) by (simp add: add_mult_distrib)
    ultimately show ?thesis unfolding d i(1) using chunk_part[OF i(2), of n "unat from_pos" ?c] i(2) by (simp add: chunk_put_in)
  next
    case False
    then have "j * n + n \<le> unat to_pos * n \<or> unat to_pos * n + k * n \<le> j * n"
      using record_bound[of j "unat to_pos" n] mult_le_mono1[of "unat to_pos + k" j n] by (auto simp: add_mult_distrib)
    moreover have "j * n + n \<le> length ?c" using that len by simp
    ultimately show ?thesis unfolding d using False r by (subst chunk_put_other) (auto simp: add_mult_distrib)
  qed
  ultimately show ?thesis using len by blast
qed

section \<open>Insertion at a position\<close>

lemma nth_insert: "p \<le> length vs \<Longrightarrow> j \<le> length vs \<Longrightarrow> (take p vs @ v # drop p vs) ! j = (if j < p then vs ! j else if j = p then v else vs ! (j - 1))"
proof (cases "p < j")
  case True
  assume "p \<le> length vs"
  moreover obtain i where "j = p + Suc i" using True less_iff_Suc_add by auto
  ultimately show ?thesis by (simp add: nth_append)
qed (auto simp: nth_append)

lemma nth_delete: "p < length vs \<Longrightarrow> j < length vs - 1 \<Longrightarrow> (take p vs @ drop (Suc p) vs) ! j = (if j < p then vs ! j else vs ! (j + 1))"
  by (auto simp: nth_append min_def)

lemma chunk_put:
  assumes "p * n + n \<le> length c" "j * n + n \<le> length c" "length bs = n"
  shows "chunk n j (put (p * n) bs c) = (if j = p then bs else chunk n j c)"
proof (cases j p rule: linorder_cases)
  case less
  then show ?thesis using chunk_put_other[of "p * n" bs c j n] record_bound[OF less, of n] assms by simp
next
  case equal
  then show ?thesis using chunk_put_same[of p n c bs] assms by simp
next
  case greater
  then show ?thesis using chunk_put_other[of "p * n" bs c j n] record_bound[OF greater, of n] assms by simp
qed

lemma unat_inc: "unat (w :: u32) < 2 ^ 28 \<Longrightarrow> unat (w + 1) = unat w + 1"
  by (simp add: unat_word_ariths)

lemma repD:
  assumes "rep is vs"
  shows "valid_enc (is_encoding is)" "length vs = unat (is_length is)" "length (is_contents is) = length vs * unat (is_encoding is)"
    "i < length vs \<Longrightarrow> fits (unat (is_encoding is)) (vs ! i) \<and> chunk (unat (is_encoding is)) i (is_contents is) = bytes_le (unat (is_encoding is)) (vs ! i)"
  using assms by (auto simp: rep_def valid_enc_def holds_def)

lemma repI:
  assumes "valid_enc (is_encoding is)" "length vs = unat (is_length is)" "length (is_contents is) = length vs * unat (is_encoding is)"
    "\<And>i. i < length vs \<Longrightarrow> fits (unat (is_encoding is)) (vs ! i)"
    "\<And>i. i < length vs \<Longrightarrow> chunk (unat (is_encoding is)) i (is_contents is) = bytes_le (unat (is_encoding is)) (vs ! i)"
  shows "rep is vs"
  using assms by (auto simp: rep_def valid_enc_def holds_def)

lemma room_bound: "valid_enc e \<Longrightarrow> k \<le> 2 ^ 28 \<Longrightarrow> k * unat e \<le> 2 ^ 40"
  using mult_le_mono[of k "2 ^ 28" "unat e" 8] valid_encD[of e] by auto

lemma make_room:
  assumes rep: "rep is vs" and len: "length vs < 2 ^ 28" and p: "unat pos \<le> length vs" and n: "n = unat (is_encoding is)"
  shows "\<exists>c. (do { is1 \<leftarrow> intsetResize fill is (is_length is + 1);
                   if pos < is_length is1 then intsetMoveTail is1 pos (pos + 1) else Some is1 }) = Some (is\<lparr>is_contents := c\<rparr>)
    \<and> length c = (length vs + 1) * n
    \<and> (\<forall>j \<le> length vs. j \<noteq> unat pos \<longrightarrow> chunk n j c = chunk n (if unat pos < j then j - 1 else j) (is_contents is))"
proof -
  note r = repD[OF rep]
  have u1: "unat (is_length is + 1) = length vs + 1" using unat_inc r(2) len by simp
  have "unat (is_length is + 1) * unat (is_encoding is) \<le> 2 ^ 40" unfolding u1 using room_bound[OF r(1), of "length vs + 1"] len by simp
  from intsetResize_ok[OF this, of fill] obtain c where c: "intsetResize fill is (is_length is + 1) = Some (is\<lparr>is_contents := c\<rparr>)"
    "length c = (length vs + 1) * n" "\<And>m j. j * m + m \<le> length (is_contents is) \<and> j * m + m \<le> length c \<Longrightarrow> chunk m j c = chunk m j (is_contents is)"
    unfolding u1 n by blast
  have old: "chunk n j c = chunk n j (is_contents is)" if "j < length vs" for j
    using c(3)[of j n] record_bound[OF that, of n] that c(2) r(3) n by simp
  show ?thesis
  proof (cases "unat pos < length vs")
    case False
    then have "chunk n j c = chunk n j (is_contents is)" if "j \<le> length vs" "j \<noteq> unat pos" for j using old that p by simp
    moreover have "\<not> pos < is_length is" using False r(2) by (simp add: word_less_nat_alt)
    ultimately show ?thesis using c(1,2) False by auto
  next
    case True
    let ?is = "is\<lparr>is_contents := c\<rparr>"
    have up: "unat (pos + 1) = unat pos + 1" using unat_inc[of pos] True len by simp
    have k: "unat pos + (length vs - unat pos) = unat (is_length ?is)" using True r(2) by simp
    have q: "valid_enc (is_encoding ?is)" "n = unat (is_encoding ?is)" "length vs - unat pos < 2 ^ 28"
      "(unat pos + (length vs - unat pos)) * n \<le> length (is_contents ?is)" "(unat (pos + 1) + (length vs - unat pos)) * n \<le> length (is_contents ?is)"
      using r(1) n len c(2) True up by simp_all
    from intsetMoveTail_ok[OF q(1,2) k q(3,4,5)] obtain d where
      d: "intsetMoveTail ?is pos (pos + 1) = Some (?is\<lparr>is_contents := d\<rparr>)" "length d = length c"
      "\<And>j. j * n + n \<le> length d \<Longrightarrow> chunk n j d = chunk n (if unat pos + 1 \<le> j \<and> j < unat pos + 1 + (length vs - unat pos) then unat pos + (j - (unat pos + 1)) else j) c"
      unfolding up by auto
    have "chunk n j d = chunk n (if unat pos < j then j - 1 else j) (is_contents is)" if "j \<le> length vs" "j \<noteq> unat pos" for j
      using d(3)[of j] record_bound[of j "length vs + 1" n] that True d(2) c(2) old by (auto simp: Suc_le_eq)
    moreover have "pos < is_length is" using True r(2) by (simp add: word_less_nat_alt)
    ultimately show ?thesis using c(1,2) d(1,2) by auto
  qed
qed

lemma insert_ok:
  assumes rep: "rep is vs" and len: "length vs < 2 ^ 28" and p: "unat pos \<le> length vs" and v: "fits (unat (is_encoding is)) v"
  shows "\<exists>is'. (do { is1 \<leftarrow> intsetResize fill is (is_length is + 1);
                     is2 \<leftarrow> (if pos < is_length is1 then intsetMoveTail is1 pos (pos + 1) else Some is1);
                     is3 \<leftarrow> p_intsetSet is2 (sint pos) v;
                     Some (is3\<lparr>is_length := is_length is3 + 1\<rparr>, True) }) = Some (is', True)
    \<and> rep is' (take (unat pos) vs @ v # drop (unat pos) vs)"
proof -
  let ?n = "unat (is_encoding is)" and ?vs = "take (unat pos) vs @ v # drop (unat pos) vs"
  note r = repD[OF rep]
  obtain c where c: "(do { is1 \<leftarrow> intsetResize fill is (is_length is + 1);
        if pos < is_length is1 then intsetMoveTail is1 pos (pos + 1) else Some is1 }) = Some (is\<lparr>is_contents := c\<rparr>)"
    "length c = (length vs + 1) * ?n"
    "\<And>j. j \<le> length vs \<Longrightarrow> j \<noteq> unat pos \<Longrightarrow> chunk ?n j c = chunk ?n (if unat pos < j then j - 1 else j) (is_contents is)"
    using make_room[OF rep len p refl, of fill] by blast
  have b: "unat pos * ?n + ?n \<le> length c" using record_bound[of "unat pos" "length vs + 1" ?n] p c(2) by simp
  let ?d = "put (unat pos * ?n) (bytes_le ?n v) c"
  let ?is = "is\<lparr>is_contents := ?d, is_length := is_length is + 1\<rparr>"
  have sp: "sint pos = int (unat pos)" using sint_small p len by simp
  have set: "p_intsetSet (is\<lparr>is_contents := c\<rparr>) (sint pos) v = Some (is\<lparr>is_contents := ?d\<rparr>)"
    unfolding sp using set_put[of "is\<lparr>is_contents := c\<rparr>" "unat pos" v] r(1) b by simp
  have "rep ?is ?vs"
  proof (rule repI)
    show "length ?vs = unat (is_length ?is)" using p r(2) unat_inc len by simp
    show "length (is_contents ?is) = length ?vs * unat (is_encoding ?is)" using p b c(2) by (simp add: length_put)
    fix j assume "j < length ?vs"
    then have j: "j \<le> length vs" using p by simp
    show "fits (unat (is_encoding ?is)) (?vs ! j)" using r(4) v j p by (auto simp: nth_insert)
    have "chunk ?n j ?d = (if j = unat pos then bytes_le ?n v else chunk ?n j c)"
      using chunk_put[OF b, of j "bytes_le ?n v"] record_bound[of j "length vs + 1" ?n] j c(2) by simp
    then show "chunk (unat (is_encoding ?is)) j (is_contents ?is) = bytes_le (unat (is_encoding ?is)) (?vs ! j)"
      using c(3)[of j] r(4) j p by (auto simp: nth_insert)
  qed (use r(1) in simp)
  moreover obtain is1 where "intsetResize fill is (is_length is + 1) = Some is1"
    "(if pos < is_length is1 then intsetMoveTail is1 pos (pos + 1) else Some is1) = Some (is\<lparr>is_contents := c\<rparr>)"
    using c(1) by (auto simp: bind_eq_Some_conv split del: if_split)
  ultimately show ?thesis using set by (auto split del: if_split)
qed

section \<open>Removal at a position\<close>

lemma close_gap:
  assumes rep: "rep is vs" and len: "length vs < 2 ^ 28" and p: "unat pos < length vs" and n: "n = unat (is_encoding is)"
  shows "\<exists>c. (if pos < is_length is - 1 then intsetMoveTail is (pos + 1) pos else Some is) = Some (is\<lparr>is_contents := c\<rparr>)
    \<and> length c = length vs * n \<and> (\<forall>j < length vs - 1. chunk n j c = chunk n (if unat pos \<le> j then j + 1 else j) (is_contents is))"
proof -
  note r = repD[OF rep]
  have "is_length is \<noteq> 0" using p r(2) by auto
  then have ul: "unat (is_length is - 1) = length vs - 1" using r(2) by (simp add: unat_minus_one)
  have up: "unat (pos + 1) = unat pos + 1" using unat_inc[of pos] p len by simp
  show ?thesis
  proof (cases "unat pos < length vs - 1")
    case False
    then have "\<not> pos < is_length is - 1" using ul by (simp add: word_less_nat_alt)
    then show ?thesis using False r(3) n by (intro exI[of _ "is_contents is"]) auto
  next
    case True
    then have lt: "pos < is_length is - 1" using ul by (simp add: word_less_nat_alt)
    have k: "unat (pos + 1) + (length vs - 1 - unat pos) = unat (is_length is)" using True r(2) up by simp
    have q: "length vs - 1 - unat pos < 2 ^ 28" "(unat (pos + 1) + (length vs - 1 - unat pos)) * n \<le> length (is_contents is)"
      "(unat pos + (length vs - 1 - unat pos)) * n \<le> length (is_contents is)"
      using len r(2,3) True up n by simp_all
    from intsetMoveTail_ok[OF r(1) n k q] obtain c where
      c: "intsetMoveTail is (pos + 1) pos = Some (is\<lparr>is_contents := c\<rparr>)" "length c = length (is_contents is)"
      "\<And>j. j * n + n \<le> length c \<Longrightarrow> chunk n j c = chunk n (if unat pos \<le> j \<and> j < unat pos + (length vs - 1 - unat pos) then unat pos + 1 + (j - unat pos) else j) (is_contents is)"
      unfolding up by auto
    have "chunk n j c = chunk n (if unat pos \<le> j then j + 1 else j) (is_contents is)" if "j < length vs - 1" for j
      using c(3)[of j] record_bound[of j "length vs" n] that c(2) r(3) n by auto
    then show ?thesis using c(1,2) lt r(3) n by auto
  qed
qed

lemma delete_ok:
  assumes rep: "rep is vs" and len: "length vs < 2 ^ 28" and p: "unat pos < length vs"
  shows "\<exists>is'. (do { is1 \<leftarrow> (if pos < is_length is - 1 then intsetMoveTail is (pos + 1) pos else Some is);
                     is2 \<leftarrow> intsetResize fill is1 (is_length is - 1);
                     Some (is2\<lparr>is_length := is_length is - 1\<rparr>, True) }) = Some (is', True)
    \<and> rep is' (take (unat pos) vs @ drop (Suc (unat pos)) vs)"
proof -
  let ?n = "unat (is_encoding is)" and ?vs = "take (unat pos) vs @ drop (Suc (unat pos)) vs"
  note r = repD[OF rep]
  have "is_length is \<noteq> 0" using p r(2) by auto
  then have ul: "unat (is_length is - 1) = length vs - 1" using r(2) by (simp add: unat_minus_one)
  obtain c where c: "(if pos < is_length is - 1 then intsetMoveTail is (pos + 1) pos else Some is) = Some (is\<lparr>is_contents := c\<rparr>)"
    "length c = length vs * ?n" "\<And>j. j < length vs - 1 \<Longrightarrow> chunk ?n j c = chunk ?n (if unat pos \<le> j then j + 1 else j) (is_contents is)"
    using close_gap[OF rep len p refl] by blast
  have "unat (is_length is - 1) * unat (is_encoding (is\<lparr>is_contents := c\<rparr>)) \<le> 2 ^ 40"
    unfolding ul using room_bound[OF r(1), of "length vs - 1"] len by simp
  from intsetResize_ok[OF this, of fill] obtain d where d: "intsetResize fill (is\<lparr>is_contents := c\<rparr>) (is_length is - 1) = Some (is\<lparr>is_contents := d\<rparr>)"
    "length d = (length vs - 1) * ?n" "\<And>m j. j * m + m \<le> length c \<and> j * m + m \<le> length d \<Longrightarrow> chunk m j d = chunk m j c"
    unfolding ul by auto
  let ?is = "is\<lparr>is_contents := d, is_length := is_length is - 1\<rparr>"
  have "rep ?is ?vs"
  proof (rule repI)
    show "length ?vs = unat (is_length ?is)" using p ul by simp
    show "length (is_contents ?is) = length ?vs * unat (is_encoding ?is)" using p d(2) by simp
    fix j assume "j < length ?vs"
    then have j: "j < length vs - 1" using p by simp
    show "fits (unat (is_encoding ?is)) (?vs ! j)" using r(4) j p by (simp add: nth_delete)
    have "chunk ?n j d = chunk ?n j c"
      using d(3)[of j ?n] record_bound[OF j, of ?n] record_bound[of j "length vs" ?n] j d(2) c(2) by simp
    then show "chunk (unat (is_encoding ?is)) j (is_contents ?is) = bytes_le (unat (is_encoding ?is)) (?vs ! j)"
      using c(3)[OF j] r(4) j p by (simp add: nth_delete)
  qed (use r(1) in simp)
  then show ?thesis using c(1) d(1) by (auto split del: if_split)
qed

section \<open>Upgrade\<close>

text \<open>The loop reads the old records, from the last to the first, and writes the new ones behind them.\<close>

lemma upgrade_loop_ok:
  assumes e: "valid_enc cur" "valid_enc (is_encoding is)" and nm: "m = unat cur" "n = unat (is_encoding is)" "m \<le> n"
    and q: "q \<le> 1" and l: "l \<le> length vs" and c: "length (is_contents is) = (length vs + 1) * n"
    and f: "\<And>i. i < length vs \<Longrightarrow> fits m (vs ! i)"
    and old: "\<And>i. i < l \<Longrightarrow> chunk m i (is_contents is) = bytes_le m (vs ! i)"
    and new: "\<And>i. l \<le> i \<Longrightarrow> i < length vs \<Longrightarrow> chunk n (i + q) (is_contents is) = bytes_le n (vs ! i)"
  shows "\<exists>c'. upgrade_loop cur (int q) l is = Some (is\<lparr>is_contents := c'\<rparr>) \<and> length c' = (length vs + 1) * n
    \<and> (\<forall>i < length vs. chunk n (i + q) c' = bytes_le n (vs ! i))"
  using e(2) nm(2) l c old new
proof (induction l arbitrary: "is")
  case 0
  then show ?case by (intro exI[of _ "is_contents is"]) simp
next
  case (Suc l)
  let ?c = "is_contents is"
  have m0: "0 < m" using valid_encD[OF e(1)] nm(1) by simp
  have lm: "l * m + m \<le> (l + q) * n + n"
    using mult_le_mono[of l "l + q" m n] nm(3) by simp
  have ln: "(l + q) * n + n \<le> length ?c" using record_bound[of "l + q" "length vs + 1" n] Suc.prems(3,4) q by simp
  have get: "p_intsetGetEncoded is (int l) cur = Some (vs ! l)"
    using getEncoded_chunk[OF e(1), of l "is"] lm ln nm(1) Suc.prems(5)[of l] le_sint_of_bytes[OF m0 f[of l]] Suc.prems(3) by simp
  let ?d = "put ((l + q) * n) (bytes_le n (vs ! l)) ?c"
  let ?is = "is\<lparr>is_contents := ?d\<rparr>"
  have set: "p_intsetSet is (int l + int q) (vs ! l) = Some ?is"
    using set_put[OF Suc.prems(1), of "l + q" "vs ! l"] ln Suc.prems(2) by simp
  have ld: "length ?d = length ?c" using ln by (simp add: length_put)
  have "chunk m i ?d = bytes_le m (vs ! i)" if "i < l" for i
  proof -
    have "i * m + m \<le> l * m" using record_bound[OF that] .
    also have "\<dots> \<le> (l + q) * n" using mult_le_mono[of l "l + q" m n] nm(3) by simp
    finally have "chunk m i ?d = chunk m i ?c" using ln by (intro chunk_put_other) auto
    then show ?thesis using Suc.prems(5)[of i] that by simp
  qed
  moreover have "chunk n (i + q) ?d = bytes_le n (vs ! i)" if "l \<le> i" "i < length vs" for i
    using chunk_put[OF ln, of "i + q" "bytes_le n (vs ! l)"] record_bound[of "i + q" "length vs + 1" n] that q Suc.prems(4) Suc.prems(6)[of i] by auto
  ultimately have "\<exists>c'. upgrade_loop cur (int q) l ?is = Some (?is\<lparr>is_contents := c'\<rparr>) \<and> length c' = (length vs + 1) * n
    \<and> (\<forall>i < length vs. chunk n (i + q) c' = bytes_le n (vs ! i))"
    using Suc.prems(1-4) ld by (intro Suc.IH) simp_all
  then show ?case using get set by auto
qed

lemma upgrade_records:
  assumes rep: "rep is vs" and len: "length vs < 2 ^ 28" and e: "valid_enc ne" and mn: "unat (is_encoding is) \<le> unat ne" and q: "q \<le> 1"
  shows "\<exists>is1 d. intsetResize fill (is\<lparr>is_encoding := ne\<rparr>) (is_length is + 1) = Some is1
    \<and> upgrade_loop (is_encoding is) (int q) (length vs) is1 = Some (is\<lparr>is_encoding := ne, is_contents := d\<rparr>)
    \<and> length d = (length vs + 1) * unat ne \<and> (\<forall>i < length vs. chunk (unat ne) (i + q) d = bytes_le (unat ne) (vs ! i))"
proof -
  let ?m = "unat (is_encoding is)" and ?i0 = "is\<lparr>is_encoding := ne\<rparr>"
  note r = repD[OF rep]
  have u1: "unat (is_length is + 1) = length vs + 1" using unat_inc r(2) len by simp
  have "unat (is_length is + 1) * unat (is_encoding ?i0) \<le> 2 ^ 40" unfolding u1 using room_bound[OF e, of "length vs + 1"] len by simp
  from intsetResize_ok[OF this, of fill] obtain c where c: "intsetResize fill ?i0 (is_length is + 1) = Some (?i0\<lparr>is_contents := c\<rparr>)"
    "length c = (length vs + 1) * unat ne" "\<And>m j. j * m + m \<le> length (is_contents is) \<and> j * m + m \<le> length c \<Longrightarrow> chunk m j c = chunk m j (is_contents is)"
    unfolding u1 by auto
  have "length vs * ?m \<le> length c" unfolding c(2) by (intro mult_le_mono mn) simp
  then have old: "chunk ?m i c = bytes_le ?m (vs ! i)" if "i < length vs" for i
    using c(3)[of i ?m] record_bound[OF that, of ?m] r(3,4) that by auto
  have "\<exists>d. upgrade_loop (is_encoding is) (int q) (length vs) (?i0\<lparr>is_contents := c\<rparr>) = Some ((?i0\<lparr>is_contents := c\<rparr>)\<lparr>is_contents := d\<rparr>)
      \<and> length d = (length vs + 1) * unat ne \<and> (\<forall>i < length vs. chunk (unat ne) (i + q) d = bytes_le (unat ne) (vs ! i))"
    using r(1,4) e mn c(2) old q by (intro upgrade_loop_ok[OF _ _ refl]) auto
  then show ?thesis using c(1) by auto
qed

lemma upgrade_ok:
  assumes rep: "rep is vs" and len: "length vs < 2 ^ 28" and v: "int64 v" "\<not> fits (unat (is_encoding is)) v"
  shows "\<exists>is'. intsetUpgradeAndAdd fill is v = Some is' \<and> rep is' (if v < 0 then v # vs else vs @ [v]) \<and> is_encoding is' = p_intsetValueEncoding v"
proof -
  let ?ne = "p_intsetValueEncoding v" and ?q = "if v < 0 then 1 else 0 :: nat" and ?vs = "if v < 0 then v # vs else vs @ [v]"
  let ?n = "unat ?ne" and ?p = "if v < 0 then 0 else length vs"
  note r = repD[OF rep] and e = value_enc[OF v(1)]
  have mn: "unat (is_encoding is) \<le> ?n" using e(3)[OF r(1)] v(2) by (simp add: word_le_nat_alt)
  have q: "?q \<le> 1" by simp
  obtain is1 d where d: "intsetResize fill (is\<lparr>is_encoding := ?ne\<rparr>) (is_length is + 1) = Some is1"
    "upgrade_loop (is_encoding is) (int ?q) (length vs) is1 = Some (is\<lparr>is_encoding := ?ne, is_contents := d\<rparr>)"
    "length d = (length vs + 1) * ?n" "\<And>i. i < length vs \<Longrightarrow> chunk ?n (i + ?q) d = bytes_le ?n (vs ! i)"
    using upgrade_records[OF rep len e(1) mn q, of fill] by blast
  have b: "?p * ?n + ?n \<le> length d" using record_bound[of ?p "length vs + 1" ?n] d(3) by simp
  let ?c = "put (?p * ?n) (bytes_le ?n v) d" and ?i2 = "is\<lparr>is_encoding := ?ne, is_contents := d\<rparr>"
  let ?is = "?i2\<lparr>is_contents := ?c, is_length := is_length is + 1\<rparr>"
  have sl: "sint (is_length is) = int (length vs)" using sint_small[of "is_length is"] r(2) len by simp
  have set: "p_intsetSet ?i2 (int ?p) v = Some (?i2\<lparr>is_contents := ?c\<rparr>)" using set_put[of ?i2 ?p v] e(1) b by simp
  have "rep ?is ?vs"
  proof (rule repI)
    show "length ?vs = unat (is_length ?is)" using unat_inc[of "is_length is"] r(2) len by simp
    show "length (is_contents ?is) = length ?vs * unat (is_encoding ?is)" using d(3) b by (simp add: length_put)
    fix j assume j: "j < length ?vs"
    have old_fits: "fits ?n (vs ! i)" if "i < length vs" for i using r(4)[OF that] fits_mono[OF mn] by blast
    show "fits (unat (is_encoding ?is)) (?vs ! j)" using old_fits e(2) j by (cases j) (auto simp: nth_append)
    have "chunk ?n j ?c = (if j = ?p then bytes_le ?n v else chunk ?n j d)"
    proof (rule chunk_put[OF b])
      have "j < length vs + 1" using j by (simp split: if_splits)
      then show "j * ?n + ?n \<le> length d" unfolding d(3) by (rule record_bound)
    qed simp
    then show "chunk (unat (is_encoding ?is)) j (is_contents ?is) = bytes_le (unat (is_encoding ?is)) (?vs ! j)"
      using d(4)[of j] d(4)[of "j - 1"] j by (cases j) (auto simp: nth_append)
  qed (use e(1) in simp)
  moreover have "intsetUpgradeAndAdd fill is v = Some ?is"
    using d(1,2) set sl valid_encD[OF r(1)] by (auto simp: intsetUpgradeAndAdd_def Let_def)
  ultimately show ?thesis by auto
qed

section \<open>Well-formed sets\<close>

definition intset_values :: "intset \<Rightarrow> int list" where
  "intset_values is = map (\<lambda>i. le_sint (chunk (unat (is_encoding is)) i (is_contents is))) [0..<unat (is_length is)]"

definition intset_ok :: "intset \<Rightarrow> bool" where
  "intset_ok is \<longleftrightarrow> is_encoding is \<in> {INTSET_ENC_INT16, INTSET_ENC_INT32, INTSET_ENC_INT64}
    \<and> length (is_contents is) = unat (is_length is) * unat (is_encoding is) \<and> sorted_wrt (<) (intset_values is)"

lemma rep_values: "rep is vs \<Longrightarrow> intset_values is = vs"
proof (rule nth_equalityI)
  assume rep: "rep is vs"
  note r = repD[OF rep]
  show "length (intset_values is) = length vs" using r(2) by (simp add: intset_values_def)
  fix i assume "i < length (intset_values is)"
  then have "i < length vs" using r(2) by (simp add: intset_values_def)
  then show "intset_values is ! i = vs ! i" using r(2) r(4) le_sint_of_bytes valid_encD[OF r(1)] by (simp add: intset_values_def)
qed

lemma values_rep:
  assumes "valid_enc (is_encoding is)" "length (is_contents is) = unat (is_length is) * unat (is_encoding is)"
  shows "rep is (intset_values is)"
proof (rule repI)
  let ?n = "unat (is_encoding is)"
  fix i assume "i < length (intset_values is)"
  then have i: "i < unat (is_length is)" by (simp add: intset_values_def)
  then have l: "length (chunk ?n i (is_contents is)) = ?n" using length_chunk[of i ?n] record_bound[OF i, of ?n] assms(2) by simp
  then have "chunk ?n i (is_contents is) \<noteq> []" using valid_encD[OF assms(1)] by force
  then show "fits ?n (intset_values is ! i)" "chunk ?n i (is_contents is) = bytes_le ?n (intset_values is ! i)"
    using le_sint_fits[of "chunk ?n i (is_contents is)"] bytes_le_sint[of "chunk ?n i (is_contents is)"] l i by (simp_all add: intset_values_def)
qed (use assms in \<open>simp_all add: intset_values_def\<close>)

lemma intset_ok_rep: "intset_ok is \<longleftrightarrow> (\<exists>vs. rep is vs \<and> sorted_wrt (<) vs)"
  using values_rep[of "is"] rep_values[of "is"] repD[of "is"] by (auto simp: intset_ok_def valid_enc_def)

lemma intset_okD: "intset_ok is \<Longrightarrow> rep is (intset_values is)" "intset_ok is \<Longrightarrow> sorted_wrt (<) (intset_values is)"
  using intset_ok_rep rep_values by blast+

lemma length_values [simp]: "length (intset_values is) = unat (is_length is)"
  by (simp add: intset_values_def)

lemma intset_okI: "rep is vs \<Longrightarrow> sorted_wrt (<) vs \<Longrightarrow> intset_ok is \<and> intset_values is = vs"
  using intset_ok_rep rep_values by blast

lemma sorted_insert:
  assumes s: "sorted_wrt (<) vs" and l: "located vs v False p"
  shows "sorted_wrt (<) (take p vs @ v # drop p vs)"
proof -
  have "\<forall>x \<in> set (take p vs). x < v" "\<forall>x \<in> set (drop p vs). v < x" using l by (auto simp: located_def in_set_conv_nth)
  moreover have "sorted_wrt (<) (take p vs @ drop p vs)" using s by simp
  ultimately show ?thesis by (auto simp: sorted_wrt_append simp del: append_take_drop_id)
qed

lemma sorted_delete: "sorted_wrt (<) vs \<Longrightarrow> sorted_wrt (<) (take p vs @ drop (Suc p) vs)"
proof -
  assume s: "sorted_wrt (<) vs"
  then have "sorted_wrt (<) (take p vs @ drop p vs)" by simp
  moreover have "sorted_wrt (<) (drop (Suc p) vs)" using s by (rule sorted_wrt_drop)
  moreover have "set (drop (Suc p) vs) \<subseteq> set (drop p vs)" by (simp add: set_drop_subset_set_drop)
  ultimately show ?thesis by (auto simp: sorted_wrt_append simp del: append_take_drop_id)
qed

lemma set_insert_at: "set (take p vs @ v # drop p vs) = insert v (set vs)"
  by (metis Un_insert_right append_take_drop_id list.simps(15) set_append)

lemma set_delete_at:
  assumes "sorted_wrt (<) (vs :: int list)" "p < length vs"
  shows "set (take p vs @ drop (Suc p) vs) = set vs - {vs ! p}"
proof -
  have eq: "vs = take p vs @ vs ! p # drop (Suc p) vs" using assms(2) by (simp add: id_take_nth_drop)
  have "distinct vs" using assms(1) strict_sorted_iff by blast
  then have "distinct (take p vs @ vs ! p # drop (Suc p) vs)" using eq by simp
  moreover have "set vs = set (take p vs @ vs ! p # drop (Suc p) vs)" using eq by simp
  ultimately show ?thesis by auto
qed

lemma intsetFind_ok:
  assumes ok: "intset_ok is" and len: "unat (is_length is) < 2 ^ 28" and v: "int64 v"
  shows "intsetFind is v = Some (v \<in> set (intset_values is))"
proof -
  note r = intset_okD[OF ok]
  have "\<not> fits (unat (is_encoding is)) v \<Longrightarrow> v \<notin> set (intset_values is)" using repD(4)[OF r(1)] by (auto simp: in_set_conv_nth)
  moreover have "p_intsetValueEncoding v \<le> is_encoding is \<longleftrightarrow> fits (unat (is_encoding is)) v" using value_enc(3)[OF v repD(1)[OF r(1)]] .
  ultimately show ?thesis using intsetSearch_ok[OF r, of v] len by (auto simp: intsetFind_def)
qed

lemma intsetAdd_ok:
  assumes ok: "intset_ok is" and len: "unat (is_length is) < 2 ^ 28" and v: "int64 v"
  shows "\<exists>is'. intsetAdd fill is v = Some (is', v \<notin> set (intset_values is)) \<and> intset_ok is' \<and> set (intset_values is') = insert v (set (intset_values is))"
proof -
  let ?vs = "intset_values is"
  note r = intset_okD[OF ok]
  have e: "p_intsetValueEncoding v \<le> is_encoding is \<longleftrightarrow> fits (unat (is_encoding is)) v" using value_enc(3)[OF v repD(1)[OF r(1)]] .
  show ?thesis
  proof (cases "fits (unat (is_encoding is)) v")
    case False
    then obtain is' where is': "intsetUpgradeAndAdd fill is v = Some is'" "rep is' (if v < 0 then v # ?vs else ?vs @ [v])"
      using upgrade_ok[OF r(1) _ v, of fill] len by auto
    have far: "if v < 0 then v < x else x < v" if "x \<in> set ?vs" for x
      using not_fits[OF _ False, of x] repD(4)[OF r(1)] that by (metis in_set_conv_nth)
    then have "v \<notin> set ?vs" by (metis less_irrefl)
    moreover have "sorted_wrt (<) (if v < 0 then v # ?vs else ?vs @ [v])" using far r(2) by (auto simp: sorted_wrt_append)
    ultimately show ?thesis using is'(1) intset_okI[OF is'(2)] e False by (auto simp: intsetAdd_def not_le[symmetric])
  next
    case True
    have len': "length ?vs < 2 ^ 28" "length ?vs < 2 ^ 31" using len by simp_all
    obtain pos where pos: "intsetSearch is v = Some (v \<in> set ?vs, pos)" "located ?vs v (v \<in> set ?vs) (unat pos)"
      using intsetSearch_ok[OF r len'(2)] by blast
    show ?thesis
    proof (cases "v \<in> set ?vs")
      case mem: True
      then show ?thesis using pos(1) True e ok by (auto simp: intsetAdd_def insert_absorb)
    next
      case False
      then have p: "unat pos \<le> length ?vs" "located ?vs v False (unat pos)" using pos(2) by (auto simp: located_def)
      obtain is' where is': "(do { is1 \<leftarrow> intsetResize fill is (is_length is + 1);
                 is2 \<leftarrow> (if pos < is_length is1 then intsetMoveTail is1 pos (pos + 1) else Some is1);
                 is3 \<leftarrow> p_intsetSet is2 (sint pos) v;
                 Some (is3\<lparr>is_length := is_length is3 + 1\<rparr>, True) }) = Some (is', True)" "rep is' (take (unat pos) ?vs @ v # drop (unat pos) ?vs)"
        using insert_ok[OF r(1) len'(1) p(1) True, of fill] by blast
      have "\<not> is_encoding is < p_intsetValueEncoding v" using e True by simp
      then have "intsetAdd fill is v = Some (is', True)" using pos(1) False is'(1) by (simp add: intsetAdd_def)
      then show ?thesis using intset_okI[OF is'(2) sorted_insert[OF r(2) p(2)]] False set_insert_at by simp
    qed
  qed
qed

lemma intsetRemove_ok:
  assumes ok: "intset_ok is" and len: "unat (is_length is) < 2 ^ 28" and v: "int64 v"
  shows "\<exists>is'. intsetRemove fill is v = Some (is', v \<in> set (intset_values is)) \<and> intset_ok is' \<and> set (intset_values is') = set (intset_values is) - {v}"
proof -
  let ?vs = "intset_values is"
  note r = intset_okD[OF ok]
  have e: "p_intsetValueEncoding v \<le> is_encoding is \<longleftrightarrow> fits (unat (is_encoding is)) v" using value_enc(3)[OF v repD(1)[OF r(1)]] .
  have len': "length ?vs < 2 ^ 28" "length ?vs < 2 ^ 31" using len by simp_all
  obtain pos where pos: "intsetSearch is v = Some (v \<in> set ?vs, pos)" "located ?vs v (v \<in> set ?vs) (unat pos)"
    using intsetSearch_ok[OF r len'(2)] by blast
  show ?thesis
  proof (cases "v \<in> set ?vs")
    case False
    then show ?thesis using pos(1) ok by (auto simp: intsetRemove_def)
  next
    case True
    then have p: "unat pos < length ?vs" "?vs ! unat pos = v" using pos(2) by (auto simp: located_def)
    have "fits (unat (is_encoding is)) v" using repD(4)[OF r(1) p(1)] p(2) by simp
    then have n: "\<not> is_encoding is < p_intsetValueEncoding v" using e by simp
    obtain is' where is': "(do { is1 \<leftarrow> (if pos < is_length is - 1 then intsetMoveTail is (pos + 1) pos else Some is);
                     is2 \<leftarrow> intsetResize fill is1 (is_length is - 1);
                     Some (is2\<lparr>is_length := is_length is - 1\<rparr>, True) }) = Some (is', True)" "rep is' (take (unat pos) ?vs @ drop (Suc (unat pos)) ?vs)"
      using delete_ok[OF r(1) len'(1) p(1), of fill] by blast
    then have "intsetRemove fill is v = Some (is', True)" using pos(1) True n by (simp add: intsetRemove_def Let_def)
    then show ?thesis using intset_okI[OF is'(2) sorted_delete[OF r(2)]] True set_delete_at[OF r(2) p(1)] p(2) by simp
  qed
qed

section \<open>A set of integers is a map to unit\<close>

definition intset_map :: "intset \<Rightarrow> int \<Rightarrow> unit option" where
  "intset_map is v = (if v \<in> set (intset_values is) then Some () else None)"

fun intset_step :: "(nat \<Rightarrow> u8) \<Rightarrow> (int, unit) map_op \<Rightarrow> intset \<Rightarrow> (intset \<times> unit map_out) option" where
  "intset_step fill (Fetch v) is = map_option (\<lambda>b. (is, Value (if b then Some () else None))) (intsetFind is v)"
| "intset_step fill (Add v u) is = map_option (\<lambda>(is', b). (is', Flag b)) (intsetAdd fill is v)"
| "intset_step fill (Delete v) is = map_option (\<lambda>(is', b). (is', Flag b)) (intsetRemove fill is v)"
| "intset_step fill (Replace v u) is = None"

text \<open>The values are 64 bit integers, a set has no replacement, and the limit on the number of elements keeps the
  byte counts within 32 bits.\<close>

fun intset_legal :: "(int, unit) map_op \<Rightarrow> (int \<Rightarrow> unit option) \<Rightarrow> bool" where
  "intset_legal (Replace v u) m = False"
| "intset_legal (Fetch v) m = (int64 v \<and> card (dom m) < 2 ^ 28)"
| "intset_legal (Add v u) m = (int64 v \<and> card (dom m) < 2 ^ 28)"
| "intset_legal (Delete v) m = (int64 v \<and> card (dom m) < 2 ^ 28)"

lemma dom_intset_map [simp]: "dom (intset_map is) = set (intset_values is)"
  by (auto simp: intset_map_def split: if_splits)

lemma card_values: "intset_ok is \<Longrightarrow> card (set (intset_values is)) = unat (is_length is)"
  using intset_okD(2) strict_sorted_iff by (metis distinct_card length_values)

lemma intset_map_upd:
  "set (intset_values is') = insert v (set (intset_values is)) \<Longrightarrow> intset_map is' = (intset_map is)(v \<mapsto> ())"
  "set (intset_values is') = set (intset_values is) - {v} \<Longrightarrow> intset_map is' = (intset_map is)(v := None)"
  by (auto simp: fun_eq_iff intset_map_def)

interpretation intset_machine: map_machine intset_ok intset_map intset_legal intset_step
proof
  fix "is" x p
  assume ok: "intset_ok is" and l: "intset_legal x (intset_map is)"
  note c = card_values[OF ok]
  show "\<exists>is'. intset_step p x is = Some (is', snd (map_spec x (intset_map is))) \<and> intset_ok is' \<and> intset_map is' = fst (map_spec x (intset_map is))"
  proof (cases x)
    case (Fetch v)
    then show ?thesis using intsetFind_ok[OF ok, of v] l c ok by (simp add: intset_map_def)
  next
    case (Add v u)
    then obtain is' where is': "intsetAdd p is v = Some (is', v \<notin> set (intset_values is))" "intset_ok is'"
      "set (intset_values is') = insert v (set (intset_values is))" using intsetAdd_ok[OF ok, of v p] l c by auto
    have "intset_map is' = (if intset_map is v = None then (intset_map is)(v \<mapsto> ()) else intset_map is)"
      using intset_map_upd(1)[OF is'(3)] by (auto simp: fun_eq_iff intset_map_def)
    then show ?thesis using is'(1,2) Add by (auto simp: intset_map_def)
  next
    case (Delete v)
    then obtain is' where is': "intsetRemove p is v = Some (is', v \<in> set (intset_values is))" "intset_ok is'"
      "set (intset_values is') = set (intset_values is) - {v}" using intsetRemove_ok[OF ok, of v p] l c by auto
    then show ?thesis using intset_map_upd(2)[OF is'(3)] Delete by (auto simp: intset_map_def)
  qed (use l in simp)
qed

section \<open>Validation\<close>

text \<open>The bytes of a set in memory, as they are saved.\<close>

definition intset_blob :: "intset \<Rightarrow> u8 list" where
  "intset_blob is = bytes_le 4 (uint (is_encoding is)) @ bytes_le 4 (uint (is_length is)) @ is_contents is"

lemma le_uint_word: "le_uint (bytes_le 4 (uint (w :: u32))) = uint w"
  using uint_lt2p[of w] by (simp add: le_uint_of_bytes)

lemma blob_read: "intset_of_bytes (intset_blob is) = is"
  by (simp add: intset_of_bytes_def intset_blob_def le_uint_word)

lemma read_blob: "8 \<le> length p \<Longrightarrow> intset_blob (intset_of_bytes p) = p"
proof -
  assume l: "8 \<le> length p"
  have w: "bytes_le 4 (uint (word_of_int (le_uint bs) :: u32)) = bs" if "length bs = 4" for bs
    using le_uint_range[of bs] bytes_le_uint[of bs] that by (simp add: uint_word_of_int_eq take_bit_int_eq_self)
  have "intset_blob (intset_of_bytes p) = take 4 p @ take 4 (drop 4 p) @ drop 8 p"
    using w[of "take 4 p"] w[of "take 4 (drop 4 p)"] l by (simp add: intset_blob_def intset_of_bytes_def)
  also have "drop 8 p = drop 4 (drop 4 p)" by simp
  finally show ?thesis by (simp only: append_take_drop_id)
qed

lemma order_loop_ok:
  assumes rep: "rep is vs" and len: "length vs < 2 ^ 31"
  shows "0 < i \<Longrightarrow> i \<le> length vs \<Longrightarrow> order_loop is (vs ! (i - 1)) [i..<length vs] = Some (\<forall>j. i \<le> j \<and> j < length vs \<longrightarrow> vs ! (j - 1) < vs ! j)"
proof (induction "length vs - i" arbitrary: i)
  case 0
  then show ?case by auto
next
  case (Suc k)
  then have i: "i < length vs" by simp
  have "unat (of_nat i :: u32) = i" using i len by (simp add: unat_of_nat take_bit_nat_eq_self)
  then have g: "p_intsetGet is (sint (of_nat i :: u32)) = Some (vs ! i)" using rep_get[OF rep i] sint_small[of "of_nat i"] i len by simp
  have le: "i \<le> j \<longleftrightarrow> j = i \<or> Suc i \<le> j" for j by auto
  have "(\<forall>j. i \<le> j \<and> j < length vs \<longrightarrow> vs ! (j - 1) < vs ! j) \<longleftrightarrow> vs ! (i - 1) < vs ! i \<and> (\<forall>j. Suc i \<le> j \<and> j < length vs \<longrightarrow> vs ! (j - 1) < vs ! j)"
    unfolding le using i by blast
  then show ?case using Suc.hyps(1)[of "Suc i"] Suc.hyps(2) i g by (simp add: upt_conv_Cons not_le[symmetric])
qed

lemma sorted_steps: "sorted_wrt (<) vs \<longleftrightarrow> (\<forall>j. 1 \<le> j \<and> j < length vs \<longrightarrow> vs ! (j - 1) < vs ! (j :: nat))" for vs :: "int list"
proof -
  have "sorted_wrt (<) vs \<longleftrightarrow> (\<forall>i. Suc i < length vs \<longrightarrow> vs ! i < vs ! Suc i)" by (simp add: sorted_wrt_iff_nth_Suc_transp)
  also have "\<dots> \<longleftrightarrow> (\<forall>j. 1 \<le> j \<and> j < length vs \<longrightarrow> vs ! (j - 1) < vs ! j)"
    by (metis Suc_le_D Suc_le_mono diff_Suc_1 le0 One_nat_def)
  finally show ?thesis .
qed

lemma validate_ok:
  assumes l: "8 \<le> length p" "length p < 2 ^ 32"
  shows "intsetValidateIntegrity p True = Some (intset_ok (intset_of_bytes p) \<and> is_length (intset_of_bytes p) \<noteq> 0)"
proof -
  define s where "s = intset_of_bytes p"
  have lc: "length (is_contents s) = length p - 8" by (simp add: s_def intset_of_bytes_def)
  have V: "intsetValidateIntegrity p True =
    (if valid_enc (is_encoding s) \<and> 8 + unat (is_length s) * rec_size (is_encoding s) = length p \<and> is_length s \<noteq> 0
     then do { prev \<leftarrow> p_intsetGet s 0; order_loop s prev [1..<unat (is_length s)] } else Some False)"
    using l(1) by (auto simp: intsetValidateIntegrity_def Let_def valid_enc_def s_def)
  show ?thesis
  proof (cases "valid_enc (is_encoding s) \<and> 8 + unat (is_length s) * rec_size (is_encoding s) = length p \<and> is_length s \<noteq> 0")
    case False
    then have "\<not> (intset_ok s \<and> is_length s \<noteq> 0)" using lc l(1) valid_encD[of "is_encoding s"] by (auto simp: intset_ok_def valid_enc_def)
    then show ?thesis unfolding V if_not_P[OF False] s_def[symmetric] by simp
  next
    case True
    note e = valid_encD[OF conjunct1[OF True]]
    have c: "length (is_contents s) = unat (is_length s) * unat (is_encoding s)" using True e lc by (metis add_diff_cancel_left')
    have r: "rep s (intset_values s)" by (rule values_rep[OF conjunct1[OF True] c])
    have "2 \<le> unat (is_encoding s)" using True by (auto simp: valid_enc_def)
    then have "unat (is_length s) * 2 \<le> length p" using c lc mult_le_mono2[of 2 "unat (is_encoding s)" "unat (is_length s)"] by linarith
    then have len: "length (intset_values s) < 2 ^ 31" using l(2) by simp
    have "unat (is_length s) \<noteq> 0" using True by (simp add: unat_eq_0)
    then have "p_intsetGet s 0 = Some (intset_values s ! 0)" "order_loop s (intset_values s ! (1 - 1)) [1..<length (intset_values s)] = Some (sorted_wrt (<) (intset_values s))"
      using rep_get[OF r, of 0] order_loop_ok[OF r len, of 1] unfolding sorted_steps[of "intset_values s"] by simp_all
    moreover have "intset_ok s \<longleftrightarrow> sorted_wrt (<) (intset_values s)" using True c by (auto simp: intset_ok_def valid_enc_def)
    ultimately show ?thesis unfolding V if_P[OF True] s_def[symmetric] using True by simp
  qed
qed

section \<open>Queries\<close>

lemma intset_queries:
  assumes ok: "intset_ok is" and len: "unat (is_length is) < 2 ^ 28" "is_length is \<noteq> 0"
  shows "intsetMin is = Some (Min (set (intset_values is)))" "intsetMax is = Some (Max (set (intset_values is)))"
    "intsetGet is pos = Some (if unat pos < unat (is_length is) then Some (intset_values is ! unat pos) else None)"
    "\<exists>v \<in> set (intset_values is). intsetRandom is rnd = Some v"
proof -
  let ?vs = "intset_values is" and ?n = "unat (is_length is)"
  note r = intset_okD[OF ok]
  have n: "0 < ?n" using len(2) by (simp add: unat_gt_0)
  have get: "p_intsetGet is (sint w) = Some (?vs ! unat w)" if "unat w < ?n" for w :: u32
    using rep_get[OF r(1), of "unat w"] sint_small[of w] that len(1) by simp
  have srt: "sorted ?vs" using r(2) strict_sorted_iff by blast
  have "Min (set ?vs) = ?vs ! 0"
  proof (rule Min_eqI)
    fix y assume "y \<in> set ?vs"
    then obtain i where "i < ?n" "y = ?vs ! i" by (auto simp: in_set_conv_nth)
    then show "?vs ! 0 \<le> y" using sorted_nth_mono[OF srt, of 0 i] by simp
  qed (use n in simp_all)
  then show "intsetMin is = Some (Min (set ?vs))" using rep_get[OF r(1), of 0] n by (simp add: intsetMin_def)
  have "unat (is_length is - 1) = ?n - 1" using len(2) by (simp add: unat_minus_one)
  then have "intsetMax is = Some (?vs ! (?n - 1))" using get[of "is_length is - 1"] n by (simp add: intsetMax_def)
  moreover have "Max (set ?vs) = ?vs ! (?n - 1)"
  proof (rule Max_eqI)
    fix y assume "y \<in> set ?vs"
    then obtain i where "i < ?n" "y = ?vs ! i" by (auto simp: in_set_conv_nth)
    then show "y \<le> ?vs ! (?n - 1)" using sorted_nth_mono[OF srt, of i "?n - 1"] by simp
  qed (use n in simp_all)
  ultimately show "intsetMax is = Some (Max (set ?vs))" by simp
  show "intsetGet is pos = Some (if unat pos < ?n then Some (?vs ! unat pos) else None)"
    using get[of pos] by (simp add: intsetGet_def word_less_nat_alt)
  have "unat (rnd mod is_length is) < ?n" using n by (simp add: unat_mod_distrib)
  then show "\<exists>v \<in> set ?vs. intsetRandom is rnd = Some v"
    using get[of "rnd mod is_length is"] len(2) by (auto simp: intsetRandom_def)
qed

section \<open>Properties\<close>

text \<open>C3. A set of integers behaves as a set. Any sequence of lookups, insertions and removals of 64 bit integers, whatever bytes
  the reallocations bring, reads and writes inside the array, answers as a set would, and leaves the elements sorted
  and each once. The upgrades to wider records on the way lose and change nothing.\<close>

theorem intset_refines_set:
  assumes "all_legal intset_legal (map snd pxs) Map.empty"
  shows "\<exists>is. run_ops intset_step pxs intsetNew = Some (is, snd (spec_outs (map snd pxs) Map.empty))
    \<and> set (intset_values is) = dom (fst (spec_outs (map snd pxs) Map.empty)) \<and> sorted_wrt (<) (intset_values is)
    \<and> unat (intsetLen is) = card (dom (fst (spec_outs (map snd pxs) Map.empty)))"
proof -
  have new: "intset_ok intsetNew" "intset_map intsetNew = Map.empty"
    by (auto simp: intset_ok_def intsetNew_def intset_values_def intset_map_def)
  obtain s where s: "run_ops intset_step pxs intsetNew = Some (s, snd (spec_outs (map snd pxs) Map.empty))" "intset_ok s"
    "intset_map s = fst (spec_outs (map snd pxs) Map.empty)"
    using intset_machine.run_refines[OF new(1), of pxs] assms new(2) by auto
  have "set (intset_values s) = dom (fst (spec_outs (map snd pxs) Map.empty))" unfolding s(3)[symmetric] by simp
  then show ?thesis using s(1) intset_okD(2)[OF s(2)] card_values[OF s(2)] by (simp add: intsetLen_def)
qed

theorem intset_refines_set_witness:
  "\<exists>is. run_ops intset_step [((\<lambda>_. 7), Add 5 ()), ((\<lambda>_. 9), Add (- 70000) ()), ((\<lambda>_. 0), Fetch 5), ((\<lambda>_. 0), Delete 6)] intsetNew
      = Some (is, [Flag True, Flag True, Value (Some ()), Flag False])
    \<and> set (intset_values is) = {5, - 70000} \<and> sorted_wrt (<) (intset_values is)"
proof -
  let ?xs = "[((\<lambda>_. 7), Add 5 ()), ((\<lambda>_. 9), Add (- 70000) ()), ((\<lambda>_. 0), Fetch 5), ((\<lambda>_. 0), Delete 6)] :: ((nat \<Rightarrow> u8) \<times> (int, unit) map_op) list"
  have "all_legal intset_legal (map snd ?xs) Map.empty" by (simp add: fits_def card_insert_if)
  from intset_refines_set[OF this] show ?thesis by auto
qed

text \<open>C39. The check of a saved set accepts exactly the buffers that hold a non-empty, well-formed set: a known record
  width, records that fill the buffer, and values in strictly ascending order. It never reads outside the buffer.\<close>

theorem intset_validation_is_exact:
  assumes "length p < 2 ^ 32"
  shows "intsetValidateIntegrity p True = Some (\<exists>is. p = intset_blob is \<and> intset_ok is \<and> is_length is \<noteq> 0)"
proof (cases "8 \<le> length p")
  case True
  have "(\<exists>is. p = intset_blob is \<and> intset_ok is \<and> is_length is \<noteq> 0) \<longleftrightarrow> intset_ok (intset_of_bytes p) \<and> is_length (intset_of_bytes p) \<noteq> 0"
    using read_blob[OF True] blob_read by metis
  then show ?thesis using validate_ok[OF True assms] by simp
next
  case False
  then have "p \<noteq> intset_blob is" for "is" by (auto simp: intset_blob_def)
  then show ?thesis using False by (simp add: intsetValidateIntegrity_def)
qed

theorem intset_validation_is_exact_witness:
  "intsetValidateIntegrity [2, 0, 0, 0, 1, 0, 0, 0, 5, 0] True = Some True"
proof -
  let ?s = "\<lparr>is_encoding = 2, is_length = 1, is_contents = [5, 0]\<rparr> :: intset"
  have "[2, 0, 0, 0, 1, 0, 0, 0, 5, 0] = intset_blob ?s" by (simp add: intset_blob_def bytes_le_def upt_rec)
  moreover have "intset_ok ?s" "is_length ?s \<noteq> 0" by (simp_all add: intset_ok_def intset_values_def)
  ultimately have ex: "(\<exists>is. [2, 0, 0, 0, 1, 0, 0, 0, 5, 0] = intset_blob is \<and> intset_ok is \<and> is_length is \<noteq> 0) = True" by blast
  have "length [2, 0, 0, 0, 1, 0, 0, 0, 5, 0 :: u8] < 2 ^ 32" by simp
  from intset_validation_is_exact[OF this] show ?thesis unfolding ex .
qed

text \<open>C40. The number of bytes that an insertion or a removal moves is computed at 32 bits. In a set of 2^29 integers of 64 bits it
  wraps to 0: nothing is moved to make room at the front, and the element there is overwritten.\<close>

theorem move_tail_wraps:
  assumes "is_encoding is = INTSET_ENC_INT64" "is_length is = 2 ^ 29"
    and "length (is_contents is) = (2 ^ 29 + 1) * 8"
  shows "intsetMoveTail is 0 1 = Some is"
proof -
  have "((2 :: u32) ^ 29 - 0) * of_nat 8 = 0" by (rule word_uint_eqI) simp
  then show ?thesis using assms by (simp add: intsetMoveTail_def Let_def)
qed

theorem move_tail_wraps_witness:
  "intsetMoveTail \<lparr>is_encoding = 8, is_length = 2 ^ 29, is_contents = replicate ((2 ^ 29 + 1) * 8) 0\<rparr> 0 1
    = Some \<lparr>is_encoding = 8, is_length = 2 ^ 29, is_contents = replicate ((2 ^ 29 + 1) * 8) 0\<rparr>"
  by (rule move_tail_wraps) (simp_all only: intset.simps length_replicate)

end
